(* ===== verification/Xv6_Prelude.thy ===== *)
theory Xv6_Prelude
  imports Main "HOL-Library.Word"
begin

unbundle bit_operations_syntax

text \<open>
  Shared vocabulary of the development: the C integer types as words, the names of the kernel's
  static objects that locks and sleep channels refer to, the result type of kernel operations
  (every \<open>panic\<close>, every unbounded spin and every sleep is a value), its sequencing operator
  \<open>bindE\<close>, the constants of \<open>param.h\<close>, \<open>fs.h\<close>, \<open>memlayout.h\<close> and \<open>mmu.h\<close>, and generic
  lemmas on lists, sums and words.
\<close>

section \<open>C integer types (types.h)\<close>

type_synonym u8 = "8 word"
type_synonym u16 = "16 word"
type_synonym u32 = "32 word"

text \<open>Memory as the processor addresses it: one byte per 32-bit address.\<close>

type_synonym memory = "u32 \<Rightarrow> u8"

text \<open>\<open>param.h\<close>, \<open>fs.h\<close>, \<open>memlayout.h\<close>, \<open>mmu.h\<close>: the constants the modelled code uses.\<close>

abbreviation (input) NPROC :: nat where "NPROC \<equiv> 64"
abbreviation (input) KSTACKSIZE :: u32 where "KSTACKSIZE \<equiv> 4096"
abbreviation (input) NOFILE :: nat where "NOFILE \<equiv> 16"
abbreviation (input) NFILE :: nat where "NFILE \<equiv> 100"
abbreviation (input) NBUF :: nat where "NBUF \<equiv> 30"
abbreviation (input) MAXOPBLOCKS :: int where "MAXOPBLOCKS \<equiv> 10"
abbreviation (input) LOGSIZE :: nat where "LOGSIZE \<equiv> 30"
abbreviation (input) BSIZE :: nat where "BSIZE \<equiv> 512"
abbreviation (input) PGSIZE :: u32 where "PGSIZE \<equiv> 4096"
abbreviation (input) KERNBASE :: u32 where "KERNBASE \<equiv> 0x80000000"
abbreviation (input) PHYSTOP :: u32 where "PHYSTOP \<equiv> 0xE000000"
definition FL_IF :: u32 where "FL_IF = 0x200"

section \<open>Static objects, sleep channels and kernel results\<close>

text \<open>
  Locks and sleep channels are C addresses of static objects. The model names the objects: a
  sleep lock is the lock of a buffer or of an inode cache entry, a spin lock one of the kernel's
  global locks, the inner lock of a sleep lock or the lock of a pipe page.
\<close>

datatype slid = BufLk nat | InodeLk nat

datatype lockid =
    KmemLock | PtableLock | BcacheLock | LogLock | IcacheLock | FtableLock
  | ConsLock | TicksLock | IdeLock | SleepLk slid | PipeLock u32

datatype chan =
    ChSleeplock slid | ChLog | ChProc nat | ChTicks | ChInputR | ChBuf nat
  | ChPipeNread u32 | ChPipeNwrite u32

text \<open>
  What a kernel operation can do besides returning: \<open>panic\<close> with a message, spin on a lock that
  no step of this processor can free, sleep on a channel (the call is blocked until another
  process wakes it), follow a corrupted pointer
  chain (or any other loop) forever, or make an access C leaves undefined (a null or stray pointer).
\<close>

datatype kerr = Panic string | Spin lockid | Sleep chan | Diverge | Fault

type_synonym 'a kres = "kerr + 'a"

fun bindE :: "'e + 'a \<Rightarrow> ('a \<Rightarrow> 'e + 'b) \<Rightarrow> 'e + 'b" where
  "bindE (Inl e) f = Inl e"
| "bindE (Inr x) f = f x"

lemma bindE_cong [fundef_cong]:
  "m = m' \<Longrightarrow> (\<And>x. m' = Inr x \<Longrightarrow> f x = f' x) \<Longrightarrow> bindE m f = bindE m' f'"
  by (cases m') auto

lemma bindE_Inr_iff: "bindE m f = Inr y \<longleftrightarrow> (\<exists>x. m = Inr x \<and> f x = Inr y)"
  by (cases m) auto

lemma bindE_Inr_elim [elim!]:
  assumes "bindE m f = Inr y"
  obtains x where "m = Inr x" and "f x = Inr y"
  using assms by (cases m) auto

lemma bindE_assoc: "bindE (bindE m f) g = bindE m (\<lambda>x. bindE (f x) g)"
  by (cases m) auto

lemma bindE_Inr_right [simp]: "bindE m Inr = m"
  by (cases m) auto

section \<open>Generic lemmas\<close>

named_theorems field_simps_k
  \<open>effect of an operation on the fields it leaves alone\<close>

lemma list_all_update:
  "list_all P xs \<Longrightarrow> P x \<Longrightarrow> list_all P (xs[i := x])"
  by (cases "i < length xs") (auto simp: list_all_length nth_list_update)

lemma word_mod_4_dvd: "(a :: u32) mod 4 = 0 \<longleftrightarrow> 4 dvd unat a"
proof -
  have "a mod 4 = 0 \<longleftrightarrow> unat (a mod 4) = 0" by (simp add: unat_eq_zero)
  also have "unat (a mod 4) = unat a mod 4" by (simp add: unat_mod)
  finally show ?thesis by (simp add: dvd_eq_mod_eq_0)
qed

lemma unat_u32_less: "unat (x :: u32) < 4294967296"
  using unsigned_less [of x, where ?'a = nat] by simp

end
