(* ===== verification/CString.thy ===== *)
theory CString
  imports Xv6_Prelude
begin

text \<open>
  \<open>string.c\<close> (kernel) and the string routines of \<open>ulib.c\<close> (user library), over byte-addressed
  memory. Pointers are 32-bit words, so pointer arithmetic wraps as the machine's does. Loops that
  count down are recursion on the count; loops that stop at a NUL byte may never stop, and are
  \<open>partial_function (option)\<close>. \<open>rep stosb\<close> and \<open>rep stosl\<close> of \<open>x86.h\<close> are given by the bytes
  they store.
\<close>

section \<open>Words in memory\<close>

text \<open>A \<open>uint\<close> in memory is four bytes, least significant first.\<close>

definition read32 :: "memory \<Rightarrow> u32 \<Rightarrow> u32" where
  "read32 m a = ucast (m a) OR push_bit 8 (ucast (m (a + 1))) OR
     push_bit 16 (ucast (m (a + 2))) OR push_bit 24 (ucast (m (a + 3)))"

definition write32 :: "memory \<Rightarrow> u32 \<Rightarrow> u32 \<Rightarrow> memory" where
  "write32 m a v = m(a := ucast v, a + 1 := ucast (drop_bit 8 v),
     a + 2 := ucast (drop_bit 16 v), a + 3 := ucast (drop_bit 24 v))"

definition write16 :: "memory \<Rightarrow> u32 \<Rightarrow> u16 \<Rightarrow> memory" where
  "write16 m a v = m(a := ucast v, a + 1 := ucast (drop_bit 8 v))"

definition read16 :: "memory \<Rightarrow> u32 \<Rightarrow> u16" where
  "read16 m a = ucast (m a) OR push_bit 8 (ucast (m (a + 1)))"

section \<open>x86.h: string store instructions\<close>

definition stosb :: "memory \<Rightarrow> u32 \<Rightarrow> u32 \<Rightarrow> u32 \<Rightarrow> memory" where
  "stosb m addr data cnt = (\<lambda>a. if unat (a - addr) < unat cnt then ucast data else m a)"

definition stosl :: "memory \<Rightarrow> u32 \<Rightarrow> u32 \<Rightarrow> u32 \<Rightarrow> memory" where
  "stosl m addr data cnt =
     (\<lambda>a. if unat (a - addr) < 4 * unat cnt
          then ucast (drop_bit (8 * (unat (a - addr) mod 4)) data) else m a)"

section \<open>string.c\<close>

definition memset :: "memory \<Rightarrow> u32 \<Rightarrow> u32 \<Rightarrow> u32 \<Rightarrow> memory" where
  "memset m dst c n =
     (if dst mod 4 = 0 \<and> n mod 4 = 0
      then let c = c AND 0xFF
           in stosl m dst (push_bit 24 c OR push_bit 16 c OR push_bit 8 c OR c) (n div 4)
      else stosb m dst c n)"

fun memcmp_loop :: "memory \<Rightarrow> u32 \<Rightarrow> u32 \<Rightarrow> nat \<Rightarrow> int" where
  "memcmp_loop m s1 s2 0 = 0"
| "memcmp_loop m s1 s2 (Suc n) =
     (if m s1 \<noteq> m s2 then uint (m s1) - uint (m s2) else memcmp_loop m (s1 + 1) (s2 + 1) n)"

definition memcmp :: "memory \<Rightarrow> u32 \<Rightarrow> u32 \<Rightarrow> u32 \<Rightarrow> int" where
  "memcmp m v1 v2 n = memcmp_loop m v1 v2 (unat n)"

text \<open>\<open>while(n-- > 0) *--d = *--s\<close> and \<open>while(n-- > 0) *d++ = *s++\<close>.\<close>

fun copy_down :: "memory \<Rightarrow> u32 \<Rightarrow> u32 \<Rightarrow> nat \<Rightarrow> memory" where
  "copy_down m d s 0 = m"
| "copy_down m d s (Suc n) = copy_down (m(d - 1 := m (s - 1))) (d - 1) (s - 1) n"

fun copy_up :: "memory \<Rightarrow> u32 \<Rightarrow> u32 \<Rightarrow> nat \<Rightarrow> memory" where
  "copy_up m d s 0 = m"
| "copy_up m d s (Suc n) = copy_up (m(d := m s)) (d + 1) (s + 1) n"

definition memmove :: "memory \<Rightarrow> u32 \<Rightarrow> u32 \<Rightarrow> u32 \<Rightarrow> memory" where
  "memmove m d s n =
     (if s < d \<and> s + n > d then copy_down m (d + n) (s + n) (unat n) else copy_up m d s (unat n))"

definition memcpy :: "memory \<Rightarrow> u32 \<Rightarrow> u32 \<Rightarrow> u32 \<Rightarrow> memory" where
  "memcpy m d s n = memmove m d s n"

fun strncmp_loop :: "memory \<Rightarrow> u32 \<Rightarrow> u32 \<Rightarrow> nat \<Rightarrow> int" where
  "strncmp_loop m p q 0 = 0"
| "strncmp_loop m p q (Suc n) =
     (if m p \<noteq> 0 \<and> m p = m q then strncmp_loop m (p + 1) (q + 1) n else uint (m p) - uint (m q))"

definition strncmp :: "memory \<Rightarrow> u32 \<Rightarrow> u32 \<Rightarrow> u32 \<Rightarrow> int" where
  "strncmp m p q n = strncmp_loop m p q (unat n)"

fun strncpy_pad :: "memory \<Rightarrow> u32 \<Rightarrow> nat \<Rightarrow> memory" where
  "strncpy_pad m s 0 = m"
| "strncpy_pad m s (Suc n) = strncpy_pad (m(s := 0)) (s + 1) n"

fun strncpy_copy :: "memory \<Rightarrow> u32 \<Rightarrow> u32 \<Rightarrow> nat \<Rightarrow> memory" where
  "strncpy_copy m s t 0 = m"
| "strncpy_copy m s t (Suc n) =
     (if m t \<noteq> 0 then strncpy_copy (m(s := m t)) (s + 1) (t + 1) n
      else strncpy_pad (m(s := 0)) (s + 1) n)"

definition strncpy :: "memory \<Rightarrow> u32 \<Rightarrow> u32 \<Rightarrow> int \<Rightarrow> memory" where
  "strncpy m s t n = strncpy_copy m s t (nat n)"

fun safestrcpy_copy :: "memory \<Rightarrow> u32 \<Rightarrow> u32 \<Rightarrow> nat \<Rightarrow> memory" where
  "safestrcpy_copy m s t 0 = m(s := 0)"
| "safestrcpy_copy m s t (Suc n) =
     (if m t \<noteq> 0 then safestrcpy_copy (m(s := m t)) (s + 1) (t + 1) n
      else (m(s := 0))(s + 1 := 0))"

definition safestrcpy :: "memory \<Rightarrow> u32 \<Rightarrow> u32 \<Rightarrow> int \<Rightarrow> memory" where
  "safestrcpy m s t n = (if n \<le> 0 then m else safestrcpy_copy m s t (nat n - 1))"

partial_function (option) strlen_from :: "memory \<Rightarrow> u32 \<Rightarrow> nat \<Rightarrow> nat option" where
  "strlen_from m s n = (if m (s + of_nat n) = 0 then Some n else strlen_from m s (Suc n))"

definition strlen :: "memory \<Rightarrow> u32 \<Rightarrow> nat option" where
  "strlen m s = strlen_from m s 0"

section \<open>Lemmas: words in memory\<close>

lemma read32_write32_same [simp]: "read32 (write32 m a v) a = v"
proof (rule bit_word_eqI)
  fix n assume "n < LENGTH(32)"
  then consider "n < 8" | "8 \<le> n" "n < 16" | "16 \<le> n" "n < 24" | "24 \<le> n" "n < 32"
    by fastforce
  then show "bit (read32 (write32 m a v) a) n = bit v n"
    by cases (auto simp: read32_def write32_def bit_simps)
qed

text \<open>
  \<open>inblk a n x\<close>: address \<open>x\<close> is one of the \<open>n\<close> bytes from \<open>a\<close> on (modulo the word size).
\<close>

abbreviation inblk :: "u32 \<Rightarrow> nat \<Rightarrow> u32 \<Rightarrow> bool" where
  "inblk a n x \<equiv> unat (x - a) < n"

lemma write16_other: "\<not> inblk a 2 x \<Longrightarrow> write16 m a v x = m x"
  by (auto simp: write16_def)

lemma read16_write16_same [simp]: "read16 (write16 m a v) a = v"
  by (rule bit_word_eqI) (auto simp: read16_def write16_def bit_simps)

lemma write32_other: "\<not> inblk a 4 x \<Longrightarrow> write32 m a v x = m x"
  by (auto simp: write32_def)

lemma read32_cong:
  assumes "\<And>x. inblk a 4 x \<Longrightarrow> m x = m' x"
  shows "read32 m a = read32 m' a"
proof -
  have "m a = m' a" "m (a + 1) = m' (a + 1)" "m (a + 2) = m' (a + 2)" "m (a + 3) = m' (a + 3)"
    by (rule assms; simp)+
  then show ?thesis by (simp add: read32_def)
qed

lemma memset_apply: "memset m d c n a = (if inblk d (unat n) a then ucast c else m a)"
proof (cases "d mod 4 = 0 \<and> n mod 4 = 0")
  case True
  define p where "p = push_bit 24 (c AND 0xFF) OR push_bit 16 (c AND 0xFF) OR
    push_bit 8 (c AND 0xFF) OR (c AND 0xFF)"
  have mask: "(0xFF :: u32) = mask 8" by (simp add: mask_eq_exp_minus_1)
  have byte: "ucast (drop_bit (8 * k) p) = (ucast c :: u8)" if "k < 4" for k
  proof -
    from that consider "k = 0" | "k = 1" | "k = 2" | "k = 3" by linarith
    then show ?thesis
      by cases (auto intro!: bit_word_eqI simp: p_def mask bit_simps)
  qed
  have "4 * unat (n div 4) = unat n"
    using True word_mod_4_dvd [of n] by (simp add: unat_div)
  then show ?thesis
    using True byte by (simp add: memset_def stosl_def p_def Let_def)
next
  case False
  then show ?thesis by (auto simp: memset_def stosb_def Let_def)
qed

section \<open>Lemmas: memcmp, memmove\<close>

lemma unat_of_nat_u32: "k < 2 ^ 32 \<Longrightarrow> unat (of_nat k :: u32) = k"
  by (simp add: unat_of_nat)

lemma unat_diff_Suc: "a \<noteq> s \<Longrightarrow> unat (a - s) = Suc (unat (a - (s + 1 :: u32)))"
proof -
  assume "a \<noteq> s"
  then have "a - s \<noteq> 0" by simp
  then have "unat (a - s) = Suc (unat (a - s - 1))"
    by (metis unat_minus_one Suc_diff_1 unat_gt_0)
  then show ?thesis by (simp add: diff_diff_add)
qed

lemma inblk_ex:
  "inblk a n x \<Longrightarrow> \<exists>k < n. x = a + of_nat k"
  by (rule exI [of _ "unat (x - a)"]) simp

lemma memcmp_loop_eq_0:
  "memcmp_loop m p q n = 0 \<longleftrightarrow> (\<forall>i < n. m (p + of_nat i) = m (q + of_nat i))"
proof (induction n arbitrary: p q)
  case (Suc n)
  have "(\<forall>i < Suc n. m (p + of_nat i) = m (q + of_nat i)) \<longleftrightarrow>
    m p = m q \<and> (\<forall>i < n. m (p + 1 + of_nat i) = m (q + 1 + of_nat i))"
    by (auto simp: less_Suc_eq_0_disj add.assoc)
  then show ?case
    using Suc [of "p + 1" "q + 1"] by (auto simp: word_uint_eq_iff)
qed simp

lemma copy_up_apply:
  assumes "n \<le> 2 ^ 32" and "\<And>i j. i < j \<Longrightarrow> j < n \<Longrightarrow> d + of_nat i \<noteq> s + of_nat j"
  shows "copy_up m d s n a = (if inblk d n a then m (s + (a - d)) else m a)"
  using assms
proof (induction n arbitrary: m d s)
  case (Suc n)
  have IH: "copy_up m' (d + 1) (s + 1) n a =
    (if inblk (d + 1) n a then m' (s + 1 + (a - (d + 1))) else m' a)" for m'
  proof (rule Suc.IH)
    fix i j assume "i < j" "j < n"
    then show "d + 1 + of_nat i \<noteq> s + 1 + of_nat j"
      using Suc.prems(2) [of "Suc i" "Suc j"] by (simp add: algebra_simps)
  qed (use Suc.prems in simp)
  show ?case
  proof (cases "a = d")
    case True
    have "\<not> inblk (d + 1) n d"
      using Suc.prems(1) by (simp add: unsigned_minus_1_eq_mask mask_eq_exp_minus_1)
    then have "copy_up (m(d := m s)) (d + 1) (s + 1) n d = m s"
      using IH [of "m(d := m s)"] True by (simp only: if_False) simp
    with True show ?thesis by simp
  next
    case False
    have split: "inblk d (Suc n) a \<longleftrightarrow> inblk (d + 1) n a"
      using unat_diff_Suc [OF False] by simp
    have "s + (a - d) \<noteq> d" if "inblk (d + 1) n a"
    proof -
      have "unat (a - d) < Suc n" "0 < unat (a - d)"
        using that split False by (auto simp: unat_gt_0)
      then have "d + of_nat 0 \<noteq> s + of_nat (unat (a - d))"
        by (intro Suc.prems(2)) auto
      then show ?thesis by simp
    qed
    then show ?thesis
      using False split by (simp add: IH)
  qed
qed simp

lemma copy_down_apply:
  assumes "n \<le> 2 ^ 32" and "\<And>i j. i < j \<Longrightarrow> j < n \<Longrightarrow> d + of_nat j \<noteq> s + of_nat i"
  shows "copy_down m (d + of_nat n) (s + of_nat n) n a =
    (if inblk d n a then m (s + (a - d)) else m a)"
  using assms
proof (induction n arbitrary: m)
  case (Suc n)
  define m' where "m' = m(d + of_nat n := m (s + of_nat n))"
  have step: "copy_down m (d + of_nat (Suc n)) (s + of_nat (Suc n)) (Suc n) a =
    copy_down m' (d + of_nat n) (s + of_nat n) n a"
    by (simp add: m'_def algebra_simps)
  have IH: "copy_down m' (d + of_nat n) (s + of_nat n) n a =
    (if inblk d n a then m' (s + (a - d)) else m' a)"
    using Suc by simp
  have at_n: "unat (a - d) = n \<longleftrightarrow> a = d + of_nat n"
    using Suc.prems(1) unat_of_nat_u32 [of n] by (auto simp: algebra_simps)
  have "s + (a - d) \<noteq> d + of_nat n" if "inblk d n a"
    using Suc.prems(2) [of "unat (a - d)" n] that by simp
  then show ?case
    using step IH at_n by (auto simp: m'_def less_Suc_eq)
qed simp

lemma memmove_apply:
  assumes "unat d + unat n < 2 ^ 32" and "unat s + unat n < 2 ^ 32"
  shows "memmove m d s n = (\<lambda>a. if inblk d (unat n) a then m (s + (a - d)) else m a)"
proof
  fix a
  have off: "unat (d + of_nat i) = unat d + i" "unat (s + of_nat i) = unat s + i"
    if "i < unat n" for i
    using that assms by (simp_all add: unat_word_ariths unat_of_nat)
  have lim: "unat (s + n) = unat s + unat n"
    using assms by (simp add: unat_word_ariths)
  have bound: "unat n \<le> 2 ^ 32" using assms by simp
  show "memmove m d s n a = (if inblk d (unat n) a then m (s + (a - d)) else m a)"
  proof (cases "s < d \<and> s + n > d")
    case True
    have "copy_down m (d + of_nat (unat n)) (s + of_nat (unat n)) (unat n) a =
      (if inblk d (unat n) a then m (s + (a - d)) else m a)"
    proof (rule copy_down_apply [OF bound])
      fix i j assume "i < j" "j < unat n"
      then have "unat (d + of_nat j) \<noteq> unat (s + of_nat i)"
        using True off(1) [of j] off(2) [of i] by (simp add: word_less_nat_alt)
      then show "d + of_nat j \<noteq> s + of_nat i" by auto
    qed
    with True show ?thesis by (simp add: memmove_def)
  next
    case False
    have "copy_up m d s (unat n) a = (if inblk d (unat n) a then m (s + (a - d)) else m a)"
    proof (rule copy_up_apply [OF bound])
      fix i j assume "i < j" "j < unat n"
      then have "unat (d + of_nat i) \<noteq> unat (s + of_nat j)"
        using False off(1) [of i] off(2) [of j] lim by (auto simp: word_less_nat_alt)
      then show "d + of_nat i \<noteq> s + of_nat j" by auto
    qed
    with False show ?thesis by (auto simp: memmove_def)
  qed
qed

section \<open>Lemmas: NUL-terminated strings\<close>

text \<open>\<open>cstr m a xs\<close>: the C string at address \<open>a\<close> is \<open>xs\<close>, followed by its NUL byte.\<close>

fun cstr :: "memory \<Rightarrow> u32 \<Rightarrow> u8 list \<Rightarrow> bool" where
  "cstr m a [] \<longleftrightarrow> m a = 0"
| "cstr m a (x # xs) \<longleftrightarrow> m a = x \<and> x \<noteq> 0 \<and> cstr m (a + 1) xs"

lemma cstr_cong:
  "(\<And>i. i \<le> length xs \<Longrightarrow> m (a + of_nat i) = m' (a + of_nat i)) \<Longrightarrow> cstr m a xs = cstr m' a xs"
proof (induction xs arbitrary: a)
  case Nil
  from Nil.prems [of 0] show ?case by simp
next
  case (Cons x xs)
  have "cstr m (a + 1) xs = cstr m' (a + 1) xs"
  proof (rule Cons.IH)
    fix i assume "i \<le> length xs"
    then show "m (a + 1 + of_nat i) = m' (a + 1 + of_nat i)"
      using Cons.prems [of "Suc i"] by (simp add: algebra_simps)
  qed
  then show ?case using Cons.prems [of 0] by simp
qed

lemma strlen_from_cstr:
  "cstr m (s + of_nat n) xs \<Longrightarrow> strlen_from m s n = Some (n + length xs)"
proof (induction xs arbitrary: n)
  case Nil
  then show ?case by (simp add: strlen_from.simps)
next
  case (Cons x xs)
  then have "strlen_from m s (Suc n) = Some (Suc n + length xs)"
    by (intro Cons.IH) (simp add: algebra_simps)
  with Cons.prems show ?case by (simp add: strlen_from.simps)
qed

theorem strlen_cstr: "cstr m s xs \<Longrightarrow> strlen m s = Some (length xs)"
  using strlen_from_cstr [of m s 0 xs] by (simp add: strlen_def)

lemma strncmp_loop_cstr:
  "cstr m p xs \<Longrightarrow> cstr m q ys \<Longrightarrow> strncmp_loop m p q n = 0 \<longleftrightarrow> take n xs = take n ys"
proof (induction n arbitrary: p q xs ys)
  case (Suc n)
  show ?case
  proof (cases xs; cases ys)
    fix x xs' y ys' assume "xs = x # xs'" "ys = y # ys'"
    with Suc show ?thesis by (auto simp: word_uint_eq_iff)
  qed (use Suc.prems in \<open>auto simp: word_uint_eq_iff\<close>)
qed simp

theorem strncmp_cstr:
  "cstr m p xs \<Longrightarrow> cstr m q ys \<Longrightarrow>
   strncmp m p q n = 0 \<longleftrightarrow> take (unat n) xs = take (unat n) ys"
  by (simp add: strncmp_def strncmp_loop_cstr)

lemma not_inblk_succ: "n < 2 ^ 32 \<Longrightarrow> \<not> inblk (s + 1) n s"
  by (simp add: unsigned_minus_1_eq_mask mask_eq_exp_minus_1)

lemma inblk_Suc: "inblk s (Suc n) a \<longleftrightarrow> a = s \<or> inblk (s + 1) n a" if "n < 2 ^ 32"
  by (cases "a = s") (simp_all add: unat_diff_Suc)

lemma strncpy_pad_apply:
  "n < 2 ^ 32 \<Longrightarrow> strncpy_pad m s n a = (if inblk s n a then 0 else m a)"
proof (induction n arbitrary: m s)
  case (Suc n)
  then show ?case by (auto simp: inblk_Suc)
qed simp

lemma strncpy_copy_apply:
  assumes "n < 2 ^ 32" and "cstr m t xs" and "\<And>i. i \<le> length xs \<Longrightarrow> \<not> inblk s n (t + of_nat i)"
  shows "strncpy_copy m s t n a =
    (if inblk s n a then if unat (a - s) < length xs then xs ! unat (a - s) else 0 else m a)"
  using assms
proof (induction n arbitrary: m s t xs)
  case (Suc n)
  then have n: "n < 2 ^ 32" by simp
  show ?case
  proof (cases xs)
    case Nil
    with Suc.prems n show ?thesis by (auto simp: strncpy_pad_apply inblk_Suc)
  next
    case (Cons x xs')
    have out: "\<not> inblk s (Suc n) (t + 1 + of_nat i)" if "i \<le> length xs'" for i
      using Suc.prems(3) [of "Suc i"] that Cons by (simp add: algebra_simps)
    have "cstr (m(s := x)) (t + 1) xs' = cstr m (t + 1) xs'"
      by (rule cstr_cong) (use out n inblk_Suc in fastforce)
    then have tail: "cstr (m(s := x)) (t + 1) xs'" using Suc.prems(2) Cons by simp
    have out': "\<not> inblk (s + 1) n (t + 1 + of_nat i)" if "i \<le> length xs'" for i
      using out [OF that] inblk_Suc [OF n] by blast
    have "strncpy_copy (m(s := x)) (s + 1) (t + 1) n a =
      (if inblk (s + 1) n a then if unat (a - (s + 1)) < length xs' then xs' ! unat (a - (s + 1))
       else 0 else (m(s := x)) a)"
      by (rule Suc.IH [OF n tail out'])
    then show ?thesis
      using Suc.prems(2) Cons n not_inblk_succ [OF n, of s]
      by (cases "a = s") (simp_all add: unat_diff_Suc)
  qed
qed simp

theorem strncpy_apply:
  assumes "0 \<le> n" and "n < 2 ^ 31" and "cstr m t xs"
    and "\<And>i. i \<le> length xs \<Longrightarrow> \<not> inblk s (nat n) (t + of_nat i)"
  shows "strncpy m s t n a =
    (if inblk s (nat n) a then if unat (a - s) < length xs then xs ! unat (a - s) else 0 else m a)"
  unfolding strncpy_def
  by (rule strncpy_copy_apply [OF _ assms(3) assms(4)]) (use assms(1,2) in simp_all)

lemma safestrcpy_copy_cstr:
  assumes "Suc n < 2 ^ 32" and "cstr m t xs"
    and "\<And>i. i \<le> length xs \<Longrightarrow> \<not> inblk s (Suc n) (t + of_nat i)"
  shows "cstr (safestrcpy_copy m s t n) s (take n xs) \<and>
    (\<forall>a. \<not> inblk s (Suc n) a \<longrightarrow> safestrcpy_copy m s t n a = m a)"
  using assms
proof (induction n arbitrary: m s t xs)
  case 0
  then show ?case by auto
next
  case (Suc n)
  then have n: "n < 2 ^ 32" "Suc n < 2 ^ 32" by simp_all
  show ?case
  proof (cases xs)
    case Nil
    with Suc.prems n show ?thesis by (auto simp: inblk_Suc)
  next
    case (Cons x xs')
    define m' where "m' = safestrcpy_copy (m(s := x)) (s + 1) (t + 1) n"
    have out: "\<not> inblk s (Suc (Suc n)) (t + 1 + of_nat i)" if "i \<le> length xs'" for i
      using Suc.prems(3) [of "Suc i"] that Cons by (simp add: algebra_simps)
    have "cstr (m(s := x)) (t + 1) xs' = cstr m (t + 1) xs'"
      by (rule cstr_cong) (use out n inblk_Suc in fastforce)
    then have tail: "cstr (m(s := x)) (t + 1) xs'" using Suc.prems(2) Cons by simp
    have out': "\<not> inblk (s + 1) (Suc n) (t + 1 + of_nat i)" if "i \<le> length xs'" for i
      using out [OF that] inblk_Suc [OF n(2)] by blast
    have IH: "cstr m' (s + 1) (take n xs') \<and>
      (\<forall>a. \<not> inblk (s + 1) (Suc n) a \<longrightarrow> m' a = (m(s := x)) a)"
      unfolding m'_def by (rule Suc.IH [OF n(2) tail out'])
    have eq: "safestrcpy_copy m s t (Suc n) = m'"
      using Suc.prems(2) Cons by (simp add: m'_def)
    have "m' s = x" using IH not_inblk_succ [OF n(2), of s] by simp
    moreover have "m' a = m a" if "\<not> inblk s (Suc (Suc n)) a" for a
    proof -
      from that inblk_Suc [OF n(2)] have "a \<noteq> s" "\<not> inblk (s + 1) (Suc n) a" by blast+
      with IH show ?thesis by simp
    qed
    ultimately show ?thesis
      unfolding eq using IH Suc.prems(2) Cons by simp
  qed
qed

theorem safestrcpy_cstr:
  assumes n: "0 < n" "n < 2 ^ 31" and src: "cstr m t xs"
    and out: "\<And>i. i \<le> length xs \<Longrightarrow> \<not> inblk s (nat n) (t + of_nat i)"
  shows "cstr (safestrcpy m s t n) s (take (nat n - 1) xs)"
    and "\<not> inblk s (nat n) a \<Longrightarrow> safestrcpy m s t n a = m a"
proof -
  have k: "Suc (nat n - 1) = nat n" "Suc (nat n - 1) < 2 ^ 32" using n by simp_all
  have "cstr (safestrcpy_copy m s t (nat n - 1)) s (take (nat n - 1) xs) \<and>
    (\<forall>a. \<not> inblk s (Suc (nat n - 1)) a \<longrightarrow> safestrcpy_copy m s t (nat n - 1) a = m a)"
    by (rule safestrcpy_copy_cstr [OF k(2) src]) (unfold k(1), rule out)
  moreover have "safestrcpy m s t n = safestrcpy_copy m s t (nat n - 1)"
    using n by (simp add: safestrcpy_def)
  ultimately show "cstr (safestrcpy m s t n) s (take (nat n - 1) xs)"
    and "\<not> inblk s (nat n) a \<Longrightarrow> safestrcpy m s t n a = m a"
    unfolding k(1) by simp_all
qed

end
