(* ===== verification/Spinlock.thy ===== *)
theory Spinlock
  imports CString
begin

text \<open>
  The processors and \<open>spinlock.c\<close> (with \<open>mycpu\<close> of \<open>proc.c\<close>, which it calls). The record \<open>hw\<close>
  is the bottom layer of the kernel state; every later theory extends it, so the operations here
  apply to all later states unchanged. Operations run on one processor, the one whose local APIC
  id is in \<open>lapic\<close>; a spin on a lock held elsewhere is the result \<open>Spin\<close>. The last section
  interleaves any number of processors at the granularity of the atomic instructions.
\<close>

section \<open>State\<close>

record spinlock =
  lk_name :: string
  lk_locked :: u32
  lk_cpu :: "nat option"
  lk_pcs :: "u32 list"

record cpu =
  apicid :: u8
  ncli :: int
  intena :: u32
  cproc :: "nat option"

text \<open>
  \<open>lapic\<close> is what \<open>lapicid()\<close> reads on the executing processor, \<open>eflags\<close> the flags register of each
  processor, \<open>frame\<close> the address of the first argument of the running lock call (where
  \<open>getcallerpcs\<close> starts to walk the stack). Pointers to \<open>struct cpu\<close> and \<open>struct proc\<close> are indices
  into their arrays, the null pointer is \<open>None\<close>.
\<close>

record hw =
  mem :: memory
  lapic :: int
  eflags :: "int \<Rightarrow> u32"
  frame :: u32
  cpus :: "cpu list"
  ncpu :: int
  locks :: "lockid \<Rightarrow> spinlock"

definition readeflags :: "'a hw_scheme \<Rightarrow> u32" where
  "readeflags s = eflags s (lapic s)"

definition cli :: "'a hw_scheme \<Rightarrow> 'a hw_scheme" where
  "cli s = s\<lparr>eflags := (eflags s)(lapic s := readeflags s AND NOT FL_IF)\<rparr>"

definition sti :: "'a hw_scheme \<Rightarrow> 'a hw_scheme" where
  "sti s = s\<lparr>eflags := (eflags s)(lapic s := readeflags s OR FL_IF)\<rparr>"

section \<open>Operations\<close>

text \<open>\<open>mycpu\<close>: \<open>for (i = 0; i < ncpu; ++i) if (cpus[i].apicid == apicid) return &cpus[i]\<close>.\<close>

fun cpu_scan :: "cpu list \<Rightarrow> int \<Rightarrow> nat \<Rightarrow> nat \<Rightarrow> nat option" where
  "cpu_scan cs ident i 0 = None"
| "cpu_scan cs ident i (Suc n) =
     (if uint (apicid (cs ! i)) = ident then Some i else cpu_scan cs ident (Suc i) n)"

definition mycpu :: "'a hw_scheme \<Rightarrow> nat kres" where
  "mycpu s =
     (if readeflags s AND FL_IF \<noteq> 0
      then Inl (Panic (''mycpu called with interrupts enabled'' @ [CHR 0x0A]))
      else case cpu_scan (cpus s) (lapic s) 0 (nat (ncpu s)) of
        Some i \<Rightarrow> Inr i
      | None \<Rightarrow> Inl (Panic (''unknown apicid'' @ [CHR 0x0A])))"

definition initlock :: "lockid \<Rightarrow> string \<Rightarrow> 'a hw_scheme \<Rightarrow> 'a hw_scheme" where
  "initlock lk name s =
     s\<lparr>locks := (locks s)(lk := (locks s lk)\<lparr>lk_name := name, lk_locked := 0, lk_cpu := None\<rparr>)\<rparr>"

definition pushcli :: "'a hw_scheme \<Rightarrow> ('a hw_scheme) kres" where
  "pushcli s =
     (let eflags0 = readeflags s; s = cli s in
      bindE (mycpu s) (\<lambda>c.
      let s = (if ncli (cpus s ! c) = 0
               then s\<lparr>cpus := (cpus s)[c := (cpus s ! c)\<lparr>intena := eflags0 AND FL_IF\<rparr>]\<rparr> else s)
      in Inr (s\<lparr>cpus := (cpus s)[c := (cpus s ! c)\<lparr>ncli := ncli (cpus s ! c) + 1\<rparr>]\<rparr>)))"

definition popcli :: "'a hw_scheme \<Rightarrow> ('a hw_scheme) kres" where
  "popcli s =
     (if readeflags s AND FL_IF \<noteq> 0 then Inl (Panic ''popcli - interruptible'') else
      bindE (mycpu s) (\<lambda>c.
      let s = s\<lparr>cpus := (cpus s)[c := (cpus s ! c)\<lparr>ncli := ncli (cpus s ! c) - 1\<rparr>]\<rparr> in
      if ncli (cpus s ! c) < 0 then Inl (Panic ''popcli'')
      else if ncli (cpus s ! c) = 0 \<and> intena (cpus s ! c) \<noteq> 0 then Inr (sti s) else Inr s))"

definition holding :: "lockid \<Rightarrow> 'a hw_scheme \<Rightarrow> (bool \<times> 'a hw_scheme) kres" where
  "holding lk s =
     bindE (pushcli s) (\<lambda>s.
     bindE (if lk_locked (locks s lk) \<noteq> 0
            then bindE (mycpu s) (\<lambda>c. Inr (lk_cpu (locks s lk) = Some c)) else Inr False) (\<lambda>r.
     bindE (popcli s) (\<lambda>s. Inr (r, s))))"

fun pcs_walk :: "memory \<Rightarrow> u32 \<Rightarrow> nat \<Rightarrow> u32 list" where
  "pcs_walk m ebp 0 = []"
| "pcs_walk m ebp (Suc k) =
     (if ebp = 0 \<or> ebp < KERNBASE \<or> ebp = 0xffffffff then replicate (Suc k) 0
      else read32 m (ebp + 4) # pcs_walk m (read32 m ebp) k)"

definition getcallerpcs :: "memory \<Rightarrow> u32 \<Rightarrow> u32 list" where
  "getcallerpcs m v = pcs_walk m (v - 8) 10"

text \<open>
  The steps on the lock word and the owner field that other processors can see, one by one: the
  atomic \<open>xchg\<close>, the record of the owner, its removal, and the store that frees the lock.
\<close>

definition lk_xchg :: "spinlock \<Rightarrow> u32 \<times> spinlock" where
  "lk_xchg l = (lk_locked l, l\<lparr>lk_locked := 1\<rparr>)"

definition lk_take :: "nat \<Rightarrow> u32 list \<Rightarrow> spinlock \<Rightarrow> spinlock" where
  "lk_take c pcs l = l\<lparr>lk_cpu := Some c, lk_pcs := pcs\<rparr>"

definition lk_drop :: "spinlock \<Rightarrow> spinlock" where
  "lk_drop l = l\<lparr>lk_pcs := (lk_pcs l)[0 := 0], lk_cpu := None\<rparr>"

definition lk_store0 :: "spinlock \<Rightarrow> spinlock" where
  "lk_store0 l = l\<lparr>lk_locked := 0\<rparr>"

definition acquire :: "lockid \<Rightarrow> 'a hw_scheme \<Rightarrow> ('a hw_scheme) kres" where
  "acquire lk s =
     bindE (pushcli s) (\<lambda>s.
     bindE (holding lk s) (\<lambda>(r, s).
     if r then Inl (Panic ''acquire'') else
     case lk_xchg (locks s lk) of (old, l) \<Rightarrow>
     if old \<noteq> 0 then Inl (Spin lk) else
     bindE (mycpu s) (\<lambda>c.
     Inr (s\<lparr>locks := (locks s)(lk := lk_take c (getcallerpcs (mem s) (frame s)) l)\<rparr>))))"

definition release :: "lockid \<Rightarrow> 'a hw_scheme \<Rightarrow> ('a hw_scheme) kres" where
  "release lk s =
     bindE (holding lk s) (\<lambda>(r, s).
     if \<not> r then Inl (Panic ''release'') else
     popcli (s\<lparr>locks := (locks s)(lk := lk_store0 (lk_drop (locks s lk)))\<rparr>))"

section \<open>Interrupt flag and current processor\<close>

lemma IF_cli [simp]: "(x AND NOT FL_IF) AND FL_IF = 0"
  by (simp add: and.assoc)

lemma IF_sti [simp]: "(x OR FL_IF) AND FL_IF = FL_IF"
  by (rule bit_eqI) (auto simp: bit_simps)

lemma IF_nonzero [simp]: "FL_IF \<noteq> 0"
  by (simp add: FL_IF_def)

lemma IF_off_cli [simp]: "x AND FL_IF = 0 \<Longrightarrow> x AND NOT FL_IF = x"
  by (rule bit_eqI) (metis bit_and_iff bit_not_iff bit_0_eq bot_apply bot_bool_def impossible_bit)

text \<open>The processor scan looks at the APIC ids only.\<close>

lemma cpu_scan_cong:
  "map apicid cs = map apicid cs' \<Longrightarrow> i + n \<le> length cs \<Longrightarrow> cpu_scan cs ident i n = cpu_scan cs' ident i n"
proof (induction n arbitrary: i)
  case (Suc n)
  from Suc.prems have "i < length cs" "length cs' = length cs"
    by (auto dest: map_eq_imp_length_eq)
  with Suc.prems(1) have "apicid (cs ! i) = apicid (cs' ! i)"
    by (metis nth_map)
  with Suc show ?case by simp
qed simp

lemma cpu_scan_bound: "cpu_scan cs ident i n = Some c \<Longrightarrow> i \<le> c \<and> c < i + n"
  by (induction n arbitrary: i) (fastforce split: if_splits)+

text \<open>
  \<open>crit L s\<close>: the executing processor is known, it has \<open>pushcli\<close>ed once per lock of \<open>L\<close>, it holds
  exactly the locks of \<open>L\<close>, and no other lock is held. It is a predicate on the fields of \<open>hw\<close>
  alone, so updates of the fields of later layers leave it.
\<close>

definition critP :: "lockid list \<Rightarrow> int \<Rightarrow> (int \<Rightarrow> u32) \<Rightarrow> cpu list \<Rightarrow> int \<Rightarrow> (lockid \<Rightarrow> spinlock) \<Rightarrow> bool" where
  "critP L ident ef cs n lks \<longleftrightarrow> nat n \<le> length cs \<and> distinct L \<and>
     (\<exists>c. cpu_scan cs ident 0 (nat n) = Some c \<and> ncli (cs ! c) = int (length L) \<and>
       (\<forall>lk \<in> set L. lk_locked (lks lk) = 1 \<and> lk_cpu (lks lk) = Some c)) \<and>
     (\<forall>lk. lk \<notin> set L \<longrightarrow> lk_locked (lks lk) = 0) \<and>
     (L \<noteq> [] \<longrightarrow> ef ident AND FL_IF = 0)"

abbreviation crit :: "lockid list \<Rightarrow> 'a hw_scheme \<Rightarrow> bool" where
  "crit L s \<equiv> critP L (lapic s) (eflags s) (cpus s) (ncpu s) (locks s)"

definition curcpu :: "'a hw_scheme \<Rightarrow> nat" where
  "curcpu s = the (cpu_scan (cpus s) (lapic s) 0 (nat (ncpu s)))"

definition curproc :: "'a hw_scheme \<Rightarrow> nat option" where
  "curproc s = cproc (cpus s ! curcpu s)"

text \<open>The states after a successful \<open>acquire\<close> and \<open>release\<close>.\<close>

definition pushed :: "'a hw_scheme \<Rightarrow> 'a hw_scheme" where
  "pushed s = (cli s)\<lparr>cpus := (cpus s)[curcpu s := (cpus s ! curcpu s)\<lparr>
     intena := (if ncli (cpus s ! curcpu s) = 0 then readeflags s AND FL_IF
                else intena (cpus s ! curcpu s)),
     ncli := ncli (cpus s ! curcpu s) + 1\<rparr>]\<rparr>"

definition popped :: "'a hw_scheme \<Rightarrow> 'a hw_scheme" where
  "popped s =
     (let s' = s\<lparr>cpus := (cpus s)[curcpu s := (cpus s ! curcpu s)\<lparr>ncli := ncli (cpus s ! curcpu s) - 1\<rparr>]\<rparr>
      in if ncli (cpus s ! curcpu s) = 1 \<and> intena (cpus s ! curcpu s) \<noteq> 0 then sti s' else s')"

definition acq :: "lockid \<Rightarrow> 'a hw_scheme \<Rightarrow> 'a hw_scheme" where
  "acq lk s = (pushed s)\<lparr>locks := (locks s)(lk :=
     lk_take (curcpu s) (getcallerpcs (mem s) (frame s)) ((locks s lk)\<lparr>lk_locked := 1\<rparr>))\<rparr>"

definition rel :: "lockid \<Rightarrow> 'a hw_scheme \<Rightarrow> 'a hw_scheme" where
  "rel lk s = popped (s\<lparr>locks := (locks s)(lk := lk_store0 (lk_drop (locks s lk)))\<rparr>)"

lemma critD:
  assumes "crit L s"
  shows "cpu_scan (cpus s) (lapic s) 0 (nat (ncpu s)) = Some (curcpu s)"
    and "curcpu s < length (cpus s)" and "ncli (cpus s ! curcpu s) = int (length L)"
    and "lk \<in> set L \<Longrightarrow> lk_locked (locks s lk) = 1 \<and> lk_cpu (locks s lk) = Some (curcpu s)"
    and "lk \<notin> set L \<Longrightarrow> lk_locked (locks s lk) = 0"
    and "L \<noteq> [] \<Longrightarrow> readeflags s AND FL_IF = 0" and "distinct L"
proof -
  from assms obtain c where c: "cpu_scan (cpus s) (lapic s) 0 (nat (ncpu s)) = Some c"
    "ncli (cpus s ! c) = int (length L)" "nat (ncpu s) \<le> length (cpus s)"
    "\<forall>lk \<in> set L. lk_locked (locks s lk) = 1 \<and> lk_cpu (locks s lk) = Some c"
    by (auto simp: critP_def)
  have cc: "curcpu s = c" using c(1) by (simp add: curcpu_def)
  show "cpu_scan (cpus s) (lapic s) 0 (nat (ncpu s)) = Some (curcpu s)"
    and "curcpu s < length (cpus s)" and "ncli (cpus s ! curcpu s) = int (length L)"
    and "lk \<in> set L \<Longrightarrow> lk_locked (locks s lk) = 1 \<and> lk_cpu (locks s lk) = Some (curcpu s)"
    using c cpu_scan_bound [OF c(1)] cc by simp_all
  show "lk \<notin> set L \<Longrightarrow> lk_locked (locks s lk) = 0"
    and "L \<noteq> [] \<Longrightarrow> readeflags s AND FL_IF = 0" and "distinct L"
    using assms by (simp_all add: critP_def readeflags_def)
qed

lemma cpu_scan_update:
  assumes "crit L s" and "apicid x = apicid (cpus s ! curcpu s)"
  shows "cpu_scan ((cpus s)[curcpu s := x]) (lapic s) 0 (nat (ncpu s)) = Some (curcpu s)"
proof -
  have "map apicid ((cpus s)[curcpu s := x]) = map apicid (cpus s)"
    by (metis assms critD(2) map_update list_update_id nth_map length_map)
  then show ?thesis
    using assms(1) critD(1) [OF assms(1)] cpu_scan_cong
    by (metis add_0 critP_def length_list_update)
qed

lemma mycpu_ok:
  assumes "crit L s" and "readeflags s AND FL_IF = 0"
  shows "mycpu s = Inr (curcpu s)"
  using assms(2) critD(1) [OF assms(1)] by (simp add: mycpu_def)

lemma curcpu_fields [simp]:
  "lapic (cli s) = lapic s" "ncpu (cli s) = ncpu s" "cpus (cli s) = cpus s" "locks (cli s) = locks s"
  "mem (cli s) = mem s" "frame (cli s) = frame s" "readeflags (cli s) = readeflags s AND NOT FL_IF"
  "lapic (sti s) = lapic s" "ncpu (sti s) = ncpu s" "cpus (sti s) = cpus s" "locks (sti s) = locks s"
  "mem (sti s) = mem s" "frame (sti s) = frame s" "readeflags (sti s) = readeflags s OR FL_IF"
  by (simp_all add: cli_def sti_def readeflags_def)

lemma pushcli_ok:
  assumes "crit L s"
  shows "pushcli s = Inr (pushed s)"
proof -
  have "mycpu (cli s) = Inr (curcpu s)"
    using critD(1) [OF assms] by (simp add: mycpu_def)
  then show ?thesis
    using critD(2) [OF assms] by (simp add: pushcli_def pushed_def Let_def cli_def)
qed

lemma popcli_ok:
  assumes "mycpu s = Inr (curcpu s)" and "readeflags s AND FL_IF = 0"
    and "curcpu s < length (cpus s)" and "0 < ncli (cpus s ! curcpu s)"
  shows "popcli s = Inr (popped s)"
  using assms by (simp add: popcli_def popped_def Let_def)

lemma pushed_fields [simp]:
  "lapic (pushed s) = lapic s" "ncpu (pushed s) = ncpu s" "locks (pushed s) = locks s"
  "mem (pushed s) = mem s" "frame (pushed s) = frame s"
  "readeflags (pushed s) = readeflags s AND NOT FL_IF"
  by (simp_all add: pushed_def readeflags_def cli_def)

lemma popped_fields [simp]:
  "lapic (popped s) = lapic s" "ncpu (popped s) = ncpu s" "locks (popped s) = locks s"
  "mem (popped s) = mem s" "frame (popped s) = frame s"
  by (simp_all add: popped_def Let_def)

lemma pushed_scan:
  assumes "crit L s"
  shows "cpu_scan (cpus (pushed s)) (lapic s) 0 (nat (ncpu s)) = Some (curcpu s)"
  using cpu_scan_update [OF assms] by (simp add: pushed_def cli_def)

lemma mycpu_pushed: "crit L s \<Longrightarrow> mycpu (pushed s) = Inr (curcpu s)"
  by (simp add: mycpu_def pushed_scan)

lemma popcli_pushed:
  assumes "crit L s" and "L \<noteq> []"
  shows "popcli (pushed s) = Inr s"
proof -
  have e: "cli s = s" using critD(6) [OF assms] by (simp add: cli_def readeflags_def)
  have n: "ncli (cpus s ! curcpu s) = int (length L)" "0 < length L"
    using critD(3) [OF assms(1)] assms(2) by simp_all
  have triv: "(cpus s ! curcpu s)\<lparr>ncli := int (length L)\<rparr> = cpus s ! curcpu s"
    by (simp flip: n(1))
  have p: "pushed s =
    s\<lparr>cpus := (cpus s)[curcpu s := (cpus s ! curcpu s)\<lparr>ncli := int (length L) + 1\<rparr>]\<rparr>"
    using n by (simp add: pushed_def e)
  show ?thesis
    using critD(2) [OF assms(1)] mycpu_pushed [OF assms(1)] n critD(6) [OF assms]
    by (simp add: popcli_def p Let_def readeflags_def triv)
qed

lemma holding_ok:
  assumes "crit L s" and "L \<noteq> []"
  shows "holding lk s = Inr (lk \<in> set L, s)"
  using pushcli_ok [OF assms(1)] mycpu_pushed [OF assms(1)] popcli_pushed [OF assms]
    critD(4,5) [OF assms(1), of lk]
  by (cases "lk \<in> set L") (simp_all add: holding_def)

text \<open>Two pushes: the one of \<open>acquire\<close> and the one of \<open>holding\<close> within it.\<close>

lemma holding_pushed_held:
  assumes "crit L s"
  shows "holding lk (pushed s) = Inr (lk \<in> set L, pushed s)"
proof -
  define s' where "s' = pushed s"
  have c: "curcpu s' = curcpu s"
    using pushed_scan [OF assms] by (simp add: curcpu_def s'_def)
  have IF: "readeflags s' AND FL_IF = 0" by (simp add: s'_def)
  have e: "cli s' = s'" using IF by (simp add: cli_def readeflags_def)
  have n: "ncli (cpus s' ! curcpu s) = int (length L) + 1"
    using critD(2,3) [OF assms] by (simp add: s'_def pushed_def)
  have len: "curcpu s < length (cpus s')"
    using critD(2) [OF assms] by (simp add: s'_def pushed_def)
  have my: "mycpu s' = Inr (curcpu s)"
    using mycpu_pushed [OF assms] by (simp add: s'_def)
  define t where "t = s'\<lparr>cpus := (cpus s')[curcpu s := (cpus s' ! curcpu s)\<lparr>ncli := 2 + int (length L)\<rparr>]\<rparr>"
  have push: "pushcli s' = Inr t"
    using my n len by (simp add: pushcli_def Let_def e t_def)
  have "cpu_scan (cpus t) (lapic t) 0 (nat (ncpu t)) = cpu_scan (cpus s') (lapic s') 0 (nat (ncpu s'))"
  proof -
    have "map apicid (cpus t) = map apicid (cpus s')"
      by (simp add: t_def map_update list_update_same_conv len)
    moreover have "nat (ncpu s) \<le> length (cpus t)"
      using assms by (simp add: critP_def t_def s'_def pushed_def)
    ultimately show ?thesis
      using cpu_scan_cong [of "cpus t" "cpus s'" 0 "nat (ncpu s)"] by (simp add: t_def s'_def)
  qed
  then have my_t: "mycpu t = Inr (curcpu s)"
    using my IF by (simp add: mycpu_def t_def readeflags_def)
  have triv: "(cpus s' ! curcpu s)\<lparr>ncli := 1 + int (length L)\<rparr> = cpus s' ! curcpu s"
    using n by (simp add: add.commute)
  have "popcli t = Inr s'"
    using my_t IF len n by (simp add: popcli_def Let_def readeflags_def t_def triv)
  moreover have "lk_locked (locks t lk) \<noteq> 0 \<longleftrightarrow> lk \<in> set L"
    "lk \<in> set L \<Longrightarrow> lk_cpu (locks t lk) = Some (curcpu s)"
    using critD(4,5) [OF assms, of lk] by (auto simp: t_def s'_def)
  ultimately show ?thesis
    using push my_t by (cases "lk \<in> set L") (simp_all add: holding_def s'_def)
qed

lemma acquire_ok:
  assumes "crit L s" and "lk \<notin> set L"
  shows "acquire lk s = Inr (acq lk s)"
  using pushcli_ok [OF assms(1)] holding_pushed_held [OF assms(1), of lk] mycpu_pushed [OF assms(1)]
    critD(5) [OF assms] assms(2)
  by (simp add: acquire_def lk_xchg_def acq_def)

lemma acq_fields [simp]:
  "mem (acq lk s) = mem s" "lapic (acq lk s) = lapic s" "frame (acq lk s) = frame s"
  "ncpu (acq lk s) = ncpu s"
  by (simp_all add: acq_def)

lemma rel_fields [simp]:
  "mem (rel lk s) = mem s" "lapic (rel lk s) = lapic s" "frame (rel lk s) = frame s"
  "ncpu (rel lk s) = ncpu s"
  by (simp_all add: rel_def)

lemma curcpu_cong:
  "cpus s = cpus t \<Longrightarrow> lapic s = lapic t \<Longrightarrow> ncpu s = ncpu t \<Longrightarrow> curcpu s = curcpu t"
  by (simp add: curcpu_def)

lemma curcpu_acq [simp]: "crit L s \<Longrightarrow> curcpu (acq lk s) = curcpu s"
  using pushed_scan [of L s] by (simp add: curcpu_def acq_def)

lemma curproc_acq [simp]:
  assumes "crit L s"
  shows "curproc (acq lk s) = curproc s"
  using critD(2) [OF assms] curcpu_acq [OF assms]
  by (simp add: curproc_def) (simp add: acq_def pushed_def)

lemma crit_acq:
  assumes "crit L s" and "lk \<notin> set L"
  shows "crit (lk # L) (acq lk s)"
proof -
  have "cpu_scan (cpus (acq lk s)) (lapic s) 0 (nat (ncpu s)) = Some (curcpu s)"
    using pushed_scan [OF assms(1)] by (simp add: acq_def)
  moreover have "ncli (cpus (acq lk s) ! curcpu s) = int (length (lk # L))"
    using critD(2,3) [OF assms(1)] by (simp add: acq_def pushed_def)
  moreover have "length (cpus (acq lk s)) = length (cpus s)"
    by (simp add: acq_def pushed_def)
  moreover have "eflags (acq lk s) (lapic s) AND FL_IF = 0"
    by (simp add: acq_def pushed_def cli_def)
  ultimately show ?thesis
    using assms critD(4,5,7) [OF assms(1)]
    by (auto simp: critP_def acq_def lk_take_def)
qed

lemma release_ok:
  assumes "crit L s" and "lk \<in> set L"
  shows "release lk s = Inr (rel lk s)"
proof -
  define s1 where "s1 = s\<lparr>locks := (locks s)(lk := lk_store0 (lk_drop (locks s lk)))\<rparr>"
  have ne: "L \<noteq> []" using assms(2) by auto
  have "popcli s1 = Inr (popped s1)"
  proof (rule popcli_ok)
    have "curcpu s1 = curcpu s" by (simp add: curcpu_def s1_def)
    then show "mycpu s1 = Inr (curcpu s1)" "curcpu s1 < length (cpus s1)"
      "0 < ncli (cpus s1 ! curcpu s1)"
      using mycpu_ok [OF assms(1)] critD(6) [OF assms(1) ne] critD(2,3) [OF assms(1)] ne
      by (simp_all add: s1_def mycpu_def readeflags_def)
    show "readeflags s1 AND FL_IF = 0"
      using critD(6) [OF assms(1) ne] by (simp add: s1_def readeflags_def)
  qed
  then show ?thesis
    using holding_ok [OF assms(1) ne, of lk] assms(2) by (simp add: release_def rel_def s1_def)
qed

lemma rel_scan:
  assumes "crit L s"
  shows "cpu_scan (cpus (rel lk s)) (lapic s) 0 (nat (ncpu s)) = Some (curcpu s)"
  using cpu_scan_update [OF assms]
  by (simp add: rel_def popped_def Let_def curcpu_def)

lemma curcpu_rel [simp]: "crit L s \<Longrightarrow> curcpu (rel lk s) = curcpu s"
  using rel_scan [of L s lk] by (simp add: curcpu_def)

lemma curproc_rel [simp]:
  assumes "crit L s"
  shows "curproc (rel lk s) = curproc s"
  using critD(2) [OF assms] curcpu_rel [OF assms]
  by (simp add: curproc_def) (simp add: rel_def popped_def Let_def curcpu_def)

lemma crit_rel:
  assumes "crit L s" and "lk \<in> set L"
  shows "crit (remove1 lk L) (rel lk s)"
proof -
  have ne: "L \<noteq> []" using assms(2) by auto
  have c: "curcpu (s\<lparr>locks := x\<rparr>) = curcpu s" for x by (simp add: curcpu_def)
  have "int (length (remove1 lk L)) = int (length L) - 1"
    using length_pos_if_in_set [OF assms(2)] assms(2) by (simp add: length_remove1 of_nat_diff Suc_le_eq)
  then have "ncli (cpus (rel lk s) ! curcpu s) = int (length (remove1 lk L))"
    using critD(2,3) [OF assms(1)] by (simp add: rel_def popped_def Let_def c)
  moreover have "length (cpus (rel lk s)) = length (cpus s)"
    by (simp add: rel_def popped_def Let_def)
  moreover have "eflags (rel lk s) (lapic s) AND FL_IF = 0" if "remove1 lk L \<noteq> []"
  proof -
    have "length L \<noteq> 1" using that assms(2) by (cases L) auto
    then have "ncli (cpus s ! curcpu s) \<noteq> 1" using critD(3) [OF assms(1)] by simp
    then show ?thesis
      using critD(6) [OF assms(1) ne] by (simp add: rel_def popped_def Let_def c readeflags_def)
  qed
  ultimately show ?thesis
    using assms rel_scan [OF assms(1), of lk] critD(4,5,7) [OF assms(1)]
    by (auto simp: critP_def rel_def lk_store0_def lk_drop_def)
qed


section \<open>Matched pairs of pushcli and popcli\<close>

text \<open>\<open>n\<close> calls in a row of an operation on the state.\<close>

fun times :: "nat \<Rightarrow> ('s \<Rightarrow> 's kres) \<Rightarrow> 's \<Rightarrow> 's kres" where
  "times 0 f s = Inr s"
| "times (Suc n) f s = bindE (f s) (times n f)"

text \<open>The state after \<open>n > 0\<close> calls of \<open>pushcli\<close>.\<close>

definition pushed_n :: "nat \<Rightarrow> nat \<Rightarrow> 'a hw_scheme \<Rightarrow> 'a hw_scheme" where
  "pushed_n n c s = s\<lparr>eflags := (eflags s)(lapic s := readeflags s AND NOT FL_IF),
     cpus := (cpus s)[c := (cpus s ! c)\<lparr>intena := readeflags s AND FL_IF, ncli := int n\<rparr>]\<rparr>"

lemma bit_FL_IF: "bit FL_IF n \<longleftrightarrow> n = 9"
proof -
  have "FL_IF = 2 ^ 9" by (simp add: FL_IF_def)
  then have "bit FL_IF n \<longleftrightarrow> bit ((2 :: u32) ^ 9) n" by (simp only:)
  also have "\<dots> \<longleftrightarrow> n = 9" by (simp only: bit_exp_iff) (auto simp: possible_bit_word)
  finally show ?thesis .
qed

lemma IF_split: "x AND NOT FL_IF = x \<or> (x AND NOT FL_IF) OR FL_IF = x"
proof (cases "bit x 9")
  case True
  then have "(x AND NOT FL_IF) OR FL_IF = x"
    by (intro bit_word_eqI) (auto simp: bit_simps bit_FL_IF)
  then show ?thesis ..
next
  case False
  then have "x AND NOT FL_IF = x"
    by (intro bit_word_eqI) (auto simp: bit_simps bit_FL_IF)
  then show ?thesis ..
qed

lemma IF_on_restore: "x AND FL_IF \<noteq> 0 \<Longrightarrow> (x AND NOT FL_IF) OR FL_IF = x"
  using IF_split [of x] IF_cli [of x] by metis

lemma pushed_n_scan:
  assumes "nat (ncpu s) \<le> length (cpus s)"
    and "cpu_scan (cpus s) (lapic s) 0 (nat (ncpu s)) = Some c"
  shows "mycpu (pushed_n n c s) = Inr c"
proof -
  have c: "c < length (cpus s)" using cpu_scan_bound [OF assms(2)] assms(1) by simp
  have "map apicid (cpus (pushed_n n c s)) = map apicid (cpus s)"
    by (simp add: pushed_n_def map_update list_update_same_conv c)
  then have "cpu_scan (cpus (pushed_n n c s)) (lapic s) 0 (nat (ncpu s)) = Some c"
    using cpu_scan_cong assms by (metis add_0 length_map)
  then show ?thesis by (simp add: mycpu_def pushed_n_def readeflags_def)
qed

lemma pushcli_n:
  assumes "nat (ncpu s) \<le> length (cpus s)"
    and "cpu_scan (cpus s) (lapic s) 0 (nat (ncpu s)) = Some c" and "ncli (cpus s ! c) = 0"
  shows "pushcli s = Inr (pushed_n 1 c s)"
    and "0 < n \<Longrightarrow> pushcli (pushed_n n c s) = Inr (pushed_n (Suc n) c s)"
    and "0 < n \<Longrightarrow> popcli (pushed_n (Suc n) c s) = Inr (pushed_n n c s)"
    and "popcli (pushed_n 1 c s) =
      Inr (s\<lparr>cpus := (cpus s)[c := (cpus s ! c)\<lparr>intena := readeflags s AND FL_IF, ncli := 0\<rparr>]\<rparr>)"
proof -
  have c: "c < length (cpus s)" using cpu_scan_bound [OF assms(2)] assms(1) by simp
  have my: "mycpu (cli s) = Inr c" using assms(2) by (simp add: mycpu_def)
  then show "pushcli s = Inr (pushed_n 1 c s)"
    using c assms(3) by (simp add: pushcli_def Let_def pushed_n_def cli_def)
  have e: "cli (pushed_n n c s) = pushed_n n c s" for n
    by (simp add: cli_def pushed_n_def readeflags_def)
  note my_n = pushed_n_scan [OF assms(1,2)]
  show "pushcli (pushed_n n c s) = Inr (pushed_n (Suc n) c s)" if "0 < n"
    using my_n [of n] c that by (simp add: pushcli_def Let_def e) (simp add: pushed_n_def add.commute)
  show "popcli (pushed_n (Suc n) c s) = Inr (pushed_n n c s)" if "0 < n"
    using my_n [of "Suc n"] c that
    by (simp add: popcli_def Let_def) (simp add: pushed_n_def readeflags_def)
  show "popcli (pushed_n 1 c s) =
      Inr (s\<lparr>cpus := (cpus s)[c := (cpus s ! c)\<lparr>intena := readeflags s AND FL_IF, ncli := 0\<rparr>]\<rparr>)"
    using my_n [of 1] c assms(3) IF_on_restore [of "readeflags s"]
    by (simp add: popcli_def Let_def) (auto simp: pushed_n_def readeflags_def sti_def)
qed

lemma times_pushcli:
  assumes "nat (ncpu s) \<le> length (cpus s)"
    and "cpu_scan (cpus s) (lapic s) 0 (nat (ncpu s)) = Some c" and "ncli (cpus s ! c) = 0"
  shows "times (Suc n) pushcli s = Inr (pushed_n (Suc n) c s)"
    and "times (Suc n) popcli (pushed_n (Suc n) c s) =
      Inr (s\<lparr>cpus := (cpus s)[c := (cpus s ! c)\<lparr>intena := readeflags s AND FL_IF, ncli := 0\<rparr>]\<rparr>)"
proof -
  note step = pushcli_n [OF assms]
  have "times k pushcli (pushed_n (Suc m) c s) = Inr (pushed_n (Suc m + k) c s)" for k m
    by (induction k arbitrary: m) (simp_all add: step(2))
  from this [of n 0] show "times (Suc n) pushcli s = Inr (pushed_n (Suc n) c s)"
    using step(1) by simp
  show "times (Suc n) popcli (pushed_n (Suc n) c s) =
      Inr (s\<lparr>cpus := (cpus s)[c := (cpus s ! c)\<lparr>intena := readeflags s AND FL_IF, ncli := 0\<rparr>]\<rparr>)"
    by (induction n) (use step(3,4) in simp_all)
qed

section \<open>Critical sections\<close>

text \<open>
  What the rest of the kernel relies on: with the locks of \<open>L\<close> held, another lock can be taken,
  a held lock can be given back, and neither touches the part of the state the caller looks at
  (\<open>view\<close>). Then a body that works under the lock works between \<open>acquire\<close> and \<open>release\<close>.
\<close>

locale spin_api =
  fixes acquire_op :: "'l \<Rightarrow> 's \<Rightarrow> 's kres" and release_op :: "'l \<Rightarrow> 's \<Rightarrow> 's kres"
    and held :: "'l list \<Rightarrow> 's \<Rightarrow> bool" and view :: "'s \<Rightarrow> 'v"
  assumes acquire_law: "held L s \<Longrightarrow> lk \<notin> set L \<Longrightarrow>
      \<exists>s'. acquire_op lk s = Inr s' \<and> held (lk # L) s' \<and> view s' = view s"
    and release_law: "held L s \<Longrightarrow> lk \<in> set L \<Longrightarrow>
      \<exists>s'. release_op lk s = Inr s' \<and> held (remove1 lk L) s' \<and> view s' = view s"
begin

lemma bracket:
  assumes "held L s" and "lk \<notin> set L"
    and body: "\<And>s1. held (lk # L) s1 \<Longrightarrow> view s1 = view s \<Longrightarrow>
      \<exists>r s2. body s1 = Inr (r, s2) \<and> held (lk # L) s2 \<and> Q r (view s2)"
  shows "\<exists>r s3. bindE (acquire_op lk s) (\<lambda>s. bindE (body s) (\<lambda>(r, s).
      bindE (release_op lk s) (\<lambda>s. Inr (r, s)))) = Inr (r, s3) \<and> held L s3 \<and> Q r (view s3)"
proof -
  obtain s1 where s1: "acquire_op lk s = Inr s1" "held (lk # L) s1" "view s1 = view s"
    using acquire_law [OF assms(1,2)] by blast
  obtain r s2 where s2: "body s1 = Inr (r, s2)" "held (lk # L) s2" "Q r (view s2)"
    using body [OF s1(2,3)] by blast
  obtain s3 where "release_op lk s2 = Inr s3" "held (remove1 lk (lk # L)) s3" "view s3 = view s2"
    using release_law [OF s2(2), of lk] by auto
  with s1 s2 show ?thesis by auto
qed

end

lemma more_acq [simp]: "hw.more (acq lk s) = hw.more s"
  by (simp add: acq_def pushed_def cli_def)

lemma more_rel [simp]: "hw.more (rel lk s) = hw.more s"
  by (simp add: rel_def popped_def Let_def sti_def)

interpretation spin: spin_api acquire release crit "\<lambda>s. (mem s, curproc s, hw.more s)"
proof unfold_locales
  fix L and s :: "'a hw_scheme" and lk
  assume "crit L s" "lk \<notin> set L"
  then show "\<exists>s'. acquire lk s = Inr s' \<and> crit (lk # L) s' \<and>
      (mem s', curproc s', hw.more s') = (mem s, curproc s, hw.more s)"
    using acquire_ok crit_acq by fastforce
next
  fix L and s :: "'a hw_scheme" and lk
  assume "crit L s" "lk \<in> set L"
  then show "\<exists>s'. release lk s = Inr s' \<and> crit (remove1 lk L) s' \<and>
      (mem s', curproc s', hw.more s') = (mem s, curproc s, hw.more s)"
    using release_ok crit_rel by fastforce
qed

lemma eflags_rel_acq:
  assumes "crit L s" and "lk \<notin> set L"
  shows "eflags (rel lk (acq lk s)) = eflags s"
proof -
  define t where "t = (acq lk s)\<lparr>locks := (locks (acq lk s))(lk := lk_store0 (lk_drop (locks (acq lk s) lk)))\<rparr>"
  have c: "curcpu t = curcpu s"
    using curcpu_acq [OF assms(1), of lk] by (simp add: t_def curcpu_def)
  have e: "eflags t = (eflags s)(lapic s := readeflags s AND NOT FL_IF)"
    by (simp add: t_def acq_def pushed_def cli_def)
  have cpu: "cpus t ! curcpu s = (cpus s ! curcpu s)\<lparr>
     intena := (if L = [] then readeflags s AND FL_IF else intena (cpus s ! curcpu s)),
     ncli := int (length L) + 1\<rparr>"
    using critD(2,3) [OF assms(1)] by (simp add: t_def acq_def pushed_def)
  have lap: "lapic t = lapic s" by (simp add: t_def)
  have r: "rel lk (acq lk s) = popped t" by (simp add: rel_def t_def)
  show ?thesis
  proof (cases "L = [] \<and> readeflags s AND FL_IF \<noteq> 0")
    case True
    then show ?thesis
      using IF_on_restore [of "readeflags s"]
      by (simp add: r popped_def Let_def c cpu sti_def lap e readeflags_def)
  next
    case False
    then have "readeflags s AND FL_IF = 0"
      using critD(6) [OF assms(1)] by blast
    then show ?thesis
      using False by (simp add: r popped_def Let_def c cpu e readeflags_def)
  qed
qed

text \<open>
  C1: A lock that is free can be acquired: the processor then holds it on top of what it held, a
  second \<open>acquire\<close> panics instead of deadlocking, and \<open>release\<close> gives back exactly that lock with
  the interrupt flag as it was before. Releasing a lock that is not held panics.
\<close>

theorem acquire_release:
  assumes "crit L s" and "lk \<notin> set L"
  shows "\<exists>s1 s2. acquire lk s = Inr s1 \<and> crit (lk # L) s1 \<and> acquire lk s1 = Inl (Panic ''acquire'') \<and>
    release lk s1 = Inr s2 \<and> crit L s2 \<and> eflags s2 = eflags s \<and>
    (L \<noteq> [] \<longrightarrow> release lk s = Inl (Panic ''release''))"
proof -
  have c1: "crit (lk # L) (acq lk s)" by (rule crit_acq [OF assms])
  have "acquire lk (acq lk s) = Inl (Panic ''acquire'')"
  proof -
    have "holding lk (pushed (acq lk s)) = Inr (True, pushed (acq lk s))"
      using holding_pushed_held [OF c1, of lk] by simp
    then show ?thesis using pushcli_ok [OF c1] by (simp add: acquire_def)
  qed
  moreover have "L \<noteq> [] \<longrightarrow> release lk s = Inl (Panic ''release'')"
    using holding_ok [OF assms(1), of lk] assms(2) by (simp add: release_def)
  ultimately show ?thesis
    using acquire_ok [OF assms] c1 release_ok [OF c1, of lk] crit_rel [OF c1, of lk]
      eflags_rel_acq [OF assms] by fastforce
qed


section \<open>Mutual exclusion across processors\<close>

text \<open>
  Any number of processors run \<open>acquire\<close> and \<open>release\<close> on one lock, interleaved between the steps
  other processors can observe. \<open>Outside\<close>: not holding and not trying; \<open>Spinning\<close>: in the \<open>xchg\<close>
  loop; \<open>Taken\<close>: the \<open>xchg\<close> returned 0 but the owner is not recorded yet; \<open>Inside\<close>: \<open>acquire\<close> has
  returned; \<open>Leaving\<close>: \<open>release\<close> has cleared the owner but not yet stored 0.
\<close>

datatype lkpc = Outside | Spinning | Taken | Inside | Leaving

record lksys =
  lkobj :: spinlock
  lkpcs :: "nat \<Rightarrow> lkpc"

inductive lk_step :: "lksys \<Rightarrow> lksys \<Rightarrow> bool" where
  enter: "lkpcs s c = Outside \<Longrightarrow> lk_step s (s\<lparr>lkpcs := (lkpcs s)(c := Spinning)\<rparr>)"
| xchg: "lkpcs s c = Spinning \<Longrightarrow> lk_xchg (lkobj s) = (old, l) \<Longrightarrow>
    lk_step s (s\<lparr>lkobj := l, lkpcs := (lkpcs s)(c := if old \<noteq> 0 then Spinning else Taken)\<rparr>)"
| take: "lkpcs s c = Taken \<Longrightarrow>
    lk_step s (s\<lparr>lkobj := lk_take c pcs (lkobj s), lkpcs := (lkpcs s)(c := Inside)\<rparr>)"
| drop: "lkpcs s c = Inside \<Longrightarrow>
    lk_step s (s\<lparr>lkobj := lk_drop (lkobj s), lkpcs := (lkpcs s)(c := Leaving)\<rparr>)"
| free: "lkpcs s c = Leaving \<Longrightarrow>
    lk_step s (s\<lparr>lkobj := lk_store0 (lkobj s), lkpcs := (lkpcs s)(c := Outside)\<rparr>)"

definition lk_start :: "lksys \<Rightarrow> bool" where
  "lk_start s \<longleftrightarrow> lk_locked (lkobj s) = 0 \<and> lk_cpu (lkobj s) = None \<and> (\<forall>c. lkpcs s c = Outside)"

inductive lk_reach :: "lksys \<Rightarrow> bool" where
  lk_init: "lk_start s \<Longrightarrow> lk_reach s"
| lk_more: "lk_reach s \<Longrightarrow> lk_step s t \<Longrightarrow> lk_reach t"

text \<open>What \<open>holding\<close> computes on processor \<open>c\<close>.\<close>

definition lk_holds :: "nat \<Rightarrow> spinlock \<Rightarrow> bool" where
  "lk_holds c l \<longleftrightarrow> lk_locked l \<noteq> 0 \<and> lk_cpu l = Some c"

fun busy :: "lkpc \<Rightarrow> bool" where
  "busy Outside = False"
| "busy Spinning = False"
| "busy Taken = True"
| "busy Inside = True"
| "busy Leaving = True"

text \<open>
  The invariant names the processor between its successful \<open>xchg\<close> and its freeing store, if any:
  the lock word is set exactly when there is one, and the owner field names it exactly while it
  is inside.
\<close>

definition lk_invh :: "nat option \<Rightarrow> lksys \<Rightarrow> bool" where
  "lk_invh h s \<longleftrightarrow> (\<forall>c. busy (lkpcs s c) \<longleftrightarrow> h = Some c) \<and>
     (lk_locked (lkobj s) \<noteq> 0 \<longleftrightarrow> h \<noteq> None) \<and>
     (\<forall>c. lk_cpu (lkobj s) = Some c \<longleftrightarrow> lkpcs s c = Inside)"

lemma lk_step_invh: "lk_step s t \<Longrightarrow> lk_invh h s \<Longrightarrow> \<exists>h'. lk_invh h' t"
proof (induction rule: lk_step.induct)
  case (enter s c)
  then have "h \<noteq> Some c" by (metis lk_invh_def busy.simps(1))
  with enter show ?case by (intro exI [of _ h]) (auto simp: lk_invh_def)
next
  case (xchg s c old l)
  then have "h \<noteq> Some c" by (metis lk_invh_def busy.simps(2))
  with xchg have "lk_invh (if old \<noteq> 0 then h else Some c)
    (s\<lparr>lkobj := l, lkpcs := (lkpcs s)(c := if old \<noteq> 0 then Spinning else Taken)\<rparr>)"
    by (auto simp: lk_invh_def lk_xchg_def)
  then show ?case by blast
next
  case (take s c pcs)
  then have "h = Some c" by (auto simp: lk_invh_def)
  with take have "lk_invh h (s\<lparr>lkobj := lk_take c pcs (lkobj s), lkpcs := (lkpcs s)(c := Inside)\<rparr>)"
    by (auto simp: lk_invh_def lk_take_def)
  then show ?case by blast
next
  case (drop s c)
  then have "lk_cpu (lkobj s) = Some c" by (simp add: lk_invh_def)
  with drop have "lk_invh h (s\<lparr>lkobj := lk_drop (lkobj s), lkpcs := (lkpcs s)(c := Leaving)\<rparr>)"
    by (auto simp: lk_invh_def lk_drop_def)
  then show ?case by blast
next
  case (free s c)
  then have "lk_invh None (s\<lparr>lkobj := lk_store0 (lkobj s), lkpcs := (lkpcs s)(c := Outside)\<rparr>)"
    by (auto simp: lk_invh_def lk_store0_def)
  then show ?case by blast
qed

lemma lk_reach_inv: "lk_reach s \<Longrightarrow> \<exists>h. lk_invh h s"
proof (induction rule: lk_reach.induct)
  case (lk_init s)
  then have "lk_invh None s" by (auto simp: lk_invh_def lk_start_def)
  then show ?case by blast
next
  case (lk_more s t)
  then show ?case by (blast intro: lk_step_invh)
qed

text \<open>
  C3: Mutual exclusion: in every interleaving of processors that take and give back a lock through
  the atomic steps of \<open>acquire\<close> and \<open>release\<close>, at most one processor is between its successful
  \<open>xchg\<close> and its freeing store, and the test made by \<open>holding\<close> is true on a processor exactly while
  that processor is inside, whatever the others do.
\<close>

theorem spin_mutex:
  assumes "lk_reach s"
  shows "(busy (lkpcs s c) \<and> busy (lkpcs s d) \<longrightarrow> c = d) \<and>
    (lk_holds c (lkobj s) \<longleftrightarrow> lkpcs s c = Inside)"
proof -
  obtain h where h: "lk_invh h s" using lk_reach_inv [OF assms] by blast
  then have "busy (lkpcs s c) \<and> busy (lkpcs s d) \<longrightarrow> c = d"
    by (auto simp: lk_invh_def)
  moreover have "lk_holds c (lkobj s) \<longleftrightarrow> lkpcs s c = Inside"
    using h unfolding lk_holds_def lk_invh_def by (metis busy.simps(4) option.distinct(1))
  ultimately show ?thesis ..
qed

definition ex_lock :: spinlock where
  "ex_lock = \<lparr>lk_name = ''ex'', lk_locked = 0, lk_cpu = None, lk_pcs = []\<rparr>"

definition ex_hw :: hw where
  "ex_hw = \<lparr>mem = (\<lambda>_. 0), lapic = 0, eflags = (\<lambda>_. FL_IF), frame = 0,
     cpus = [\<lparr>apicid = 0, ncli = 0, intena = 0, cproc = Some 0\<rparr>], ncpu = 1,
     locks = (\<lambda>_. ex_lock)\<rparr>"

lemma ex_hw_crit: "crit [] ex_hw"
  by (simp add: critP_def ex_hw_def ex_lock_def)

theorem acquire_release_witness:
  "crit [] ex_hw \<and> (\<exists>s1 s2. acquire KmemLock ex_hw = Inr s1 \<and> crit [KmemLock] s1 \<and>
    acquire KmemLock s1 = Inl (Panic ''acquire'') \<and> release KmemLock s1 = Inr s2 \<and> crit [] s2 \<and>
    eflags s2 = eflags ex_hw)"
  using acquire_release [OF ex_hw_crit, of KmemLock] ex_hw_crit by auto


definition ex_lksys :: lksys where
  "ex_lksys = \<lparr>lkobj = ex_lock, lkpcs = (\<lambda>_. Outside)\<rparr>"

theorem spin_mutex_witness:
  "\<exists>s. lk_reach s \<and> lkpcs s 0 = Inside \<and> lkpcs s 1 = Spinning \<and> lk_holds 0 (lkobj s) \<and> \<not> lk_holds 1 (lkobj s)"
proof -
  have "lk_reach ex_lksys"
    by (rule lk_init) (simp add: lk_start_def ex_lksys_def ex_lock_def)
  note r1 = lk_more [OF this lk_step.enter [of ex_lksys 0]]
  note r2 = lk_more [OF r1 lk_step.enter [of _ 1]]
  note r3 = lk_more [OF r2 lk_step.xchg [of _ 0 0 "ex_lock\<lparr>lk_locked := 1\<rparr>"]]
  note r4 = lk_more [OF r3 lk_step.take [of _ 0 "[]"]]
  let ?s = "\<lparr>lkobj = \<lparr>lk_name = ''ex'', lk_locked = 1, lk_cpu = Some 0, lk_pcs = []\<rparr>,
    lkpcs = (\<lambda>_. Outside)(0 := Inside, 1 := Spinning)\<rparr>"
  have r: "lk_reach ?s"
    using r4 by (simp add: ex_lksys_def ex_lock_def lk_xchg_def lk_take_def fun_upd_twist)
  show ?thesis
    using r spin_mutex [OF r, of 0 1] spin_mutex [OF r, of 1 0] by (intro exI [of _ ?s]) simp
qed

end
