(* ===== verification/Kalloc.thy ===== *)
theory Kalloc
  imports Spinlock
begin

text \<open>
  \<open>kalloc.c\<close>: the physical page allocator. The free list is the linked list the code builds inside
  the free pages themselves: \<open>freelist\<close> is the address of the first free page and the first word of
  a free page is the address of the next one. \<open>kend\<close> is the linker symbol \<open>end\<close>. The abstraction
  \<open>kmem_inv\<close> relates the list in memory to a list of pages; \<open>page_allocator\<close> is the interface the
  rest of the kernel uses.
\<close>

section \<open>State and operations\<close>

record kmem_st = hw +
  kend :: u32
  use_lock :: int
  freelist :: u32

definition V2P :: "u32 \<Rightarrow> u32" where
  "V2P a = a - KERNBASE"

definition P2V :: "u32 \<Rightarrow> u32" where
  "P2V a = a + KERNBASE"

definition PGROUNDUP :: "u32 \<Rightarrow> u32" where
  "PGROUNDUP sz = (sz + PGSIZE - 1) AND NOT (PGSIZE - 1)"

definition PGROUNDDOWN :: "u32 \<Rightarrow> u32" where
  "PGROUNDDOWN a = a AND NOT (PGSIZE - 1)"

definition kfree :: "u32 \<Rightarrow> 'a kmem_st_scheme \<Rightarrow> ('a kmem_st_scheme) kres" where
  "kfree v s =
     (if v mod PGSIZE \<noteq> 0 \<or> v < kend s \<or> V2P v \<ge> PHYSTOP then Inl (Panic ''kfree'') else
      let s = s\<lparr>mem := memset (mem s) v 1 PGSIZE\<rparr> in
      bindE (if use_lock s \<noteq> 0 then acquire KmemLock s else Inr s) (\<lambda>s.
      let s = s\<lparr>mem := write32 (mem s) v (freelist s), freelist := v\<rparr> in
      if use_lock s \<noteq> 0 then release KmemLock s else Inr s))"

definition kalloc :: "'a kmem_st_scheme \<Rightarrow> (u32 \<times> 'a kmem_st_scheme) kres" where
  "kalloc s =
     bindE (if use_lock s \<noteq> 0 then acquire KmemLock s else Inr s) (\<lambda>s.
     let r = freelist s; s = (if r \<noteq> 0 then s\<lparr>freelist := read32 (mem s) r\<rparr> else s) in
     bindE (if use_lock s \<noteq> 0 then release KmemLock s else Inr s) (\<lambda>s. Inr (r, s)))"

text \<open>
  The loop \<open>for(; p + PGSIZE <= vend; p += PGSIZE) kfree(p)\<close> stops even where \<open>p\<close> would wrap:
  \<open>kfree\<close> panics beyond \<open>PHYSTOP\<close>.
\<close>

function free_from :: "u32 \<Rightarrow> u32 \<Rightarrow> 'a kmem_st_scheme \<Rightarrow> ('a kmem_st_scheme) kres" where
  "free_from p vend s =
     (if p + PGSIZE \<le> vend then bindE (kfree p s) (free_from (p + PGSIZE) vend) else Inr s)"
  by pat_completeness auto
termination
proof (relation "measure (\<lambda>(p, vend, s). 0xE000000 - unat (V2P p))")
  fix p vend :: u32 and s s' :: "'a kmem_st_scheme"
  assume "kfree p s = Inr s'"
  then have lt: "unat (V2P p) < 0xE000000"
    by (auto simp: kfree_def word_less_nat_alt word_le_nat_alt split: if_splits)
  have "V2P (p + PGSIZE) = V2P p + PGSIZE" by (simp add: V2P_def)
  moreover have "unat (V2P p + PGSIZE) = unat (V2P p) + 4096"
    using lt by (simp add: unat_word_ariths)
  ultimately show "((p + PGSIZE, vend, s'), (p, vend, s)) \<in>
      measure (\<lambda>(p, vend, s). 0xE000000 - unat (V2P p))"
    using lt by simp
qed simp

declare free_from.simps [simp del]

definition freerange :: "u32 \<Rightarrow> u32 \<Rightarrow> 'a kmem_st_scheme \<Rightarrow> ('a kmem_st_scheme) kres" where
  "freerange vstart vend s = free_from (PGROUNDUP vstart) vend s"

definition kinit1 :: "u32 \<Rightarrow> u32 \<Rightarrow> 'a kmem_st_scheme \<Rightarrow> ('a kmem_st_scheme) kres" where
  "kinit1 vstart vend s =
     (let s = initlock KmemLock ''kmem'' s; s = s\<lparr>use_lock := 0\<rparr> in freerange vstart vend s)"

definition kinit2 :: "u32 \<Rightarrow> u32 \<Rightarrow> 'a kmem_st_scheme \<Rightarrow> ('a kmem_st_scheme) kres" where
  "kinit2 vstart vend s = bindE (freerange vstart vend s) (\<lambda>s. Inr (s\<lparr>use_lock := 1\<rparr>))"

section \<open>Pages and the free list\<close>

fun runs :: "memory \<Rightarrow> u32 \<Rightarrow> u32 list \<Rightarrow> bool" where
  "runs m a [] \<longleftrightarrow> a = 0"
| "runs m a (p # ps) \<longleftrightarrow> a = p \<and> p \<noteq> 0 \<and> runs m (read32 m p) ps"

definition page_ok :: "u32 \<Rightarrow> u32 \<Rightarrow> bool" where
  "page_ok e p \<longleftrightarrow> p mod PGSIZE = 0 \<and> e \<le> p \<and> V2P p < PHYSTOP"

definition kmem_invP :: "memory \<Rightarrow> u32 \<Rightarrow> u32 \<Rightarrow> u32 list \<Rightarrow> bool" where
  "kmem_invP m e f ps \<longleftrightarrow> runs m f ps \<and> distinct ps \<and> (\<forall>p \<in> set ps. page_ok e p)"

abbreviation kmem_inv :: "'a kmem_st_scheme \<Rightarrow> u32 list \<Rightarrow> bool" where
  "kmem_inv s ps \<equiv> kmem_invP (mem s) (kend s) (freelist s) ps"

lemma page_ok_nonzero: "page_ok e p \<Longrightarrow> p \<noteq> 0"
  by (auto simp: page_ok_def V2P_def)

lemma unat_page: "(p :: u32) mod PGSIZE = 0 \<longleftrightarrow> unat p mod 4096 = 0"
proof -
  have "p mod PGSIZE = 0 \<longleftrightarrow> unat (p mod PGSIZE) = 0" by (simp only: unat_eq_0)
  then show ?thesis by (simp only: unat_mod) simp
qed

lemma page_arith:
  "(a :: nat) mod 4096 = 0 \<Longrightarrow> b mod 4096 = 0 \<Longrightarrow> a + i = b + j \<Longrightarrow> i < 4096 \<Longrightarrow> j < 4096 \<Longrightarrow> a = b"
proof -
  assume h: "a mod 4096 = 0" "b mod 4096 = 0" "a + i = b + j" "i < 4096" "j < 4096"
  from h(1,2) obtain k l where "a = 4096 * k" "b = 4096 * l" by (auto simp: mod_eq_0_iff_dvd elim!: dvdE)
  with h(3-5) show "a = b" by simp
qed

lemma page_off:
  assumes "(p :: u32) mod PGSIZE = 0" and "inblk p 4096 x"
  shows "unat x = unat p + unat (x - p)"
proof -
  have m: "unat p mod 4096 = 0" using assms(1) by (simp only: unat_page)
  then obtain k where k: "unat p = 4096 * k" by (auto simp: mod_eq_0_iff_dvd elim!: dvdE)
  moreover have "unat p < 4096 * 1048576" using unsigned_less [of p] by simp
  ultimately have "unat p + 4096 \<le> 4096 * 1048576" by simp
  then have "unat p + unat (x - p) < 2 ^ LENGTH(32)" using assms(2) by simp
  then have "unat (p + (x - p)) = unat p + unat (x - p)" by (rule iffD1 [OF unat_add_lem])
  moreover have "p + (x - p) = x" by simp
  ultimately show ?thesis by simp
qed

lemma page_disjoint:
  assumes "(p :: u32) mod PGSIZE = 0" "(q :: u32) mod PGSIZE = 0" "inblk p 4096 x" "inblk q 4096 x"
  shows "p = q"
proof -
  have "unat p mod 4096 = 0" "unat q mod 4096 = 0" using assms(1,2) by (simp_all only: unat_page)
  moreover have "unat p + unat (x - p) = unat q + unat (x - q)"
    using page_off [OF assms(1,3)] page_off [OF assms(2,4)] by simp
  ultimately have "unat p = unat q" using assms(3,4) by (rule page_arith)
  then show ?thesis by (rule unsigned_word_eqI)
qed

lemma kmem_acq_rel [simp]:
  "kend (acq lk s) = kend s" "use_lock (acq lk s) = use_lock s" "freelist (acq lk s) = freelist s"
  "kmem_st.more (acq lk s) = kmem_st.more s"
  "kend (rel lk s) = kend s" "use_lock (rel lk s) = use_lock s" "freelist (rel lk s) = freelist s"
  "kmem_st.more (rel lk s) = kmem_st.more s"
  by (simp_all add: acq_def pushed_def cli_def rel_def popped_def sti_def Let_def)

lemma curproc_kmem [simp]:
  "curproc (s\<lparr>mem := m\<rparr>) = curproc s" "curproc (s\<lparr>freelist := x\<rparr>) = curproc s"
  "curproc (s\<lparr>use_lock := u\<rparr>) = curproc s"
  by (simp_all add: curproc_def curcpu_def)

text \<open>
  The lock of the allocator is taken only once \<open>use_lock\<close> is set: the bracket the two operations
  share, for a body that keeps the lock state.
\<close>

abbreviation kmem_frame :: "lockid list \<Rightarrow> 'a kmem_st_scheme \<Rightarrow> 'a kmem_st_scheme \<Rightarrow> bool" where
  "kmem_frame L s s' \<equiv> crit L s' \<and> curproc s' = curproc s \<and> kend s' = kend s \<and>
     use_lock s' = use_lock s \<and> kmem_st.more s' = kmem_st.more s"

lemma kmem_bracket:
  assumes "crit L s" "KmemLock \<notin> set L"
    and "\<And>u. cpus (g u) = cpus u \<and> locks (g u) = locks u \<and> lapic (g u) = lapic u \<and>
      eflags (g u) = eflags u \<and> ncpu (g u) = ncpu u \<and> curproc (g u) = curproc u \<and>
      kend (g u) = kend u \<and> use_lock (g u) = use_lock u \<and> kmem_st.more (g u) = kmem_st.more u"
    and "\<And>u. mem u = mem s \<Longrightarrow> freelist u = freelist s \<Longrightarrow> mem (g u) = m \<and> freelist (g u) = f"
  shows "\<exists>s'. bindE (if use_lock s \<noteq> 0 then acquire KmemLock s else Inr s)
      (\<lambda>s. if use_lock s \<noteq> 0 then release KmemLock (g s) else Inr (g s)) = Inr s' \<and>
    mem s' = m \<and> freelist s' = f \<and> kmem_frame L s s'"
proof (cases "use_lock s = 0")
  case True
  then show ?thesis using assms(1,3,4) by simp
next
  case False
  have a: "acquire KmemLock s = Inr (acq KmemLock s)" using acquire_ok assms(1,2) by blast
  have c: "crit (KmemLock # L) (g (acq KmemLock s))"
    using crit_acq [OF assms(1,2)] assms(3) by simp
  have "release KmemLock (g (acq KmemLock s)) = Inr (rel KmemLock (g (acq KmemLock s)))"
    using release_ok [OF c] by simp
  moreover have "crit L (rel KmemLock (g (acq KmemLock s)))"
    using crit_rel [OF c, of KmemLock] by simp
  moreover have "curproc (rel KmemLock (g (acq KmemLock s))) = curproc s"
    using curproc_rel [OF c] curproc_acq [OF assms(1)] assms(3) by simp
  ultimately show ?thesis
    using False a assms(3,4) by simp
qed

section \<open>The operations on the abstract list\<close>

lemma runs_cong:
  "(\<And>p. p \<in> set ps \<Longrightarrow> read32 m p = read32 m' p) \<Longrightarrow> runs m a ps = runs m' a ps"
  by (induction ps arbitrary: a) auto

lemma kmem_invP_cong:
  assumes "\<And>p x. p \<in> set ps \<Longrightarrow> inblk p 4096 x \<Longrightarrow> m x = m' x"
  shows "kmem_invP m e f ps = kmem_invP m' e f ps"
proof -
  have "read32 m p = read32 m' p" if "p \<in> set ps" for p
    by (rule read32_cong) (use assms that in force)
  then show ?thesis using runs_cong by (metis kmem_invP_def)
qed

lemma kalloc_ok:
  assumes "crit L s" "KmemLock \<notin> set L" "kmem_inv s ps"
  shows "\<exists>s'. kalloc s = Inr (case ps of [] \<Rightarrow> 0 | p # _ \<Rightarrow> p, s') \<and> mem s' = mem s \<and>
    kmem_inv s' (tl ps) \<and> kmem_frame L s s'"
proof -
  let ?g = "\<lambda>u. if freelist u \<noteq> 0 then u\<lparr>freelist := read32 (mem u) (freelist u)\<rparr> else u"
  let ?f = "if freelist s \<noteq> 0 then read32 (mem s) (freelist s) else 0"
  obtain s' where s': "bindE (if use_lock s \<noteq> 0 then acquire KmemLock s else Inr s)
      (\<lambda>s. if use_lock s \<noteq> 0 then release KmemLock (?g s) else Inr (?g s)) = Inr s'"
    "mem s' = mem s" "freelist s' = ?f" "kmem_frame L s s'"
    by (rule exE [OF kmem_bracket [OF assms(1,2), of ?g "mem s" ?f]]) simp_all
  have "kalloc s = Inr (freelist s, s')"
    using s'(1) acquire_ok [OF assms(1,2)]
    by (simp add: kalloc_def Let_def split: if_splits)
  moreover have "freelist s = (case ps of [] \<Rightarrow> 0 | p # _ \<Rightarrow> p)"
    using assms(3) by (auto simp: kmem_invP_def split: list.splits)
  moreover have "kmem_invP (mem s) (kend s) ?f (tl ps)"
    using assms(3) by (cases ps) (auto simp: kmem_invP_def)
  ultimately show ?thesis using s' by auto
qed

lemma kfree_ok:
  assumes "crit L s" "KmemLock \<notin> set L" "kmem_inv s ps" "page_ok (kend s) v" "v \<notin> set ps"
  shows "\<exists>s'. kfree v s = Inr s' \<and> kmem_inv s' (v # ps) \<and> kmem_frame L s s' \<and>
    (\<forall>x. \<not> inblk v 4 x \<longrightarrow> mem s' x = (if inblk v 4096 x then 1 else mem s x))"
proof -
  let ?s = "s\<lparr>mem := memset (mem s) v 1 PGSIZE\<rparr>"
  let ?g = "\<lambda>u. u\<lparr>mem := write32 (mem u) v (freelist u), freelist := v\<rparr>"
  let ?m = "write32 (mem ?s) v (freelist s)"
  obtain s' where s': "bindE (if use_lock ?s \<noteq> 0 then acquire KmemLock ?s else Inr ?s)
      (\<lambda>s. if use_lock s \<noteq> 0 then release KmemLock (?g s) else Inr (?g s)) = Inr s'"
    "mem s' = ?m" "freelist s' = v" "kmem_frame L ?s s'"
    using assms(1,2) by - (rule exE [OF kmem_bracket [of L ?s ?g ?m v]], simp_all)
  have "kfree v s = Inr s'"
    using s'(1) assms(4) unfolding kfree_def page_ok_def Let_def
    by (simp add: not_less not_le)
  moreover have away: "?m x = mem s x" if "\<not> inblk v 4096 x" for x
    using that by (simp add: write32_other memset_apply)
  have "kmem_invP ?m (kend s) (freelist s) ps"
  proof -
    have "mem s x = ?m x" if "p \<in> set ps" "inblk p 4096 x" for p x
      using page_disjoint [of p v x] that assms(3-5) away
      unfolding kmem_invP_def page_ok_def by metis
    then have "kmem_inv s ps = kmem_invP ?m (kend s) (freelist s) ps" by (rule kmem_invP_cong)
    then show ?thesis using assms(3) by (rule iffD1)
  qed
  then have "kmem_invP ?m (kend s) v (v # ps)"
    using assms(4,5) page_ok_nonzero by (simp add: kmem_invP_def)
  moreover have "?m x = (if inblk v 4096 x then 1 else mem s x)" if "\<not> inblk v 4 x" for x
    using that by (simp add: write32_other memset_apply)
  ultimately show ?thesis using s'(2-4) by (intro exI [of _ s']) simp
qed

section \<open>The interface of the allocator\<close>

text \<open>Repeated calls, as the callers make them: \<open>n\<close> allocations, and giving a list of pages back.\<close>

fun alloc_n :: "('s \<Rightarrow> (u32 \<times> 's) kres) \<Rightarrow> nat \<Rightarrow> 's \<Rightarrow> (u32 list \<times> 's) kres" where
  "alloc_n al 0 s = Inr ([], s)"
| "alloc_n al (Suc n) s =
     bindE (al s) (\<lambda>(p, s). bindE (alloc_n al n s) (\<lambda>(ps, s). Inr (p # ps, s)))"

fun dealloc_all :: "(u32 \<Rightarrow> 's \<Rightarrow> 's kres) \<Rightarrow> u32 list \<Rightarrow> 's \<Rightarrow> 's kres" where
  "dealloc_all de [] s = Inr s"
| "dealloc_all de (p # ps) s = bindE (de p s) (dealloc_all de ps)"

locale page_allocator =
  fixes alloc :: "'s \<Rightarrow> (u32 \<times> 's) kres"
    and dealloc :: "u32 \<Rightarrow> 's \<Rightarrow> 's kres"
    and avail :: "'s \<Rightarrow> u32 list \<Rightarrow> bool"
    and valid :: "'s \<Rightarrow> u32 \<Rightarrow> bool"
  assumes alloc_hd: "avail s (p # ps) \<Longrightarrow> \<exists>s'. alloc s = Inr (p, s') \<and> avail s' ps \<and> valid s' = valid s"
    and alloc_nil: "avail s [] \<Longrightarrow> \<exists>s'. alloc s = Inr (0, s') \<and> avail s' []"
    and dealloc_new: "avail s ps \<Longrightarrow> valid s p \<Longrightarrow> p \<notin> set ps \<Longrightarrow>
      \<exists>s'. dealloc p s = Inr s' \<and> avail s' (p # ps) \<and> valid s' = valid s"
    and avail_valid: "avail s ps \<Longrightarrow> distinct ps \<and> (\<forall>p \<in> set ps. valid s p \<and> p \<noteq> 0)"
begin

lemma alloc_n_take:
  "avail s ps \<Longrightarrow> n \<le> length ps \<Longrightarrow>
    \<exists>s'. alloc_n alloc n s = Inr (take n ps, s') \<and> avail s' (drop n ps) \<and> valid s' = valid s"
proof (induction n arbitrary: s ps)
  case (Suc n)
  then obtain p qs where ps: "ps = p # qs" "n \<le> length qs" by (cases ps) auto
  from alloc_hd [of s p qs] Suc.prems ps obtain s1
    where s1: "alloc s = Inr (p, s1)" "avail s1 qs" "valid s1 = valid s" by auto
  from Suc.IH [OF s1(2) ps(2)] s1 show ?case by (auto simp: ps)
qed simp

lemma dealloc_all_rev:
  "avail s qs \<Longrightarrow> distinct (rev ps @ qs) \<Longrightarrow> \<forall>p \<in> set ps. valid s p \<Longrightarrow>
    \<exists>s'. dealloc_all dealloc ps s = Inr s' \<and> avail s' (rev ps @ qs)"
proof (induction ps arbitrary: s qs)
  case (Cons p ps)
  then obtain s1 where s1: "dealloc p s = Inr s1" "avail s1 (p # qs)" "valid s1 = valid s"
    using dealloc_new [of s qs p] by auto
  from Cons.IH [OF s1(2)] Cons.prems s1 show ?case by auto
qed simp

lemma give_back:
  assumes "avail s ps" "n \<le> length ps"
  shows "\<exists>s' s''. alloc_n alloc n s = Inr (take n ps, s') \<and> avail s' (drop n ps) \<and>
    dealloc_all dealloc (rev (take n ps)) s' = Inr s'' \<and> avail s'' ps"
proof -
  obtain s' where s': "alloc_n alloc n s = Inr (take n ps, s')" "avail s' (drop n ps)" "valid s' = valid s"
    using alloc_n_take assms by blast
  have d: "distinct (take n ps @ drop n ps)" "\<forall>p \<in> set ps. valid s p"
    using avail_valid [OF assms(1)] by auto
  then have "\<exists>s''. dealloc_all dealloc (rev (take n ps)) s' = Inr s'' \<and>
      avail s'' (rev (rev (take n ps)) @ drop n ps)"
    by (intro dealloc_all_rev [OF s'(2)]) (auto simp: s'(3) dest: in_set_takeD)
  then show ?thesis using s' by auto
qed

end

interpretation kmem: page_allocator kalloc kfree "\<lambda>s ps. crit [] s \<and> kmem_inv s ps" "\<lambda>s. page_ok (kend s)"
proof unfold_locales
  fix s :: "'a kmem_st_scheme" and p ps
  assume "crit [] s \<and> kmem_inv s (p # ps)"
  then show "\<exists>s'. kalloc s = Inr (p, s') \<and> (crit [] s' \<and> kmem_inv s' ps) \<and> page_ok (kend s') = page_ok (kend s)"
    using kalloc_ok [of "[]" s "p # ps"] by auto
next
  fix s :: "'a kmem_st_scheme"
  assume "crit [] s \<and> kmem_inv s []"
  then show "\<exists>s'. kalloc s = Inr (0, s') \<and> (crit [] s' \<and> kmem_inv s' [])"
    using kalloc_ok [of "[]" s "[]"] by auto
next
  fix s :: "'a kmem_st_scheme" and p ps
  assume "crit [] s \<and> kmem_inv s ps" "page_ok (kend s) p" "p \<notin> set ps"
  then show "\<exists>s'. kfree p s = Inr s' \<and> (crit [] s' \<and> kmem_inv s' (p # ps)) \<and> page_ok (kend s') = page_ok (kend s)"
    using kfree_ok [of "[]" s ps p] by auto
next
  fix s :: "'a kmem_st_scheme" and ps
  assume "crit [] s \<and> kmem_inv s ps"
  then show "distinct ps \<and> (\<forall>p \<in> set ps. page_ok (kend s) p \<and> p \<noteq> 0)"
    using page_ok_nonzero by (auto simp: kmem_invP_def)
qed

text \<open>
  C4: With the free list in memory holding the pages \<open>ps\<close>, \<open>n\<close> calls of \<open>kalloc\<close> return the first
  \<open>n\<close> of them, which are pairwise different, page aligned, above \<open>end\<close> and below \<open>PHYSTOP\<close>; the list
  left in memory is the rest, and giving the pages back with \<open>kfree\<close> in the opposite order restores
  the list.
\<close>

theorem kalloc_kfree:
  assumes "crit [] s" and "kmem_inv s ps" and "n \<le> length ps"
  shows "\<exists>s' s''. alloc_n kalloc n s = Inr (take n ps, s') \<and> distinct (take n ps) \<and>
    (\<forall>p \<in> set (take n ps). page_ok (kend s) p) \<and> crit [] s' \<and> kmem_inv s' (drop n ps) \<and>
    dealloc_all kfree (rev (take n ps)) s' = Inr s'' \<and> crit [] s'' \<and> kmem_inv s'' ps"
  using kmem.give_back [of s ps n] kmem.avail_valid [of s ps] assms
  by (auto dest: in_set_takeD)

section \<open>Boot: every page of the range becomes free\<close>

definition pages :: "u32 \<Rightarrow> u32 \<Rightarrow> u32 list" where
  "pages p e = map (\<lambda>i. p + of_nat (4096 * i)) [0 ..< (unat e - unat p) div 4096]"

lemma pages_Cons:
  assumes "unat p + 4096 \<le> unat e"
  shows "pages p e = p # pages (p + PGSIZE) e"
proof -
  have "unat (p + PGSIZE) = unat p + 4096"
    using assms unat_u32_less [of e] by (simp add: unat_word_ariths)
  then have n: "(unat e - unat p) div 4096 = Suc ((unat e - unat (p + PGSIZE)) div 4096)"
    using assms by (simp add: le_div_geq)
  show ?thesis
    unfolding pages_def n upt_conv_Cons [OF zero_less_Suc] map_Suc_upt [symmetric]
    by (simp add: algebra_simps)
qed

lemma pages_Nil: "unat e < unat p + 4096 \<Longrightarrow> pages p e = []"
  by (simp add: pages_def)

lemma and_not_4095: "x AND NOT 4095 = x div 4096 * (4096 :: u32)"
proof -
  have "x AND NOT (mask 12) = push_bit 12 (drop_bit 12 x)"
    by (rule bit_word_eqI) (auto simp: bit_simps)
  then show ?thesis by (simp add: mask_eq_exp_minus_1 push_bit_eq_mult drop_bit_eq_div)
qed

lemma PGROUNDUP_ok:
  assumes "unat v \<le> 0xFFFFF000"
  shows "PGROUNDUP v mod PGSIZE = 0" "unat (PGROUNDUP v) = (unat v + 4095) div 4096 * 4096"
proof -
  have "unat (v + 4095) = unat v + 4095"
    using assms by (simp add: unat_word_ariths)
  moreover have "PGROUNDUP v = (v + 4095) div 4096 * 4096"
    using and_not_4095 [of "v + 4095"] by (simp add: PGROUNDUP_def add.commute)
  moreover have "(unat v + 4095) div 4096 * 4096 \<le> unat v + 4095" by simp
  then have "(unat v + 4095) div 4096 * 4096 < 2 ^ 32" using assms by simp
  ultimately show "unat (PGROUNDUP v) = (unat v + 4095) div 4096 * 4096"
    by (simp add: unat_word_ariths unat_div)
  then show "PGROUNDUP v mod PGSIZE = 0" by (simp only: unat_page) simp
qed

lemma free_from_ok:
  assumes "crit L s" "KmemLock \<notin> set L" "kmem_inv s ps" "p mod PGSIZE = 0" "kend s \<le> p"
    "0x80000000 \<le> unat p" "unat p \<le> 0x8E000000" "unat vend \<le> 0x8E000000" "\<forall>q \<in> set ps. q < p"
  shows "\<exists>s'. free_from p vend s = Inr s' \<and> kmem_inv s' (rev (pages p vend) @ ps) \<and> kmem_frame L s s'"
  using assms
proof (induction "0x8E000000 - unat p" arbitrary: p s ps rule: less_induct)
  case less
  have u: "unat (p + PGSIZE) = unat p + 4096"
    using less.prems(7) by (simp add: unat_word_ariths)
  show ?case
  proof (cases "unat p + 4096 \<le> unat vend")
    case False
    then have "\<not> p + PGSIZE \<le> vend" using u by (simp add: word_le_nat_alt)
    then show ?thesis
      using False less.prems(1,3) by (simp add: free_from.simps [of p vend s] pages_Nil)
  next
    case True
    have "unat (V2P p) = unat p - 0x80000000"
      using less.prems(6) by (simp add: V2P_def unat_sub_if_size)
    then have ok: "page_ok (kend s) p"
      using less.prems(4,5,8) True by (simp add: page_ok_def word_less_nat_alt)
    have new: "p \<notin> set ps" using less.prems(9) by auto
    obtain s1 where s1: "kfree p s = Inr s1" "kmem_inv s1 (p # ps)" "kmem_frame L s s1"
      using kfree_ok [OF less.prems(1,2,3) ok new] by blast
    have al: "(p + PGSIZE) mod PGSIZE = 0"
      using less.prems(4) u unfolding unat_page by simp
    have lt: "p < p + PGSIZE" using u by (simp add: word_less_nat_alt)
    have dec: "0x8E000000 - unat (p + PGSIZE) < 0x8E000000 - unat p" using u True less.prems(8) by simp
    have below: "\<forall>q \<in> set (p # ps). q < p + PGSIZE"
      using less.prems(9) lt by (auto dest: less_trans)
    have bounds: "kend s1 \<le> p + PGSIZE" "0x80000000 \<le> unat (p + PGSIZE)" "unat (p + PGSIZE) \<le> 0x8E000000"
      using s1(3) less.prems(5,6,8) lt u True by simp_all
    obtain s2 where "free_from (p + PGSIZE) vend s1 = Inr s2"
      "kmem_inv s2 (rev (pages (p + PGSIZE) vend) @ p # ps)" "kmem_frame L s1 s2"
      using less.hyps [OF dec conjunct1 [OF s1(3)] less.prems(2) s1(2) al bounds less.prems(8) below] by blast
    moreover have "p + PGSIZE \<le> vend" using True u by (simp add: word_le_nat_alt)
    ultimately show ?thesis
      using s1 True by (simp add: free_from.simps [of p vend s] pages_Cons)
  qed
qed

lemma pages_step:
  assumes "unat (p :: u32) mod 4096 = 0" "unat (e :: u32) mod 4096 = 0" "unat p < unat e"
  shows "unat p + 4096 \<le> unat e" "unat (p + PGSIZE) = unat p + 4096"
proof -
  from assms(1,2) obtain k l where "unat p = 4096 * k" "unat e = 4096 * l"
    by (auto simp: mod_eq_0_iff_dvd elim!: dvdE)
  with assms(3) show "unat p + 4096 \<le> unat e" by simp
  then show "unat (p + PGSIZE) = unat p + 4096"
    using unat_u32_less [of e] by (simp add: unat_word_ariths)
qed

lemma pages_append:
  assumes "unat p mod 4096 = 0" "unat mid mod 4096 = 0" "unat p \<le> unat mid" "unat mid \<le> unat e"
  shows "pages p e = pages p mid @ pages mid e \<and> (\<forall>q \<in> set (pages p mid). q < mid)"
  using assms
proof (induction "unat mid - unat p" arbitrary: p rule: less_induct)
  case less
  show ?case
  proof (cases "unat p < unat mid")
    case False
    then have "unat p = unat mid" using less.prems by simp
    then have "p = mid" by (rule unsigned_word_eqI)
    then show ?thesis by (simp add: pages_Nil)
  next
    case True
    note st = pages_step [OF less.prems(1,2) True]
    have "unat mid - unat (p + PGSIZE) < unat mid - unat p" using st by simp
    moreover have "unat (p + PGSIZE) mod 4096 = 0" using less.prems(1) by (simp only: st(2)) simp
    ultimately have "pages (p + PGSIZE) e = pages (p + PGSIZE) mid @ pages mid e \<and>
        (\<forall>q \<in> set (pages (p + PGSIZE) mid). q < mid)"
      using less.hyps [of "p + PGSIZE"] less.prems(2,4) st by simp
    then show ?thesis
      using True st less.prems(4) pages_Cons [of p e] pages_Cons [of p mid]
      by (simp add: word_less_nat_alt)
  qed
qed

lemma crit_initlock [simp]: "crit [] s \<Longrightarrow> crit [] (initlock lk nm s)"
  by (simp add: critP_def initlock_def)

lemma kmem_initlock [simp]:
  "mem (initlock lk nm s) = mem s" "kend (initlock lk nm s) = kend s"
  "freelist (initlock lk nm s) = freelist s"
  by (simp_all add: initlock_def)

text \<open>
  C5: The boot sequence of \<open>main.c\<close>, \<open>kinit1(end, mid)\<close> before the locks work and
  \<open>kinit2(mid, vend)\<close> after, succeeds on an empty allocator and leaves the free list holding every
  whole page from the first page boundary after \<open>vstart\<close> up to \<open>vend\<close>, each once; the second call
  turns locking on.
\<close>

theorem kinit_frees_all:
  assumes "crit [] s" "freelist s = 0" "kend s \<le> vstart" "KERNBASE \<le> vstart"
    "mid mod PGSIZE = 0" "vstart \<le> mid" "mid \<le> vend" "vend \<le> KERNBASE + PHYSTOP"
  shows "\<exists>s1 s2. kinit1 vstart mid s = Inr s1 \<and> kinit2 mid vend s1 = Inr s2 \<and> use_lock s2 = 1 \<and>
    crit [] s2 \<and> kmem_inv s2 (rev (pages (PGROUNDUP vstart) vend))"
proof -
  let ?p = "PGROUNDUP vstart"
  define s0 where "s0 = (initlock KmemLock ''kmem'' s)\<lparr>use_lock := 0\<rparr>"
  have vend: "unat mid \<le> unat vend" "unat vend \<le> 0x8E000000" "unat vstart \<le> unat mid"
    "0x80000000 \<le> unat vstart"
    using assms(4,6,7,8) by (simp_all add: word_le_nat_alt)
  have small: "unat vstart \<le> 0xFFFFF000" "unat mid \<le> 0xFFFFF000"
    using vend by simp_all
  note up = PGROUNDUP_ok [OF small(1)]
  have p: "unat vstart \<le> unat ?p" "unat ?p mod 4096 = 0" using up(2) by simp_all
  have m: "unat mid mod 4096 = 0" using assms(5) by (simp only: unat_page)
  then obtain l where l: "unat mid = 4096 * l" by (auto simp: mod_eq_0_iff_dvd elim!: dvdE)
  have "unat (PGROUNDUP mid) = unat mid"
    using PGROUNDUP_ok(2) [OF small(2)] by (simp add: l)
  then have mm: "PGROUNDUP mid = mid" by (rule unsigned_word_eqI)
  have "(unat vstart + 4095) div 4096 \<le> (4096 * l + 4095) div 4096"
    using vend(3) l by (intro div_le_mono) simp
  then have pm: "unat ?p \<le> unat mid" using up(2) l by simp
  have c0: "crit [] s0" "kmem_inv s0 []" "kend s0 \<le> ?p"
    using assms(1,2,3) p(1) by (simp_all add: s0_def kmem_invP_def word_le_nat_alt)
  obtain s1 where s1: "free_from ?p mid s0 = Inr s1" "kmem_inv s1 (rev (pages ?p mid))" "kmem_frame [] s0 s1"
    using free_from_ok [OF c0(1) _ c0(2) up(1) c0(3), of mid] p(1) pm vend by auto
  have ap: "pages ?p vend = pages ?p mid @ pages mid vend" "\<forall>q \<in> set (pages ?p mid). q < mid"
    using pages_append [OF p(2) m pm vend(1)] by simp_all
  obtain s2 where "free_from mid vend s1 = Inr s2" "kmem_inv s2 (rev (pages mid vend) @ rev (pages ?p mid))"
      "kmem_frame [] s1 s2"
    using free_from_ok [OF conjunct1 [OF s1(3)] _ s1(2) assms(5), of vend] c0(3) s1(3) vend pm ap(2)
    by (auto simp: word_le_nat_alt)
  then show ?thesis
    using s1(1) ap(1) by (auto simp: kinit1_def kinit2_def freerange_def mm Let_def simp flip: s0_def)
qed

section \<open>Instances\<close>

definition ex_kmem :: kmem_st where
  "ex_kmem = hw.extend (ex_hw\<lparr>mem := write32 (\<lambda>_. 0) 0x80200000 0x80201000\<rparr>)
     \<lparr>kend = 0x80110000, use_lock = 1, freelist = 0x80200000\<rparr>"

lemma ex_kmem_fields [simp]:
  "mem ex_kmem = write32 (\<lambda>_. 0) 0x80200000 0x80201000" "kend ex_kmem = 0x80110000"
  "use_lock ex_kmem = 1" "freelist ex_kmem = 0x80200000" "crit [] ex_kmem"
  using ex_hw_crit by (simp_all add: ex_kmem_def hw.defs)

lemma ex_kmem_inv: "kmem_inv ex_kmem [0x80200000, 0x80201000]"
  by (simp add: kmem_invP_def page_ok_def V2P_def) (simp add: read32_def write32_def)

theorem kalloc_kfree_witness:
  "crit [] ex_kmem \<and> kmem_inv ex_kmem [0x80200000, 0x80201000] \<and>
    (\<exists>s' s''. alloc_n kalloc 2 ex_kmem = Inr ([0x80200000, 0x80201000], s') \<and>
      dealloc_all kfree [0x80201000, 0x80200000] s' = Inr s'' \<and> kmem_inv s'' [0x80200000, 0x80201000])"
  using kalloc_kfree [of ex_kmem "[0x80200000, 0x80201000]" 2] ex_kmem_inv by auto

theorem kinit_frees_all_witness:
  "\<exists>s1 s2. kinit1 0x80110004 0x80112000 (ex_kmem\<lparr>freelist := 0\<rparr>) = Inr s1 \<and>
    kinit2 0x80112000 0x80113000 s1 = Inr s2 \<and> kmem_inv s2 [0x80112000, 0x80111000]"
proof -
  have "rev (pages (PGROUNDUP 0x80110004) 0x80113000) = [0x80112000, 0x80111000]"
    by (simp add: pages_def PGROUNDUP_def upt_rec)
  then show ?thesis
    using kinit_frees_all [of "ex_kmem\<lparr>freelist := 0\<rparr>" "0x80110004" "0x80112000" "0x80113000"] by auto
qed

end
