(* ===== verification/Conout.thy ===== *)
theory Conout
  imports Kalloc
begin

text \<open>
  Console output, the first half of \<open>console.c\<close>: \<open>printint\<close>, \<open>cprintf\<close>, \<open>panic\<close>, \<open>cgaputc\<close> and
  \<open>consputc\<close>. The serial port is the sequence \<open>uart_out\<close> of bytes handed to \<open>uartputc\<close>; the CGA
  screen is the memory at \<open>P2V(0xb8000)\<close> with the cursor register \<open>crt_pos\<close>.
\<close>

section \<open>State\<close>

record con_st = kmem_st +
  panicked :: int
  cons_locking :: int
  uart_out :: "int list"
  crt_pos :: int

abbreviation (input) BACKSPACE :: int where "BACKSPACE \<equiv> 0x100"
abbreviation (input) crt :: u32 where "crt \<equiv> 0x800b8000"

text \<open>The value of a C \<open>char\<close>, which is signed.\<close>

definition schar :: "char \<Rightarrow> int" where
  "schar c = (let i = of_char c in if i \<ge> 128 then i - 256 else i)"

section \<open>Operations\<close>

definition uartputc :: "int \<Rightarrow> 'a con_st_scheme \<Rightarrow> 'a con_st_scheme" where
  "uartputc c s = s\<lparr>uart_out := uart_out s @ [c mod 256]\<rparr>"

definition cga_store :: "int \<Rightarrow> int \<Rightarrow> memory \<Rightarrow> int \<times> memory" where
  "cga_store c pos m =
     (if c = 10 then (pos + (80 - pos mod 80), m)
      else if c = BACKSPACE then (if pos > 0 then pos - 1 else pos, m)
      else (pos + 1, write16 m (crt + of_int (2 * pos)) ((word_of_int c AND 0xff) OR 0x0700)))"

definition cga_scroll :: "int \<Rightarrow> memory \<Rightarrow> int \<times> memory" where
  "cga_scroll pos m =
     (if pos div 80 \<ge> 24
      then let m = memmove m crt (crt + 160) (2 * 23 * 80); pos = pos - 80 in
           (pos, memset m (crt + of_int (2 * pos)) 0 (of_int (2 * (24 * 80 - pos))))
      else (pos, m))"

definition cgaputc :: "int \<Rightarrow> 'a con_st_scheme \<Rightarrow> ('a con_st_scheme) kres" where
  "cgaputc c s =
     (let (pos, m) = cga_store c (crt_pos s) (mem s) in
      if pos < 0 \<or> pos > 25 * 80 then Inl (Panic ''pos under/overflow'')
      else let (pos, m) = cga_scroll pos m in
           Inr (s\<lparr>crt_pos := pos mod 65536, mem := write16 m (crt + of_int (2 * pos)) (0x20 OR 0x0700)\<rparr>))"

definition consputc :: "int \<Rightarrow> 'a con_st_scheme \<Rightarrow> ('a con_st_scheme) kres" where
  "consputc c s =
     (if panicked s \<noteq> 0 then Inl Diverge
      else let s = (if c = BACKSPACE then uartputc 8 (uartputc 32 (uartputc 8 s)) else uartputc c s)
           in cgaputc c s)"

fun consputs :: "int list \<Rightarrow> 'a con_st_scheme \<Rightarrow> ('a con_st_scheme) kres" where
  "consputs [] s = Inr s"
| "consputs (c # cs) s = bindE (consputc c s) (consputs cs)"

text \<open>
  The digit loop of \<open>printint\<close>, filling \<open>buf\<close> from its first free place: \<open>room\<close> is what is left of
  its sixteen bytes, and storing beyond them is an access C leaves undefined. The characters come out
  in the order they are stored, least significant digit first.
\<close>

definition digits :: "nat \<Rightarrow> char" where
  "digits i = ''0123456789abcdef'' ! i"

fun digit_loop :: "nat \<Rightarrow> u32 \<Rightarrow> u32 \<Rightarrow> string kres" where
  "digit_loop 0 x base = Inl Fault"
| "digit_loop (Suc room) x base =
     (let d = digits (unat (x mod base)); x = x div base in
      if x \<noteq> 0 then bindE (digit_loop room x base) (\<lambda>ds. Inr (d # ds)) else Inr [d])"

definition printint_buf :: "u32 \<Rightarrow> u32 \<Rightarrow> bool \<Rightarrow> string kres" where
  "printint_buf xx base sign =
     (let sign = (sign \<and> sint xx < 0); x = (if sign then - xx else xx) in
      bindE (digit_loop 16 x base) (\<lambda>buf.
        if sign then (if length buf < 16 then Inr (buf @ ''-'') else Inl Fault) else Inr buf))"

definition printint :: "u32 \<Rightarrow> u32 \<Rightarrow> bool \<Rightarrow> 'a con_st_scheme \<Rightarrow> ('a con_st_scheme) kres" where
  "printint xx base sign s =
     bindE (printint_buf xx base sign) (\<lambda>buf. consputs (map schar (rev buf)) s)"

text \<open>The variable arguments: integers, and pointers to strings or null.\<close>

datatype cparg = CInt u32 | CStr string | CNull

fun cprintf_loop :: "string \<Rightarrow> cparg list \<Rightarrow> 'a con_st_scheme \<Rightarrow> ('a con_st_scheme) kres" where
  "cprintf_loop [] as s = Inr s"
| "cprintf_loop (c # fmt) as s =
     (if c \<noteq> CHR ''%'' then bindE (consputc (of_char c) s) (cprintf_loop fmt as)
      else case fmt of
        [] \<Rightarrow> Inr s
      | d # fmt' \<Rightarrow>
          if d = CHR ''d'' then
            (case as of CInt x # as' \<Rightarrow> bindE (printint x 10 True s) (cprintf_loop fmt' as')
                      | _ \<Rightarrow> Inl Fault)
          else if d = CHR ''x'' \<or> d = CHR ''p'' then
            (case as of CInt x # as' \<Rightarrow> bindE (printint x 16 False s) (cprintf_loop fmt' as')
                      | _ \<Rightarrow> Inl Fault)
          else if d = CHR ''s'' then
            (case as of CStr str # as' \<Rightarrow> bindE (consputs (map schar str) s) (cprintf_loop fmt' as')
                      | CNull # as' \<Rightarrow>
                          bindE (consputs (map schar ''(null)'') s) (cprintf_loop fmt' as')
                      | _ \<Rightarrow> Inl Fault)
          else if d = CHR ''%'' then bindE (consputc 37 s) (cprintf_loop fmt' as)
          else bindE (consputc 37 s) (\<lambda>s. bindE (consputc (of_char d) s) (cprintf_loop fmt' as)))"

definition cprintf :: "string \<Rightarrow> cparg list \<Rightarrow> 'a con_st_scheme \<Rightarrow> ('a con_st_scheme) kres" where
  "cprintf fmt as s =
     (let locking = cons_locking s in
      bindE (if locking \<noteq> 0 then acquire ConsLock s else Inr s) (\<lambda>s.
      bindE (cprintf_loop fmt as s) (\<lambda>s.
      if locking \<noteq> 0 then release ConsLock s else Inr s)))"

text \<open>What \<open>panic\<close> prints before it freezes the machine; the model's \<open>Panic\<close> result is its loop.\<close>

fun print_pcs :: "u32 list \<Rightarrow> 'a con_st_scheme \<Rightarrow> ('a con_st_scheme) kres" where
  "print_pcs [] s = Inr s"
| "print_pcs (pc # pcs) s = bindE (cprintf '' %p'' [CInt pc] s) (print_pcs pcs)"

definition panic :: "string \<Rightarrow> 'a con_st_scheme \<Rightarrow> ('a con_st_scheme) kres" where
  "panic msg s =
     (let s = (cli s)\<lparr>cons_locking := 0\<rparr> in
      bindE (cprintf ''lapicid %d: panic: '' [CInt (word_of_int (lapic s))] s) (\<lambda>s.
      bindE (cprintf msg [] s) (\<lambda>s.
      bindE (cprintf [CHR 0x0A] [] s) (\<lambda>s.
      bindE (print_pcs (getcallerpcs (mem s) (frame s)) s) (\<lambda>s. Inr (s\<lparr>panicked := 1\<rparr>))))))"

section \<open>Numbers\<close>

definition digit_val :: "char \<Rightarrow> nat" where
  "digit_val c = (if of_char c \<le> (57 :: nat) then of_char c - 48 else of_char c - 87)"

definition num_val :: "nat \<Rightarrow> string \<Rightarrow> nat" where
  "num_val b cs = foldl (\<lambda>v c. v * b + digit_val c) 0 cs"

definition is_digit :: "nat \<Rightarrow> char \<Rightarrow> bool" where
  "is_digit b c \<longleftrightarrow> c \<in> digits ` {0 ..< b}"

lemma digit_val_digits: "i < 16 \<Longrightarrow> digit_val (digits i) = i"
  by (simp only: numeral_nat, elim less_SucE; simp add: digit_val_def digits_def)

lemma num_val_snoc: "num_val b (cs @ [c]) = num_val b cs * b + digit_val c"
  by (simp add: num_val_def)

lemma digit_loop_ok:
  assumes "2 \<le> unat base" "unat base \<le> 16" "unat x < unat base ^ room" "0 < room"
  shows "\<exists>ds. digit_loop room x base = Inr ds \<and> num_val (unat base) (rev ds) = unat x \<and>
    length ds \<le> room \<and> ds \<noteq> [] \<and> (\<forall>c \<in> set ds. is_digit (unat base) c) \<and>
    (length ds > 1 \<longrightarrow> last ds \<noteq> CHR ''0'')"
  using assms
proof (induction room arbitrary: x)
  case (Suc room)
  let ?b = "unat base" and ?d = "digits (unat (x mod base))"
  have d: "unat (x mod base) < ?b" using Suc.prems(1) by (simp add: unat_mod)
  have v: "digit_val ?d = unat x mod ?b" and isd: "is_digit ?b ?d"
    using d Suc.prems(2) digit_val_digits by (auto simp: unat_mod is_digit_def)
  show ?case
  proof (cases "x div base = 0")
    case True
    then have "unat x div ?b = 0" by (metis unat_0 unat_div)
    then have "unat x mod ?b = unat x" using Suc.prems(1) by (simp add: div_eq_0_iff)
    then show ?thesis using True isd v by (simp add: Let_def num_val_def)
  next
    case False
    then have pos: "unat x div ?b \<noteq> 0" by (metis unat_div unat_eq_zero)
    have lt: "unat (x div base) < ?b ^ room"
      using Suc.prems(3) by (simp add: unat_div less_mult_imp_div_less mult.commute)
    then have "0 < room" using pos by (cases room) (simp_all add: unat_div)
    then obtain ds where ds: "digit_loop room (x div base) base = Inr ds"
      "num_val ?b (rev ds) = unat x div ?b" "length ds \<le> room" "ds \<noteq> []"
      "\<forall>c \<in> set ds. is_digit ?b c" "length ds > 1 \<longrightarrow> last ds \<noteq> CHR ''0''"
      using Suc.IH [OF Suc.prems(1,2) lt] by (auto simp: unat_div)
    have "last ds \<noteq> CHR ''0''"
    proof (cases "length ds > 1")
      case False
      then obtain c where c: "ds = [c]" using ds(4) by (cases ds) auto
      then show ?thesis using ds(2) pos by (auto simp: num_val_def digit_val_def)
    qed (use ds in simp)
    moreover have "num_val ?b (rev (?d # ds)) = unat x"
      using ds(2) v by (simp add: num_val_snoc)
    ultimately show ?thesis
      using False ds isd by (simp add: Let_def)
  qed
qed simp

lemma digit_loop_more:
  "digit_loop room x base = Inr ds \<Longrightarrow> room \<le> room' \<Longrightarrow> digit_loop room' x base = Inr ds"
proof (induction room arbitrary: x ds room')
  case (Suc room)
  then obtain r where r: "room' = Suc r" "room \<le> r" by (cases room') auto
  show ?case
  proof (cases "x div base = 0")
    case True
    then show ?thesis using Suc.prems(1) r by (simp add: Let_def)
  next
    case False
    then obtain ds' where "digit_loop room (x div base) base = Inr ds'" "ds = digits (unat (x mod base)) # ds'"
      using Suc.prems(1) by (auto simp: Let_def)
    with Suc.IH [OF this(1) r(2)] show ?thesis using False r(1) by (simp add: Let_def)
  qed
qed simp

lemma abs_sint: "unat (if sint x < 0 then - x else x) = nat \<bar>sint (x :: u32)\<bar>"
proof -
  have u: "uint x = sint x mod 4294967296"
    using uint_sint [of x] by (simp add: take_bit_eq_mod)
  have r: "- 2147483648 \<le> sint x" "sint x < 2147483648"
    using sint_range_size [of x] by (simp_all add: word_size)
  show ?thesis
  proof (cases "sint x < 0")
    case True
    have "uint (- x) = (- sint x) mod 4294967296"
      by (simp add: uint_word_ariths u mod_minus_eq)
    also have "\<dots> = - sint x" using True r by (intro mod_pos_pos_trivial) simp_all
    finally show ?thesis using True by (simp add: unat_eq_nat_uint)
  next
    case False
    have "sint x mod 4294967296 = sint x" using False r by (intro mod_pos_pos_trivial) simp_all
    then show ?thesis using False u by (simp add: unat_eq_nat_uint)
  qed
qed

lemma printint_buf_ok:
  "\<exists>ds. printint_buf xx 10 True = Inr (rev (if sint xx < 0 then CHR ''-'' # ds else ds)) \<and>
    int (num_val 10 ds) = \<bar>sint xx\<bar> \<and> (\<forall>c \<in> set ds. is_digit 10 c) \<and>
    (length ds > 1 \<longrightarrow> hd ds \<noteq> CHR ''0'')"
  "\<exists>hs. printint_buf xx 16 False = Inr (rev hs) \<and> num_val 16 hs = unat xx \<and>
    (\<forall>c \<in> set hs. is_digit 16 c) \<and> (length hs > 1 \<longrightarrow> hd hs \<noteq> CHR ''0'')"
proof -
  let ?x = "if sint xx < 0 then - xx else xx"
  have lt: "unat y < unat (10 :: u32) ^ 10" "unat y < unat (16 :: u32) ^ 16" for y :: u32
    using unat_u32_less [of y] by simp_all
  obtain ds where ds: "digit_loop 10 ?x 10 = Inr ds" "num_val 10 (rev ds) = unat ?x"
    "length ds \<le> 10" "ds \<noteq> []" "\<forall>c \<in> set ds. is_digit 10 c" "length ds > 1 \<longrightarrow> last ds \<noteq> CHR ''0''"
    using digit_loop_ok [of 10 ?x 10] lt(1) [of ?x] by auto
  obtain hs where hs: "digit_loop 16 xx 16 = Inr hs" "num_val 16 (rev hs) = unat xx"
    "hs \<noteq> []" "\<forall>c \<in> set hs. is_digit 16 c" "length hs > 1 \<longrightarrow> last hs \<noteq> CHR ''0''"
    using digit_loop_ok [of 16 xx 16] lt(2) [of xx] by auto
  have "digit_loop 16 ?x 10 = Inr ds"
    using digit_loop_more [OF ds(1), of 16] by simp
  then have "printint_buf xx 10 True = Inr (rev (if sint xx < 0 then CHR ''-'' # rev ds else rev ds))"
    using ds(3) by (auto simp: printint_buf_def Let_def)
  moreover have "int (num_val 10 (rev ds)) = \<bar>sint xx\<bar>"
    using ds(2) abs_sint [of xx] by simp
  ultimately show "\<exists>ds. printint_buf xx 10 True = Inr (rev (if sint xx < 0 then CHR ''-'' # ds else ds)) \<and>
    int (num_val 10 ds) = \<bar>sint xx\<bar> \<and> (\<forall>c \<in> set ds. is_digit 10 c) \<and>
    (length ds > 1 \<longrightarrow> hd ds \<noteq> CHR ''0'')"
    using ds by (intro exI [of _ "rev ds"]) (simp add: hd_rev)
  have "printint_buf xx 16 False = Inr (rev (rev hs))"
    using hs(1) by (simp add: printint_buf_def)
  then show "\<exists>hs. printint_buf xx 16 False = Inr (rev hs) \<and> num_val 16 hs = unat xx \<and>
    (\<forall>c \<in> set hs. is_digit 16 c) \<and> (length hs > 1 \<longrightarrow> hd hs \<noteq> CHR ''0'')"
    using hs by (intro exI [of _ "rev hs"]) (simp add: hd_rev)
qed

section \<open>The screen\<close>

text \<open>The bytes the serial port gets for one console character.\<close>

definition echo :: "int \<Rightarrow> int list" where
  "echo c = (if c = BACKSPACE then [8, 32, 8] else [c mod 256])"

text \<open>
  \<open>printed s out s'\<close>: from \<open>s\<close> to \<open>s'\<close> only the screen and the serial port changed, the bytes \<open>out\<close>
  went to the port, the cursor is on the screen and memory outside the screen is as it was.
\<close>

definition con_ok :: "'a con_st_scheme \<Rightarrow> bool" where
  "con_ok s \<longleftrightarrow> panicked s = 0 \<and> 0 \<le> crt_pos s \<and> crt_pos s < 24 * 80"

definition printed :: "'a con_st_scheme \<Rightarrow> int list \<Rightarrow> 'a con_st_scheme \<Rightarrow> bool" where
  "printed s out s' \<longleftrightarrow> (\<exists>p m. s' = s\<lparr>crt_pos := p, mem := m, uart_out := uart_out s @ out\<rparr> \<and>
     0 \<le> p \<and> p < 24 * 80 \<and> (\<forall>x. \<not> inblk crt 4000 x \<longrightarrow> m x = mem s x))"

lemma printed_refl: "con_ok s \<Longrightarrow> printed s [] s"
  unfolding printed_def con_ok_def by (rule exI [of _ "crt_pos s"], rule exI [of _ "mem s"]) simp

lemma printed_trans: "printed s a t \<Longrightarrow> printed t b u \<Longrightarrow> printed s (a @ b) u"
proof -
  assume "printed s a t" "printed t b u"
  then obtain p m q n where t: "t = s\<lparr>crt_pos := p, mem := m, uart_out := uart_out s @ a\<rparr>"
    "\<forall>x. \<not> inblk crt 4000 x \<longrightarrow> m x = mem s x"
    and u: "u = t\<lparr>crt_pos := q, mem := n, uart_out := uart_out t @ b\<rparr>" "0 \<le> q" "q < 24 * 80"
    "\<forall>x. \<not> inblk crt 4000 x \<longrightarrow> n x = mem t x"
    unfolding printed_def by auto
  then show ?thesis
    unfolding printed_def by (intro exI [of _ q] exI [of _ n]) simp
qed

lemma printed_con_ok: "printed s a t \<Longrightarrow> con_ok s \<Longrightarrow> con_ok t"
  by (auto simp: printed_def con_ok_def)

lemma inblk_sub:
  "inblk (a + of_nat i) n x \<Longrightarrow> i + n \<le> N \<Longrightarrow> N < 2 ^ 32 \<Longrightarrow> inblk a N x"
proof -
  assume h: "inblk (a + of_nat i) n x" "i + n \<le> N" "N < 2 ^ 32"
  obtain k where k: "k < n" "x = a + of_nat i + of_nat k" using inblk_ex [OF h(1)] by blast
  have "x - a = of_nat (i + k)" by (simp add: k(2))
  then have "unat (x - a) = i + k"
    using unat_of_nat_u32 [of "i + k"] h(2,3) k(1) by simp
  then show "inblk a N x" using h(2) k(1) by simp
qed

lemma crt_inblk:
  assumes "2 * k + n \<le> 4000" "inblk (crt + of_int (2 * int k)) n x"
  shows "inblk crt 4000 x"
proof -
  have "(of_int (2 * int k) :: u32) = of_nat (2 * k)" by simp
  then show ?thesis using inblk_sub [where a = crt and i = "2 * k" and n = n and x = x and N = 4000] assms by simp
qed

lemma crt_write16:
  assumes "0 \<le> p" "p < 2000" "\<not> inblk crt 4000 x"
  shows "write16 m (crt + of_int (2 * p)) v x = m x"
proof -
  obtain k where k: "p = int k" using nonneg_int_cases [OF assms(1)] by blast
  show ?thesis
    using assms(2,3) crt_inblk [of k 2 x] unfolding k by (intro write16_other) auto
qed

lemma scroll_mem:
  assumes "0 \<le> p" "p \<le> 24 * 80" "\<not> inblk crt 4000 x"
  shows "memset (memmove m crt (crt + 160) (2 * 23 * 80)) (crt + of_int (2 * p)) 0
    (of_int (2 * (24 * 80 - p))) x = m x"
proof -
  obtain k where k: "p = int k" using nonneg_int_cases [OF assms(1)] by blast
  have "(of_int (2 * (24 * 80 - p)) :: u32) = of_nat (2 * (24 * 80 - k))"
    using assms(2) by (simp add: k of_nat_diff)
  then have u: "unat (of_int (2 * (24 * 80 - p)) :: u32) = 2 * (24 * 80 - k)"
    using unat_of_nat_u32 [of "2 * (24 * 80 - k)"] by simp
  have a: "\<not> inblk (crt + of_int (2 * p)) (unat (of_int (2 * (24 * 80 - p)) :: u32)) x"
    unfolding u unfolding k
    using crt_inblk [of k "2 * (24 * 80 - k)" x] assms(2,3) k by (auto simp: diff_mult_distrib2)
  have "memmove m crt (crt + 160) (2 * 23 * 80) = 
      (\<lambda>a. if inblk crt (unat (2 * 23 * 80 :: u32)) a then m (crt + 160 + (a - crt)) else m a)"
    by (rule memmove_apply) simp_all
  then have "memmove m crt (crt + 160) (2 * 23 * 80) x = m x" using assms(3) by simp
  then show ?thesis using a by (simp only: memset_apply if_False)
qed

lemma cga_store_ok:
  assumes "0 \<le> pos" "pos < 24 * 80" "cga_store c pos m = (q, n)"
  shows "0 \<le> q" "q \<le> 24 * 80" "\<not> inblk crt 4000 x \<Longrightarrow> n x = m x"
proof -
  have "pos + (80 - pos mod 80) \<le> 24 * 80" using assms(1,2) by presburger
  then show "0 \<le> q" "q \<le> 24 * 80"
    using assms pos_mod_bound [of 80 pos] by (auto simp: cga_store_def split: if_splits)
  show "\<not> inblk crt 4000 x \<Longrightarrow> n x = m x"
    using assms crt_write16 [of pos x] by (auto simp: cga_store_def split: if_splits)
qed

lemma cga_scroll_ok:
  assumes "0 \<le> pos" "pos \<le> 24 * 80" "cga_scroll pos m = (q, n)"
  shows "0 \<le> q" "q < 24 * 80" "\<not> inblk crt 4000 x \<Longrightarrow> n x = m x"
proof -
  show "0 \<le> q" "q < 24 * 80"
    using assms by (auto simp: cga_scroll_def Let_def split: if_splits)
  show "\<not> inblk crt 4000 x \<Longrightarrow> n x = m x"
    using assms scroll_mem [of "pos - 80" x m] unfolding cga_scroll_def Let_def
    by (cases "pos div 80 \<ge> 24") (simp_all only: if_True if_False prod.inject, fastforce+)
qed

lemma cgaputc_ok:
  assumes "0 \<le> crt_pos s" "crt_pos s < 24 * 80"
  shows "\<exists>p m. cgaputc c s = Inr (s\<lparr>crt_pos := p, mem := m\<rparr>) \<and> 0 \<le> p \<and> p < 24 * 80 \<and>
    (\<forall>x. \<not> inblk crt 4000 x \<longrightarrow> m x = mem s x)"
proof -
  obtain q n where q: "cga_store c (crt_pos s) (mem s) = (q, n)" by (cases "cga_store c (crt_pos s) (mem s)")
  obtain p m where p: "cga_scroll q n = (p, m)" by (cases "cga_scroll q n")
  note 1 = cga_store_ok [OF assms q]
  note 2 = cga_scroll_ok [OF 1(1,2) p]
  have "cgaputc c s = Inr (s\<lparr>crt_pos := p, mem := write16 m (crt + of_int (2 * p)) (0x20 OR 0x0700)\<rparr>)"
    using 1(1,2) 2(1,2) by (simp add: cgaputc_def q p)
  moreover have "write16 m (crt + of_int (2 * p)) v x = mem s x" if "\<not> inblk crt 4000 x" for x v
    using crt_write16 [OF 2(1) _ that, of m v] 2(2,3) 1(3) that by simp
  ultimately show ?thesis
    using 2(1,2) by (intro exI [of _ p] exI) auto
qed

lemma consputc_ok:
  assumes "con_ok s"
  shows "\<exists>s'. consputc c s = Inr s' \<and> printed s (echo c) s'"
proof -
  define s1 where "s1 = s\<lparr>uart_out := uart_out s @ echo c\<rparr>"
  have "(if c = BACKSPACE then uartputc 8 (uartputc 32 (uartputc 8 s)) else uartputc c s) = s1"
    by (simp add: uartputc_def echo_def s1_def)
  then have "consputc c s = cgaputc c s1" using assms by (simp add: consputc_def con_ok_def)
  moreover obtain p m where "cgaputc c s1 = Inr (s1\<lparr>crt_pos := p, mem := m\<rparr>)" "0 \<le> p" "p < 24 * 80"
    "\<forall>x. \<not> inblk crt 4000 x \<longrightarrow> m x = mem s1 x"
    using cgaputc_ok [of s1 c] assms by (auto simp: s1_def con_ok_def)
  ultimately show ?thesis
    unfolding printed_def s1_def by (intro exI conjI) simp_all
qed

lemma print_seq:
  assumes "\<exists>s'. r = Inr s' \<and> printed s a s'" "con_ok s"
    and "\<And>s'. con_ok s' \<Longrightarrow> \<exists>s''. g s' = Inr s'' \<and> printed s' b s''"
  shows "\<exists>s''. bindE r g = Inr s'' \<and> printed s (a @ b) s''"
  using assms by (metis bindE.simps(2) printed_con_ok printed_trans)

lemma consputs_ok: "con_ok s \<Longrightarrow> \<exists>s'. consputs cs s = Inr s' \<and> printed s (concat (map echo cs)) s'"
proof (induction cs arbitrary: s)
  case (Cons c cs)
  show ?case
    using print_seq [where g = "consputs cs", OF consputc_ok [OF Cons.prems] Cons.prems Cons.IH]
    by simp
qed (simp add: printed_refl)

section \<open>Formatted output\<close>

text \<open>What a format and its arguments stand for, \<open>None\<close> where an argument is missing or of the wrong kind.\<close>

definition num_str :: "u32 \<Rightarrow> u32 \<Rightarrow> bool \<Rightarrow> string" where
  "num_str x base sign = (case printint_buf x base sign of Inr buf \<Rightarrow> rev buf | Inl _ \<Rightarrow> [])"

definition str_out :: "string \<Rightarrow> int list" where
  "str_out cs = map (\<lambda>c. of_char c) cs"

fun fmt_out :: "string \<Rightarrow> cparg list \<Rightarrow> int list option" where
  "fmt_out [] as = Some []"
| "fmt_out (c # fmt) as =
     (if c \<noteq> CHR ''%'' then map_option ((@) [of_char c]) (fmt_out fmt as)
      else case fmt of
        [] \<Rightarrow> Some []
      | d # fmt' \<Rightarrow>
          if d = CHR ''d'' then
            (case as of CInt x # as' \<Rightarrow> map_option ((@) (str_out (num_str x 10 True))) (fmt_out fmt' as')
                      | _ \<Rightarrow> None)
          else if d = CHR ''x'' \<or> d = CHR ''p'' then
            (case as of CInt x # as' \<Rightarrow> map_option ((@) (str_out (num_str x 16 False))) (fmt_out fmt' as')
                      | _ \<Rightarrow> None)
          else if d = CHR ''s'' then
            (case as of CStr t # as' \<Rightarrow> map_option ((@) (str_out t)) (fmt_out fmt' as')
                      | CNull # as' \<Rightarrow> map_option ((@) (str_out ''(null)'')) (fmt_out fmt' as')
                      | _ \<Rightarrow> None)
          else if d = CHR ''%'' then map_option ((@) [37]) (fmt_out fmt' as)
          else map_option ((@) ([37] @ [of_char d])) (fmt_out fmt' as))"

lemma of_char_bounds: "0 \<le> (of_char c :: int)" "(of_char c :: int) < 256"
proof -
  have "(of_char c :: int) = int (of_char c)" by (rule of_nat_of_char [symmetric])
  then show "0 \<le> (of_char c :: int)" "(of_char c :: int) < 256"
    using nat_of_char_less_256 [of c] by linarith+
qed

lemma echo_char [simp]: "echo (of_char c) = [of_char c]" "echo 37 = [37]"
  using of_char_bounds [of c] by (auto simp: echo_def)

lemma echo_schar: "concat (map echo (map schar cs)) = str_out cs"
proof (induction cs)
  case (Cons c cs)
  have "echo (schar c) = [of_char c]"
    using of_char_bounds [of c] by (auto simp: echo_def schar_def Let_def)
  then show ?case using Cons by (simp add: str_out_def)
qed (simp add: str_out_def)

lemma puts_ok: "con_ok s \<Longrightarrow> \<exists>s'. consputs (map schar cs) s = Inr s' \<and> printed s (str_out cs) s'"
  using consputs_ok [of s "map schar cs"] by (simp only: echo_schar)

lemma printint_ok:
  assumes "con_ok s"
  shows "\<exists>s'. printint x 10 True s = Inr s' \<and> printed s (str_out (num_str x 10 True)) s'"
    and "\<exists>s'. printint x 16 False s = Inr s' \<and> printed s (str_out (num_str x 16 False)) s'"
proof -
  obtain d h where "printint_buf x 10 True = Inr d" "printint_buf x 16 False = Inr h"
    using printint_buf_ok [of x] by blast
  then show "\<exists>s'. printint x 10 True s = Inr s' \<and> printed s (str_out (num_str x 10 True)) s'"
    and "\<exists>s'. printint x 16 False s = Inr s' \<and> printed s (str_out (num_str x 16 False)) s'"
    using puts_ok [OF assms, of "rev d"] puts_ok [OF assms, of "rev h"]
    by (simp_all add: printint_def num_str_def)
qed

lemma print_seq_map:
  assumes "\<exists>s'. r = Inr s' \<and> printed s a s'" "con_ok s" "map_option ((@) a) o' = Some out"
    and "\<And>s' b. o' = Some b \<Longrightarrow> con_ok s' \<Longrightarrow> \<exists>s''. g s' = Inr s'' \<and> printed s' b s''"
  shows "\<exists>s''. bindE r g = Inr s'' \<and> printed s out s''"
  using assms print_seq [of r s a g] by auto

lemma cprintf_loop_ok:
  "fmt_out fmt as = Some out \<Longrightarrow> con_ok s \<Longrightarrow> \<exists>s'. cprintf_loop fmt as s = Inr s' \<and> printed s out s'"
proof (induction "length fmt" arbitrary: fmt as s out rule: less_induct)
  case less
  note put = consputc_ok [OF less.prems(2)]
  show ?case
  proof (cases fmt)
    case Nil
    then show ?thesis using less.prems by (simp add: printed_refl)
  next
    case c: (Cons c f1)
    have seq1: "\<exists>s'. r = Inr s' \<and> printed s a s' \<Longrightarrow> map_option ((@) a) (fmt_out f1 as') = Some out \<Longrightarrow>
        \<exists>s'. bindE r (cprintf_loop f1 as') = Inr s' \<and> printed s out s'" for r a as'
      by (erule print_seq_map [OF _ less.prems(2)], assumption, erule (1) less.hyps [rotated]) (simp add: c)
    show ?thesis
    proof (cases "c = CHR ''%''")
      case False
      then show ?thesis
        using less.prems(1) seq1 [OF put [of "of_char c"]] c by simp
    next
      case pct: True
      show ?thesis
      proof (cases f1)
        case Nil
        then show ?thesis using less.prems pct c by (auto simp: printed_refl)
      next
        case d: (Cons d f2)
        have seq: "\<exists>s'. r = Inr s' \<and> printed s a s' \<Longrightarrow> map_option ((@) a) (fmt_out f2 as') = Some out \<Longrightarrow>
            \<exists>s'. bindE r (cprintf_loop f2 as') = Inr s' \<and> printed s out s'" for r a as'
          by (erule print_seq_map [OF _ less.prems(2)], assumption, erule (1) less.hyps [rotated]) (simp add: c d)
        note pi = printint_ok [OF less.prems(2)] and ps = puts_ok [OF less.prems(2)]
        consider "d = CHR ''d''" | "d = CHR ''x'' \<or> d = CHR ''p''" | "d = CHR ''s''" | "d = CHR ''%''"
          | "d \<notin> set ''dxps%''" by auto
        then show ?thesis
        proof cases
          case 1
          then obtain x as' where "as = CInt x # as'"
            using less.prems(1) c d pct by (auto split: list.splits cparg.splits)
          then show ?thesis using seq [OF pi(1) [of x]] less.prems(1) c d pct 1 by simp
        next
          case 2
          then obtain x as' where "as = CInt x # as'"
            using less.prems(1) c d pct by (auto split: list.splits cparg.splits)
          then show ?thesis using seq [OF pi(2) [of x]] less.prems(1) c d pct 2 by auto
        next
          case 3
          then consider t as' where "as = CStr t # as'" | as' where "as = CNull # as'"
            using less.prems(1) c d pct by (auto split: list.splits cparg.splits)
          then show ?thesis
            using seq [OF ps] seq [OF ps [of "''(null)''"]] less.prems(1) c d pct 3 by cases simp_all
        next
          case 4
          then show ?thesis using seq [OF put [of 37]] less.prems(1) c d pct by simp
        next
          case 5
          have "\<exists>s'. bindE (consputc 37 s) (consputc (of_char d)) = Inr s' \<and> printed s ([37] @ [of_char d]) s'"
            using print_seq [where g = "consputc (of_char d)", OF put [of 37] less.prems(2) consputc_ok] by simp
          from seq [OF this] show ?thesis
            using less.prems(1) c d pct 5 by (simp add: bindE_assoc)
        qed
      qed
    qed
  qed
qed

lemma con_acq_rel [simp]:
  "panicked (acq lk s) = panicked s" "cons_locking (acq lk s) = cons_locking s"
  "uart_out (acq lk s) = uart_out s" "crt_pos (acq lk s) = crt_pos s"
  "con_st.more (acq lk s) = con_st.more s"
  "panicked (rel lk s) = panicked s" "cons_locking (rel lk s) = cons_locking s"
  "uart_out (rel lk s) = uart_out s" "crt_pos (rel lk s) = crt_pos s"
  "con_st.more (rel lk s) = con_st.more s"
  by (simp_all add: acq_def pushed_def cli_def rel_def popped_def sti_def Let_def)

lemma con_ok_acq_rel [simp]: "con_ok (acq lk s) = con_ok s" "con_ok (rel lk s) = con_ok s"
  by (simp_all add: con_ok_def)

lemma curproc_con [simp]:
  "curproc (s\<lparr>crt_pos := p\<rparr>) = curproc s" "curproc (s\<lparr>uart_out := us\<rparr>) = curproc s"
  "curproc (s\<lparr>cons_locking := i\<rparr>) = curproc s" "curproc (s\<lparr>panicked := i\<rparr>) = curproc s"
  by (simp_all add: curproc_def curcpu_def)

text \<open>What output to the console leaves alone.\<close>

definition con_frame :: "lockid list \<Rightarrow> 'a con_st_scheme \<Rightarrow> 'a con_st_scheme \<Rightarrow> bool" where
  "con_frame L s s' \<longleftrightarrow> crit L s' \<and> curproc s' = curproc s \<and> con_ok s' \<and> cons_locking s' = cons_locking s \<and>
     freelist s' = freelist s \<and> kend s' = kend s \<and> use_lock s' = use_lock s \<and>
     con_st.more s' = con_st.more s \<and> (\<forall>x. \<not> inblk crt 4000 x \<longrightarrow> mem s' x = mem s x)"

lemma printed_frame:
  "printed s out s' \<Longrightarrow> con_ok s \<Longrightarrow> crit L s \<Longrightarrow> con_frame L s s' \<and> uart_out s' = uart_out s @ out"
  by (auto simp: printed_def con_frame_def con_ok_def)

lemma cprintf_ok:
  assumes "crit L s" "ConsLock \<notin> set L" "con_ok s" "fmt_out fmt as = Some out"
  shows "\<exists>s'. cprintf fmt as s = Inr s' \<and> uart_out s' = uart_out s @ out \<and> con_frame L s s'"
proof (cases "cons_locking s = 0")
  case True
  then show ?thesis
    using cprintf_loop_ok [OF assms(4,3)] printed_frame [OF _ assms(3,1)] by (auto simp: cprintf_def)
next
  case False
  let ?a = "acq ConsLock s"
  have a: "acquire ConsLock s = Inr ?a" "crit (ConsLock # L) ?a" "con_ok ?a"
    using acquire_ok [OF assms(1,2)] crit_acq [OF assms(1,2)] assms(3) by simp_all
  obtain t where t: "cprintf_loop fmt as ?a = Inr t" "printed ?a out t"
    using cprintf_loop_ok [OF assms(4) a(3)] by blast
  note f = printed_frame [OF t(2) a(3,2)]
  have c: "crit (ConsLock # L) t" using f by (simp add: con_frame_def)
  have "cprintf fmt as s = Inr (rel ConsLock t)"
    using False a(1) t(1) release_ok [OF c] by (simp add: cprintf_def)
  moreover have "con_frame L s (rel ConsLock t)"
    using f crit_rel [OF c, of ConsLock] curproc_rel [OF c] curproc_acq [OF assms(1)]
    by (simp add: con_frame_def)
  ultimately show ?thesis using f by simp
qed

section \<open>Claims\<close>

text \<open>
  C6: \<open>printint\<close> fills its sixteen-byte buffer without overflow for every 32-bit value, and what it
  prints reads back as the value: in base 10 with the sign, the most negative number included, and in
  base 16 as the unsigned word; it prints digits of the base only and no leading zero.
\<close>

theorem printint_reads_back:
  "\<exists>ds hs. printint_buf xx 10 True = Inr (rev (if sint xx < 0 then CHR ''-'' # ds else ds)) \<and>
    int (num_val 10 ds) = \<bar>sint xx\<bar> \<and> (\<forall>c \<in> set ds. is_digit 10 c) \<and>
    (length ds > 1 \<longrightarrow> hd ds \<noteq> CHR ''0'') \<and>
    printint_buf xx 16 False = Inr (rev hs) \<and> num_val 16 hs = unat xx \<and>
    (\<forall>c \<in> set hs. is_digit 16 c) \<and> (length hs > 1 \<longrightarrow> hd hs \<noteq> CHR ''0'')"
  using printint_buf_ok [of xx] by blast

text \<open>
  C7: \<open>cprintf\<close>, with or without the console lock, sends to the serial port exactly the text its
  format and arguments stand for, leaves the cursor on the screen (it never reaches its
  under/overflow panic), touches no memory outside the 4000 bytes of the screen, and gives the lock
  and the interrupt state back.
\<close>

theorem cprintf_prints:
  assumes "crit L s" "ConsLock \<notin> set L" "con_ok s" "fmt_out fmt as = Some out"
  shows "\<exists>s'. cprintf fmt as s = Inr s' \<and> uart_out s' = uart_out s @ out \<and> con_frame L s s'"
  by (rule cprintf_ok [OF assms])

lemma digit_loop_numeral:
  "digit_loop (numeral k) x base =
     (let d = digits (unat (x mod base)); x = x div base in
      if x \<noteq> 0 then bindE (digit_loop (pred_numeral k) x base) (\<lambda>ds. Inr (d # ds)) else Inr [d])"
  by (simp only: numeral_eq_Suc digit_loop.simps)

theorem printint_reads_back_witness:
  "sint (0x80000000 :: u32) < 0 \<and>
    printint_buf 0x80000000 10 True = Inr (rev ''-2147483648'') \<and> num_val 10 ''2147483648'' = 2147483648"
proof -
  have n: "sint (0x80000000 :: u32) = - 2147483648" by simp
  obtain ds where "printint_buf 0x80000000 10 True = Inr (rev (CHR ''-'' # ds))" "int (num_val 10 ds) = 2147483648"
    using printint_reads_back [of "0x80000000"] n by auto
  moreover have "printint_buf 0x80000000 10 True = Inr (rev ''-2147483648'')"
    by (simp add: printint_buf_def Let_def digits_def digit_loop_numeral)
  moreover have "ds = ''2147483648''"
    using calculation by (simp only: sum.inject rev_is_rev_conv list.inject)
  ultimately show ?thesis using n by simp
qed

definition ex_con :: con_st where
  "ex_con = kmem_st.extend ex_kmem \<lparr>panicked = 0, cons_locking = 1, uart_out = [], crt_pos = 79\<rparr>"

lemma ex_con_fields [simp]: "crit [] ex_con" "con_ok ex_con" "uart_out ex_con = []"
  using ex_hw_crit by (simp_all add: ex_con_def ex_kmem_def kmem_st.defs hw.defs con_ok_def)

theorem cprintf_prints_witness:
  "\<exists>s'. cprintf ''%d %s%%'' [CInt 7, CStr ''up''] ex_con = Inr s' \<and>
    uart_out s' = str_out ''7 up%''"
proof -
  have "fmt_out ''%d %s%%'' [CInt 7, CStr ''up''] = Some (str_out ''7 up%'')"
    by (simp add: num_str_def printint_buf_def Let_def digits_def digit_loop_numeral str_out_def)
  from cprintf_prints [OF _ _ _ this, of "[]" ex_con] show ?thesis by auto
qed

end
