(* ===== verification/Vm.thy ===== *)
theory Vm
  imports Conout
begin

text \<open>
  \<open>vm.c\<close>: two-level x86 page tables, built and walked in the byte memory the allocator's pages live
  in. An entry is a 32-bit word; \<open>walkpgdir\<close> returns the address of the entry, null where there is no
  page table. Loops over virtual addresses carry as fuel the number of pages of the address space;
  running out of it is \<open>Diverge\<close>, which is what the C loop does when the address wraps around.
  \<open>kdata\<close> is the linker symbol \<open>data\<close>.
\<close>

section \<open>State and address arithmetic (mmu.h)\<close>

record vm_st = con_st +
  kdata :: u32
  kpgdir :: u32
  cr3 :: "int \<Rightarrow> u32"
  ts_esp0 :: "nat \<Rightarrow> u32"

abbreviation (input) PTE_P :: u32 where "PTE_P \<equiv> 0x001"
abbreviation (input) PTE_W :: u32 where "PTE_W \<equiv> 0x002"
abbreviation (input) PTE_U :: u32 where "PTE_U \<equiv> 0x004"
abbreviation (input) EXTMEM :: u32 where "EXTMEM \<equiv> 0x100000"
abbreviation (input) DEVSPACE :: u32 where "DEVSPACE \<equiv> 0xFE000000"
abbreviation (input) KERNLINK :: u32 where "KERNLINK \<equiv> KERNBASE + EXTMEM"
abbreviation (input) NPAGES :: nat where "NPAGES \<equiv> 2 ^ 20"

definition PDX :: "u32 \<Rightarrow> u32" where
  "PDX va = drop_bit 22 va AND 0x3FF"

definition PTX :: "u32 \<Rightarrow> u32" where
  "PTX va = drop_bit 12 va AND 0x3FF"

definition PGADDR :: "u32 \<Rightarrow> u32 \<Rightarrow> u32 \<Rightarrow> u32" where
  "PGADDR d t o' = push_bit 22 d OR push_bit 12 t OR o'"

definition PTE_ADDR :: "u32 \<Rightarrow> u32" where
  "PTE_ADDR pte = pte AND NOT 0xFFF"

definition PTE_FLAGS :: "u32 \<Rightarrow> u32" where
  "PTE_FLAGS pte = pte AND 0xFFF"

section \<open>Walking and mapping\<close>

definition walkpgdir :: "u32 \<Rightarrow> u32 \<Rightarrow> bool \<Rightarrow> 'a con_st_scheme \<Rightarrow> (u32 \<times> 'a con_st_scheme) kres" where
  "walkpgdir pgdir va alloc s =
     (let pde = pgdir + 4 * PDX va in
      if read32 (mem s) pde AND PTE_P \<noteq> 0
      then Inr (P2V (PTE_ADDR (read32 (mem s) pde)) + 4 * PTX va, s)
      else if \<not> alloc then Inr (0, s)
      else bindE (kalloc s) (\<lambda>(pgtab, s).
        if pgtab = 0 then Inr (0, s)
        else let s = s\<lparr>mem := memset (mem s) pgtab 0 PGSIZE\<rparr>;
                 s = s\<lparr>mem := write32 (mem s) pde (V2P pgtab OR PTE_P OR PTE_W OR PTE_U)\<rparr>
             in Inr (pgtab + 4 * PTX va, s)))"

fun map_loop :: "nat \<Rightarrow> u32 \<Rightarrow> u32 \<Rightarrow> u32 \<Rightarrow> u32 \<Rightarrow> u32 \<Rightarrow> 'a con_st_scheme \<Rightarrow>
    (int \<times> 'a con_st_scheme) kres" where
  "map_loop 0 pgdir a last' pa perm s = Inl Diverge"
| "map_loop (Suc n) pgdir a last' pa perm s =
     bindE (walkpgdir pgdir a True s) (\<lambda>(pte, s).
       if pte = 0 then Inr (- 1, s)
       else if read32 (mem s) pte AND PTE_P \<noteq> 0 then Inl (Panic ''remap'')
       else let s = s\<lparr>mem := write32 (mem s) pte (pa OR perm OR PTE_P)\<rparr> in
            if a = last' then Inr (0, s)
            else map_loop n pgdir (a + PGSIZE) last' (pa + PGSIZE) perm s)"

definition mappages :: "u32 \<Rightarrow> u32 \<Rightarrow> u32 \<Rightarrow> u32 \<Rightarrow> u32 \<Rightarrow> 'a con_st_scheme \<Rightarrow>
    (int \<times> 'a con_st_scheme) kres" where
  "mappages pgdir va sz pa perm s =
     map_loop NPAGES pgdir (PGROUNDDOWN va) (PGROUNDDOWN (va + sz - 1)) pa perm s"

section \<open>Releasing\<close>

fun dealloc_loop :: "nat \<Rightarrow> u32 \<Rightarrow> u32 \<Rightarrow> u32 \<Rightarrow> 'a con_st_scheme \<Rightarrow> ('a con_st_scheme) kres" where
  "dealloc_loop n pgdir a oldsz s =
     (if \<not> a < oldsz then Inr s
      else case n of 0 \<Rightarrow> Inl Diverge
      | Suc n' \<Rightarrow>
          bindE (walkpgdir pgdir a False s) (\<lambda>(pte, s).
            if pte = 0
            then dealloc_loop n' pgdir (PGADDR (PDX a + 1) 0 0 - PGSIZE + PGSIZE) oldsz s
            else if read32 (mem s) pte AND PTE_P \<noteq> 0
            then let pa = PTE_ADDR (read32 (mem s) pte) in
                 if pa = 0 then Inl (Panic ''kfree'')
                 else bindE (kfree (P2V pa) s) (\<lambda>s.
                   dealloc_loop n' pgdir (a + PGSIZE) oldsz (s\<lparr>mem := write32 (mem s) pte 0\<rparr>))
            else dealloc_loop n' pgdir (a + PGSIZE) oldsz s))"

declare dealloc_loop.simps [simp del]

definition deallocuvm :: "u32 \<Rightarrow> u32 \<Rightarrow> u32 \<Rightarrow> 'a con_st_scheme \<Rightarrow> (u32 \<times> 'a con_st_scheme) kres" where
  "deallocuvm pgdir oldsz newsz s =
     (if newsz \<ge> oldsz then Inr (oldsz, s)
      else bindE (dealloc_loop NPAGES pgdir (PGROUNDUP newsz) oldsz s) (\<lambda>s. Inr (newsz, s)))"

fun freevm_loop :: "u32 list \<Rightarrow> u32 \<Rightarrow> 'a con_st_scheme \<Rightarrow> ('a con_st_scheme) kres" where
  "freevm_loop [] pgdir s = Inr s"
| "freevm_loop (i # is) pgdir s =
     (let e = read32 (mem s) (pgdir + 4 * i) in
      if e AND PTE_P \<noteq> 0 then bindE (kfree (P2V (PTE_ADDR e)) s) (freevm_loop is pgdir)
      else freevm_loop is pgdir s)"

definition freevm :: "u32 \<Rightarrow> 'a con_st_scheme \<Rightarrow> ('a con_st_scheme) kres" where
  "freevm pgdir s =
     (if pgdir = 0 then Inl (Panic ''freevm: no pgdir'')
      else bindE (deallocuvm pgdir KERNBASE 0 s) (\<lambda>(_, s).
           bindE (freevm_loop (map of_nat [0 ..< 1024]) pgdir s) (kfree pgdir)))"

section \<open>Kernel mappings\<close>

record kmap_entry =
  virt :: u32
  phys_start :: u32
  phys_end :: u32
  perm :: u32

definition kmap :: "u32 \<Rightarrow> kmap_entry list" where
  "kmap data =
     [\<lparr>virt = KERNBASE, phys_start = 0, phys_end = EXTMEM, perm = PTE_W\<rparr>,
      \<lparr>virt = KERNLINK, phys_start = V2P KERNLINK, phys_end = V2P data, perm = 0\<rparr>,
      \<lparr>virt = data, phys_start = V2P data, phys_end = PHYSTOP, perm = PTE_W\<rparr>,
      \<lparr>virt = DEVSPACE, phys_start = DEVSPACE, phys_end = 0, perm = PTE_W\<rparr>]"

fun kmap_loop :: "kmap_entry list \<Rightarrow> u32 \<Rightarrow> 'a con_st_scheme \<Rightarrow> (u32 \<times> 'a con_st_scheme) kres" where
  "kmap_loop [] pgdir s = Inr (pgdir, s)"
| "kmap_loop (k # ks) pgdir s =
     bindE (mappages pgdir (virt k) (phys_end k - phys_start k) (phys_start k) (perm k) s) (\<lambda>(r, s).
       if r < 0 then bindE (freevm pgdir s) (\<lambda>s. Inr (0, s)) else kmap_loop ks pgdir s)"

definition setupkvm :: "'a vm_st_scheme \<Rightarrow> (u32 \<times> 'a vm_st_scheme) kres" where
  "setupkvm s =
     bindE (kalloc s) (\<lambda>(pgdir, s).
       if pgdir = 0 then Inr (0, s)
       else let s = s\<lparr>mem := memset (mem s) pgdir 0 PGSIZE\<rparr> in
            if P2V PHYSTOP > DEVSPACE then Inl (Panic ''PHYSTOP too high'')
            else kmap_loop (kmap (kdata s)) pgdir s)"

definition switchkvm :: "'a vm_st_scheme \<Rightarrow> 'a vm_st_scheme" where
  "switchkvm s = s\<lparr>cr3 := (cr3 s)(lapic s := V2P (kpgdir s))\<rparr>"

definition kvmalloc :: "'a vm_st_scheme \<Rightarrow> ('a vm_st_scheme) kres" where
  "kvmalloc s = bindE (setupkvm s) (\<lambda>(d, s). Inr (switchkvm (s\<lparr>kpgdir := d\<rparr>)))"

section \<open>User memory\<close>

definition inituvm :: "u32 \<Rightarrow> u32 \<Rightarrow> u32 \<Rightarrow> 'a con_st_scheme \<Rightarrow> ('a con_st_scheme) kres" where
  "inituvm pgdir init sz s =
     (if sz \<ge> PGSIZE then Inl (Panic ''inituvm: more than a page'')
      else bindE (kalloc s) (\<lambda>(p, s).
        let s = s\<lparr>mem := memset (mem s) p 0 PGSIZE\<rparr> in
        bindE (mappages pgdir 0 PGSIZE (V2P p) (PTE_W OR PTE_U) s) (\<lambda>(_, s).
          Inr (s\<lparr>mem := memmove (mem s) p init sz\<rparr>))))"

fun alloc_loop :: "nat \<Rightarrow> u32 \<Rightarrow> u32 \<Rightarrow> u32 \<Rightarrow> u32 \<Rightarrow> 'a con_st_scheme \<Rightarrow>
    (u32 \<times> 'a con_st_scheme) kres" where
  "alloc_loop n pgdir a oldsz newsz s =
     (if \<not> a < newsz then Inr (newsz, s)
      else case n of 0 \<Rightarrow> Inl Diverge
      | Suc n' \<Rightarrow>
          bindE (kalloc s) (\<lambda>(p, s).
            if p = 0
            then bindE (cprintf (''allocuvm out of memory'' @ [CHR 0x0A]) [] s) (\<lambda>s.
                 bindE (deallocuvm pgdir newsz oldsz s) (\<lambda>(_, s). Inr (0, s)))
            else
              let s = s\<lparr>mem := memset (mem s) p 0 PGSIZE\<rparr> in
              bindE (mappages pgdir a PGSIZE (V2P p) (PTE_W OR PTE_U) s) (\<lambda>(r, s).
                if r < 0
                then bindE (cprintf (''allocuvm out of memory (2)'' @ [CHR 0x0A]) [] s) (\<lambda>s.
                     bindE (deallocuvm pgdir newsz oldsz s) (\<lambda>(_, s).
                     bindE (kfree p s) (\<lambda>s. Inr (0, s))))
                else alloc_loop n' pgdir (a + PGSIZE) oldsz newsz s)))"

declare alloc_loop.simps [simp del]

definition allocuvm :: "u32 \<Rightarrow> u32 \<Rightarrow> u32 \<Rightarrow> 'a con_st_scheme \<Rightarrow> (u32 \<times> 'a con_st_scheme) kres" where
  "allocuvm pgdir oldsz newsz s =
     (if newsz \<ge> KERNBASE then Inr (0, s)
      else if newsz < oldsz then Inr (oldsz, s)
      else alloc_loop NPAGES pgdir (PGROUNDUP oldsz) oldsz newsz s)"

definition clearpteu :: "u32 \<Rightarrow> u32 \<Rightarrow> 'a con_st_scheme \<Rightarrow> ('a con_st_scheme) kres" where
  "clearpteu pgdir uva s =
     bindE (walkpgdir pgdir uva False s) (\<lambda>(pte, s).
       if pte = 0 then Inl (Panic ''clearpteu'')
       else Inr (s\<lparr>mem := write32 (mem s) pte (read32 (mem s) pte AND NOT PTE_U)\<rparr>))"

text \<open>The copy loop of \<open>copyuvm\<close>; \<open>None\<close> is its \<open>goto bad\<close>.\<close>

fun copy_loop :: "nat \<Rightarrow> u32 \<Rightarrow> u32 \<Rightarrow> u32 \<Rightarrow> u32 \<Rightarrow> 'a con_st_scheme \<Rightarrow>
    (bool \<times> 'a con_st_scheme) kres" where
  "copy_loop n d pgdir i sz s =
     (if \<not> i < sz then Inr (True, s)
      else case n of 0 \<Rightarrow> Inl Diverge
      | Suc n' \<Rightarrow>
          bindE (walkpgdir pgdir i False s) (\<lambda>(pte, s).
            if pte = 0 then Inl (Panic ''copyuvm: pte should exist'')
            else if read32 (mem s) pte AND PTE_P = 0 then Inl (Panic ''copyuvm: page not present'')
            else
              let pa = PTE_ADDR (read32 (mem s) pte); flags = PTE_FLAGS (read32 (mem s) pte) in
              bindE (kalloc s) (\<lambda>(p, s).
                if p = 0 then Inr (False, s)
                else
                  let s = s\<lparr>mem := memmove (mem s) p (P2V pa) PGSIZE\<rparr> in
                  bindE (mappages d i PGSIZE (V2P p) flags s) (\<lambda>(r, s).
                    if r < 0 then bindE (kfree p s) (\<lambda>s. Inr (False, s))
                    else copy_loop n' d pgdir (i + PGSIZE) sz s))))"

declare copy_loop.simps [simp del]

definition copyuvm :: "u32 \<Rightarrow> u32 \<Rightarrow> 'a vm_st_scheme \<Rightarrow> (u32 \<times> 'a vm_st_scheme) kres" where
  "copyuvm pgdir sz s =
     bindE (setupkvm s) (\<lambda>(d, s).
       if d = 0 then Inr (0, s)
       else bindE (copy_loop NPAGES d pgdir 0 sz s) (\<lambda>(ok, s).
         if ok then Inr (d, s) else bindE (freevm d s) (\<lambda>s. Inr (0, s))))"

text \<open>\<open>uva2ka\<close> reads the entry before it looks whether there is one.\<close>

definition uva2ka :: "u32 \<Rightarrow> u32 \<Rightarrow> 'a con_st_scheme \<Rightarrow> u32 kres" where
  "uva2ka pgdir uva s =
     bindE (walkpgdir pgdir uva False s) (\<lambda>(pte, s).
       if pte = 0 then Inl Fault
       else if read32 (mem s) pte AND PTE_P = 0 then Inr 0
       else if read32 (mem s) pte AND PTE_U = 0 then Inr 0
       else Inr (P2V (PTE_ADDR (read32 (mem s) pte))))"

lemma PGROUNDDOWN_mod: "va - PGROUNDDOWN va = va mod PGSIZE"
  using and_not_4095 [of va] by (simp add: PGROUNDDOWN_def minus_div_mult_eq_mod)

function copyout :: "u32 \<Rightarrow> u32 \<Rightarrow> u32 \<Rightarrow> u32 \<Rightarrow> 'a con_st_scheme \<Rightarrow>
    (int \<times> 'a con_st_scheme) kres" where
  "copyout pgdir va buf len s =
     (if len = 0 then Inr (0, s)
      else
        let va0 = PGROUNDDOWN va in
        bindE (uva2ka pgdir va0 s) (\<lambda>pa0.
          if pa0 = 0 then Inr (- 1, s)
          else
            let n = PGSIZE - (va - va0); n = (if n > len then len else n) in
            copyout pgdir (va0 + PGSIZE) (buf + n) (len - n)
              (s\<lparr>mem := memmove (mem s) (pa0 + (va - va0)) buf n\<rparr>)))"
  by pat_completeness auto
termination
proof (relation "measure (\<lambda>(pgdir, va, buf, len, s). unat len)")
  fix va len va0 :: u32 and n n' :: u32
  assume "len \<noteq> 0" "va0 = PGROUNDDOWN va" "n = PGSIZE - (va - va0)" "n' = (if n > len then len else n)"
  moreover have "unat (va mod PGSIZE) < 4096" by (simp add: unat_mod)
  then have "PGSIZE - va mod PGSIZE \<noteq> 0" by auto
  ultimately have n: "n' \<noteq> 0" "n' \<le> len" by (auto simp: PGROUNDDOWN_mod not_less)
  have "unat (len - n') < unat len"
    using n unat_eq_zero [of n'] by (simp add: unat_sub word_le_nat_alt)
  then show "\<And>pgdir buf s s'. ((pgdir, va0 + PGSIZE, buf + n', len - n', s'), pgdir, va, buf, len, s)
      \<in> measure (\<lambda>(pgdir, va, buf, len, s). unat len)" by simp
qed simp

declare copyout.simps [simp del]

section \<open>Entries in memory\<close>

lemma entry_off: "unat (i :: u32) < 1024 \<Longrightarrow> d + 4 * i = d + of_nat (4 * unat i)"
  by simp

lemma entry_page: "unat i < 1024 \<Longrightarrow> inblk (d + 4 * i) 4 x \<Longrightarrow> inblk d 4096 x"
  unfolding entry_off by (erule inblk_sub) simp_all

lemma entry_disj:
  assumes "unat i < 1024" "unat j < 1024" "inblk (d + 4 * i) 4 x" "inblk (d + 4 * j) 4 x"
  shows "i = j"
proof -
  obtain a where a: "a < 4" "x = d + 4 * i + of_nat a" using inblk_ex [OF assms(3)] by blast
  obtain b where b: "b < 4" "x = d + 4 * j + of_nat b" using inblk_ex [OF assms(4)] by blast
  have "(of_nat (4 * unat i + a) :: u32) = of_nat (4 * unat j + b)"
    using a(2) b(2) by simp
  then have "4 * unat i + a = 4 * unat j + b"
    using unat_of_nat_u32 [of "4 * unat i + a"] unat_of_nat_u32 [of "4 * unat j + b"] a(1) b(1) assms(1,2)
    by simp
  then have "unat i = unat j" using a(1) b(1) by presburger
  then show "i = j" by (rule unsigned_word_eqI)
qed

lemma read32_write32_disj:
  "(\<And>x. inblk a 4 x \<Longrightarrow> \<not> inblk b 4 x) \<Longrightarrow> read32 (write32 m b v) a = read32 m a"
  by (rule read32_cong) (simp add: write32_other)

lemma entry_write_same_page:
  "unat i < 1024 \<Longrightarrow> unat j < 1024 \<Longrightarrow>
    read32 (write32 m (d + 4 * i) v) (d + 4 * j) = (if i = j then v else read32 m (d + 4 * j))"
proof (cases "i = j")
  case False
  assume "unat i < 1024" "unat j < 1024"
  then have "read32 (write32 m (d + 4 * i) v) (d + 4 * j) = read32 m (d + 4 * j)"
    using entry_disj [of i j] False by (intro read32_write32_disj) blast
  then show ?thesis using False by simp
qed simp

lemma entry_write_other_page:
  assumes "d mod PGSIZE = 0" "e mod PGSIZE = 0" "d \<noteq> e" "unat i < 1024" "unat j < 1024"
  shows "read32 (write32 m (d + 4 * i) v) (e + 4 * j) = read32 m (e + 4 * j)"
proof (rule read32_write32_disj)
  fix x assume "inblk (e + 4 * j) 4 x"
  then show "\<not> inblk (d + 4 * i) 4 x"
    using page_disjoint [OF assms(1,2), of x] assms(3-5) entry_page by blast
qed

lemma entry_memset:
  assumes "d mod PGSIZE = 0" "e mod PGSIZE = 0" "unat j < 1024"
  shows "read32 (memset m d 0 PGSIZE) (e + 4 * j) = (if d = e then 0 else read32 m (e + 4 * j))"
proof (cases "d = e")
  case True
  have "memset m d 0 PGSIZE x = 0" if "inblk (e + 4 * j) 4 x" for x
    using entry_page [OF assms(3) that] True by (simp add: memset_apply)
  then have "read32 (memset m d 0 PGSIZE) (e + 4 * j) = read32 (\<lambda>_. 0) (e + 4 * j)"
    by (intro read32_cong) simp
  then show ?thesis using True by (simp add: read32_def)
next
  case False
  have "memset m d 0 PGSIZE x = m x" if "inblk (e + 4 * j) 4 x" for x
    using entry_page [OF assms(3) that] page_disjoint [OF assms(1,2), of x] False
    by (auto simp: memset_apply)
  then have "read32 (memset m d 0 PGSIZE) (e + 4 * j) = read32 m (e + 4 * j)" by (rule read32_cong)
  then show ?thesis using False by simp
qed

lemma PDX_lt: "unat (PDX va) < 1024" and PTX_lt: "unat (PTX va) < 1024"
proof -
  have "x AND 0x3FF = take_bit 10 x" for x :: u32
    by (simp add: take_bit_eq_mask mask_eq_exp_minus_1)
  moreover have "unat (take_bit 10 x) < 1024" for x :: u32
    by (simp add: take_bit_eq_mod unat_mod)
  ultimately show "unat (PDX va) < 1024" "unat (PTX va) < 1024" by (simp_all add: PDX_def PTX_def)
qed

section \<open>Page tables as mappings\<close>

definition pde_of :: "memory \<Rightarrow> u32 \<Rightarrow> u32 \<Rightarrow> u32" where
  "pde_of m d i = read32 m (d + 4 * i)"

definition tab_of :: "memory \<Rightarrow> u32 \<Rightarrow> u32 \<Rightarrow> u32" where
  "tab_of m d i = P2V (PTE_ADDR (pde_of m d i))"

definition mapping :: "memory \<Rightarrow> u32 \<Rightarrow> u32 \<Rightarrow> u32 option" where
  "mapping m d va =
     (if pde_of m d (PDX va) AND PTE_P = 0 then None
      else let pte = read32 m (tab_of m d (PDX va) + 4 * PTX va) in
           if pte AND PTE_P = 0 then None else Some pte)"

definition has_tab :: "memory \<Rightarrow> u32 \<Rightarrow> u32 \<Rightarrow> bool" where
  "has_tab m d i \<longleftrightarrow> unat i < 1024 \<and> pde_of m d i AND PTE_P \<noteq> 0"

definition pt_ok :: "memory \<Rightarrow> u32 \<Rightarrow> u32 \<Rightarrow> u32 list \<Rightarrow> bool" where
  "pt_ok m e d ps \<longleftrightarrow> page_ok e d \<and> d \<notin> set ps \<and>
     (\<forall>i. has_tab m d i \<longrightarrow> page_ok e (tab_of m d i) \<and> tab_of m d i \<noteq> d \<and> tab_of m d i \<notin> set ps) \<and>
     (\<forall>i j. has_tab m d i \<longrightarrow> has_tab m d j \<longrightarrow> i \<noteq> j \<longrightarrow> tab_of m d i \<noteq> tab_of m d j)"

abbreviation vm_inv :: "'a con_st_scheme \<Rightarrow> u32 \<Rightarrow> u32 list \<Rightarrow> bool" where
  "vm_inv s d ps \<equiv> kmem_inv s ps \<and> pt_ok (mem s) (kend s) d ps"

lemma aligned_or_flags:
  assumes "(x :: u32) mod PGSIZE = 0"
  shows "PTE_ADDR (x OR PTE_P OR PTE_W OR PTE_U) = x" "(x OR PTE_P OR PTE_W OR PTE_U) AND PTE_P \<noteq> 0"
proof -
  have "take_bit 12 x = 0" using assms by (simp add: take_bit_eq_mod)
  then have lo: "\<not> bit x n" if "n < 12" for n
    using that bit_take_bit_iff [of 12 x n] by simp
  have m: "bit (mask k :: u32) n \<longleftrightarrow> n < 32 \<and> n < k" for k n
    by (simp add: bit_mask_iff possible_bit_word)
  have f: "(PTE_P OR PTE_W OR PTE_U :: u32) = mask 3" "(0xFFF :: u32) = mask 12"
    by (simp_all add: mask_eq_exp_minus_1)
  show "PTE_ADDR (x OR PTE_P OR PTE_W OR PTE_U) = x"
    unfolding PTE_ADDR_def f
    by (rule bit_word_eqI) (auto simp only: bit_and_iff bit_or_iff bit_not_iff m possible_bit_word dest: lo)
  have "bit ((x OR PTE_P OR PTE_W OR PTE_U) AND PTE_P) 0" by (simp add: bit_and_iff bit_or_iff bit_1_iff)
  moreover have "\<not> bit (0 :: u32) 0" by simp
  ultimately show "(x OR PTE_P OR PTE_W OR PTE_U) AND PTE_P \<noteq> 0" by metis
qed

lemma V2P_page: "p mod PGSIZE = 0 \<Longrightarrow> V2P p mod PGSIZE = 0"
proof -
  assume "p mod PGSIZE = 0"
  then have "unat p mod 4096 = 0" by (simp only: unat_page)
  then obtain k where k: "unat p = 4096 * k" by (auto simp: mod_eq_0_iff_dvd elim!: dvdE)
  have "unat (V2P p) = (if 524288 \<le> k then 4096 * (k - 524288) else 4096 * (k + 524288))"
    by (simp add: V2P_def unat_sub_if_size word_size k diff_mult_distrib2)
  then show ?thesis by (simp only: unat_page) simp
qed

lemma P2V_V2P [simp]: "P2V (V2P p) = p" by (simp add: P2V_def V2P_def)

lemma set_pte:
  fixes v :: u32
  assumes "pt_ok m e d ps" "has_tab m d (PDX va)"
  defines "m' \<equiv> write32 m (tab_of m d (PDX va) + 4 * PTX va) v"
  shows "unat i < 1024 \<Longrightarrow> pde_of m' d i = pde_of m d i"
    and "pt_ok m' e d ps"
    and "mapping m' d va' = (if PDX va' = PDX va \<and> PTX va' = PTX va
      then (if v AND PTE_P = 0 then None else Some v) else mapping m d va')"
    and "kmem_invP m e f ps \<Longrightarrow> kmem_invP m' e f ps"
proof -
  let ?t = "tab_of m d (PDX va)"
  have al: "d mod PGSIZE = 0" "?t mod PGSIZE = 0" "?t \<noteq> d"
    using assms(1,2) by (auto simp: pt_ok_def page_ok_def)
  have pde: "pde_of m' d i = pde_of m d i" if "unat i < 1024" for i
    using entry_write_other_page [of ?t d "PTX va" i] al PTX_lt that by (simp add: pde_of_def m'_def)
  then have tab: "tab_of m' d i = tab_of m d i" "has_tab m' d i = has_tab m d i" if "unat i < 1024" for i
    using that by (simp_all add: tab_of_def has_tab_def)
  show "unat i < 1024 \<Longrightarrow> pde_of m' d i = pde_of m d i" by (rule pde)
  have "has_tab m d i \<Longrightarrow> unat i < 1024" "has_tab m' d i \<Longrightarrow> unat i < 1024" for i
    by (auto simp: has_tab_def)
  then show "pt_ok m' e d ps" using assms(1) tab unfolding pt_ok_def by metis
  show "mapping m' d va' = (if PDX va' = PDX va \<and> PTX va' = PTX va
      then (if v AND PTE_P = 0 then None else Some v) else mapping m d va')"
  proof (cases "has_tab m d (PDX va')")
    case False
    then show ?thesis
      using assms(2) pde [OF PDX_lt] PDX_lt by (auto simp: mapping_def has_tab_def)
  next
    case True
    have "read32 m' (tab_of m d (PDX va') + 4 * PTX va') =
      (if PDX va' = PDX va \<and> PTX va' = PTX va then v else read32 m (tab_of m d (PDX va') + 4 * PTX va'))"
    proof (cases "PDX va' = PDX va")
      case True
      then show ?thesis using entry_write_same_page [OF PTX_lt PTX_lt] by (auto simp: m'_def)
    next
      case False
      then have "?t \<noteq> tab_of m d (PDX va')" "tab_of m d (PDX va') mod PGSIZE = 0"
        using assms(1,2) True by (auto simp: pt_ok_def page_ok_def)
      then show ?thesis
        using entry_write_other_page [OF al(2) _ _ PTX_lt PTX_lt] False by (simp add: m'_def)
    qed
    moreover have "mapping n d va' = (let pte = read32 n (tab_of m d (PDX va') + 4 * PTX va') in
        if pte AND PTE_P = 0 then None else Some pte)" if "n = m \<or> n = m'" for n
      using that True pde [OF PDX_lt, of va'] tab(1) [OF PDX_lt, of va'] by (auto simp: mapping_def has_tab_def)
    ultimately show ?thesis
      by (cases "PDX va' = PDX va \<and> PTX va' = PTX va") (simp_all only: Let_def if_True if_False simp_thms)
  qed
  assume k: "kmem_invP m e f ps"
  have "m x = m' x" if "p \<in> set ps" "inblk p 4096 x" for p x
  proof -
    have "p mod PGSIZE = 0" "p \<noteq> ?t"
      using k assms(1,2) that(1) by (auto simp: kmem_invP_def page_ok_def pt_ok_def)
    then have "\<not> inblk ?t 4096 x" using page_disjoint [OF _ al(2) that(2)] by metis
    then have "\<not> inblk (?t + 4 * PTX va) 4 x" using entry_page [OF PTX_lt] by blast
    then show ?thesis by (simp add: m'_def write32_other)
  qed
  then show "kmem_invP m' e f ps" using k kmem_invP_cong [of ps m m'] by blast
qed

lemma new_tab:
  assumes "pt_ok m e d (p # ps)" "kmem_invP m e g (p # ps)" "\<not> has_tab m d i" "unat i < 1024"
  defines "m' \<equiv> write32 (memset m p 0 PGSIZE) (d + 4 * i) (V2P p OR PTE_P OR PTE_W OR PTE_U)"
  shows "tab_of m' d i = p" "has_tab m' d i" "pt_ok m' e d ps" "mapping m' d = mapping m d"
    "kmem_invP m e f ps \<Longrightarrow> kmem_invP m' e f ps"
proof -
  have al: "d mod PGSIZE = 0" "p mod PGSIZE = 0" "p \<noteq> d" "page_ok e p" "p \<notin> set ps"
    using assms(1,2) by (auto simp: pt_ok_def page_ok_def kmem_invP_def)
  have pde: "pde_of m' d j = (if j = i then V2P p OR PTE_P OR PTE_W OR PTE_U else pde_of m d j)"
    if "unat j < 1024" for j
    using entry_write_same_page [OF assms(4) that] entry_memset [OF al(2,1) that] al(3)
    by (simp only: m'_def pde_of_def split: if_split) simp
  note fl = aligned_or_flags [OF V2P_page [OF al(2)]]
  show tabi: "tab_of m' d i = p" by (simp only: tab_of_def pde [OF assms(4)] fl if_True P2V_V2P simp_thms)
  show hasi: "has_tab m' d i" using fl(2) by (simp only: has_tab_def pde [OF assms(4)] if_True assms(4) simp_thms)
  have tab: "tab_of m' d j = tab_of m d j" "has_tab m' d j = has_tab m d j" if "unat j < 1024" "j \<noteq> i" for j
    using pde [OF that(1)] that by (simp_all add: tab_of_def has_tab_def)
  have dom: "has_tab n d j \<Longrightarrow> unat j < 1024" for n j by (simp add: has_tab_def)
  have old: "page_ok e (tab_of m d j)" "tab_of m d j \<noteq> d" "tab_of m d j \<noteq> p" "tab_of m d j \<notin> set ps"
    "j \<noteq> k \<Longrightarrow> has_tab m d k \<Longrightarrow> tab_of m d j \<noteq> tab_of m d k"
    if "has_tab m d j" for j k
    using assms(1) that by (auto simp: pt_ok_def)
  have cases: "j = i \<and> tab_of m' d j = p \<or> j \<noteq> i \<and> has_tab m d j \<and> tab_of m' d j = tab_of m d j"
    if "has_tab m' d j" for j
    using tab [OF dom [OF that]] that tabi by blast
  show "pt_ok m' e d ps"
    unfolding pt_ok_def
  proof (intro conjI allI impI)
    show "page_ok e d" "d \<notin> set ps" using assms(1) by (simp_all add: pt_ok_def)
    fix j assume "has_tab m' d j"
    from cases [OF this] show "page_ok e (tab_of m' d j)" "tab_of m' d j \<noteq> d" "tab_of m' d j \<notin> set ps"
      using old(1,2,4) al by auto
  next
    fix j k assume "has_tab m' d j" "has_tab m' d k" "j \<noteq> k"
    then show "tab_of m' d j \<noteq> tab_of m' d k" using cases old(3,5) by metis
  qed
  show "mapping m' d = mapping m d"
  proof
    fix va
    show "mapping m' d va = mapping m d va"
    proof (cases "PDX va = i")
      case True
      have "read32 m' (p + 4 * PTX va) = 0"
        using entry_write_other_page [OF al(1,2) _ assms(4) PTX_lt] entry_memset [OF al(2,2) PTX_lt] al(3)
        by (simp add: m'_def)
      then show ?thesis using True tabi assms(3,4) by (simp add: mapping_def has_tab_def)
    next
      case False
      have "read32 m' (tab_of m d (PDX va) + 4 * PTX va) = read32 m (tab_of m d (PDX va) + 4 * PTX va)"
        if "has_tab m d (PDX va)"
        using entry_write_other_page [OF al(1) _ _ assms(4) PTX_lt] entry_memset [OF al(2) _ PTX_lt]
          old(1-3) [OF that] by (simp add: m'_def page_ok_def)
      then show ?thesis
        using False pde [OF PDX_lt, of va] tab [OF PDX_lt, of va] PDX_lt [of va]
        by (auto simp: mapping_def has_tab_def Let_def)
    qed
  qed
  assume k: "kmem_invP m e f ps"
  have "m x = m' x" if "q \<in> set ps" "inblk q 4096 x" for q x
  proof -
    have "q mod PGSIZE = 0" "q \<noteq> p" "q \<noteq> d"
      using k assms(1) that(1) al(5) by (auto simp: kmem_invP_def page_ok_def pt_ok_def)
    then have "\<not> inblk p 4096 x" "\<not> inblk d 4096 x"
      using page_disjoint [OF _ al(2) that(2)] page_disjoint [OF _ al(1) that(2)] by metis+
    moreover from this have "\<not> inblk (d + 4 * i) 4 x" using entry_page [OF assms(4)] by blast
    ultimately show ?thesis by (simp add: m'_def write32_other memset_apply)
  qed
  then show "kmem_invP m' e f ps" using k kmem_invP_cong [of ps m m'] by blast
qed

lemma same_page: "PDX va' = PDX va \<and> PTX va' = PTX va \<longleftrightarrow> PGROUNDDOWN va' = PGROUNDDOWN va"
proof -
  have m: "bit (mask k :: u32) n \<longleftrightarrow> n < 32 \<and> n < k" for k n
    by (simp add: bit_mask_iff possible_bit_word)
  have k: "(0x3FF :: u32) = mask 10" "PGSIZE - 1 = (mask 12 :: u32)" by (simp_all add: mask_eq_exp_minus_1)
  have D: "bit (PDX x) n \<longleftrightarrow> n < 10 \<and> bit x (22 + n)" and T: "bit (PTX x) n \<longleftrightarrow> n < 10 \<and> bit x (12 + n)" for x n
    unfolding PDX_def PTX_def k by (auto simp only: bit_and_iff bit_drop_bit_eq m o_apply)
  have R: "bit (PGROUNDDOWN x) n \<longleftrightarrow> 12 \<le> n \<and> bit x n" for x n
    unfolding PGROUNDDOWN_def k by (auto simp only: bit_and_iff bit_not_iff m possible_bit_word dest: bit_imp_le_length)
  show ?thesis
  proof
    assume e: "PDX va' = PDX va \<and> PTX va' = PTX va"
    have "bit va' n = bit va n" if "12 \<le> n" "n < 32" for n
    proof (cases "n < 22")
      case True
      then have "n - 12 < 10" "12 + (n - 12) = n" using that by simp_all
      then show ?thesis using T [of va' "n - 12"] T [of va "n - 12"] e by metis
    next
      case False
      then have "n - 22 < 10" "22 + (n - 22) = n" using that by simp_all
      then show ?thesis using D [of va' "n - 22"] D [of va "n - 22"] e by metis
    qed
    then show "PGROUNDDOWN va' = PGROUNDDOWN va" by (intro bit_word_eqI) (auto simp: R)
  next
    assume e: "PGROUNDDOWN va' = PGROUNDDOWN va"
    have "bit va' n = bit va n" if "12 \<le> n" for n using R [of va' n] R [of va n] that e by simp
    then show "PDX va' = PDX va \<and> PTX va' = PTX va" by (auto intro!: bit_word_eqI simp: D T)
  qed
qed

lemma entry_nonzero: "page_ok e p \<Longrightarrow> unat i < 1024 \<Longrightarrow> p + 4 * i \<noteq> 0"
proof -
  assume h: "page_ok e p" "unat i < 1024"
  have "inblk p 4096 (p + 4 * i)" using entry_page [OF h(2), where d = p and x = "p + 4 * i"] by simp
  moreover have "p mod PGSIZE = 0" "p \<noteq> 0" using h(1) page_ok_nonzero [OF h(1)] by (simp_all add: page_ok_def)
  ultimately show "p + 4 * i \<noteq> 0" using page_disjoint [of p 0 0] by (metis diff_zero mod_0 unat_0 zero_less_numeral)
qed

lemma walk_alloc_ok:
  assumes "crit L s" "KmemLock \<notin> set L" "vm_inv s d ps"
  shows "\<exists>r s' ps'. walkpgdir d va True s = Inr (r, s') \<and> kmem_frame L s s' \<and> vm_inv s' d ps' \<and>
    set ps' \<subseteq> set ps \<and> mapping (mem s') d = mapping (mem s) d \<and>
    (if r = 0 then ps' = []
     else has_tab (mem s') d (PDX va) \<and> r = tab_of (mem s') d (PDX va) + 4 * PTX va)"
proof (cases "has_tab (mem s) d (PDX va)")
  case True
  then have "walkpgdir d va True s = Inr (tab_of (mem s) d (PDX va) + 4 * PTX va, s)"
    by (simp add: walkpgdir_def has_tab_def pde_of_def tab_of_def)
  moreover have "tab_of (mem s) d (PDX va) + 4 * PTX va \<noteq> 0"
    using True assms(3) entry_nonzero [OF _ PTX_lt] by (auto simp: pt_ok_def)
  ultimately show ?thesis using assms True by (intro exI conjI) auto
next
  case False
  then have np: "\<not> read32 (mem s) (d + 4 * PDX va) AND PTE_P \<noteq> 0"
    using PDX_lt by (simp add: has_tab_def pde_of_def)
  obtain s1 where s1: "kalloc s = Inr (case ps of [] \<Rightarrow> 0 | p # _ \<Rightarrow> p, s1)" "mem s1 = mem s"
    "kmem_inv s1 (tl ps)" "kmem_frame L s s1"
    using kalloc_ok [OF assms(1,2) conjunct1 [OF assms(3)]] by blast
  show ?thesis
  proof (cases ps)
    case Nil
    then have "walkpgdir d va True s = Inr (0, s1)" using np s1(1) by (simp add: walkpgdir_def)
    then show ?thesis using s1 assms(3) Nil by (intro exI [of _ 0] exI [of _ s1] exI [of _ "[]"]) simp
  next
    case (Cons p qs)
    have p: "page_ok (kend s) p" using assms(3) Cons by (simp add: kmem_invP_def)
    let ?m = "write32 (memset (mem s) p 0 PGSIZE) (d + 4 * PDX va) (V2P p OR PTE_P OR PTE_W OR PTE_U)"
    have w: "walkpgdir d va True s = Inr (p + 4 * PTX va, s1\<lparr>mem := ?m\<rparr>)"
      using np s1(1,2) Cons page_ok_nonzero [OF p] by (simp add: walkpgdir_def Let_def)
    note nt = new_tab [OF _ _ False PDX_lt, of "kend s" p qs "freelist s", folded Cons]
    have nt': "tab_of ?m d (PDX va) = p" "has_tab ?m d (PDX va)" "pt_ok ?m (kend s) d qs"
      "mapping ?m d = mapping (mem s) d" "kmem_invP ?m (kend s) (freelist s1) qs"
      using nt assms(3) s1(2,3,4) Cons by auto
    show ?thesis
      using w nt' s1(4) Cons entry_nonzero [OF p PTX_lt]
      by (intro exI [of _ "p + 4 * PTX va"] exI [of _ "s1\<lparr>mem := ?m\<rparr>"] exI [of _ qs]) auto
  qed
qed

section \<open>Mapping a range of pages\<close>

lemma unat_mul4096: "k < 1048576 \<Longrightarrow> unat (4096 * of_nat k :: u32) = 4096 * k"
  using unat_of_nat_u32 [of "4096 * k"] by simp

lemma PGROUNDDOWN_page: "PGROUNDDOWN va mod PGSIZE = 0" "a mod PGSIZE = 0 \<Longrightarrow> PGROUNDDOWN a = a"
proof -
  have d: "PGROUNDDOWN va = va div PGSIZE * PGSIZE" for va
    using and_not_4095 [of va] by (simp add: PGROUNDDOWN_def)
  have "unat (PGROUNDDOWN va) = unat va div 4096 * 4096"
    using unat_u32_less [of va] by (simp add: d unat_word_ariths unat_div)
  then show "PGROUNDDOWN va mod PGSIZE = 0" by (simp only: unat_page) simp
  assume "a mod PGSIZE = 0"
  then show "PGROUNDDOWN a = a" using PGROUNDDOWN_mod [of a] by simp
qed

lemma page_diff:
  assumes "(a :: u32) mod PGSIZE = 0" "b mod PGSIZE = 0"
  shows "\<exists>j < 1048576. b = a + 4096 * of_nat j"
proof -
  have "unat a mod 4096 = 0" "unat b mod 4096 = 0" using assms by (simp_all only: unat_page)
  then obtain k l where k: "unat a = 4096 * k" "unat b = 4096 * l"
    by (auto simp: mod_eq_0_iff_dvd elim!: dvdE)
  then have w: "a = 4096 * of_nat k" "b = 4096 * of_nat l"
  proof -
    have "a = of_nat (unat a)" "b = of_nat (unat b)" by simp_all
    then show "a = 4096 * of_nat k" "b = 4096 * of_nat l"
      by (simp_all only: k of_nat_mult of_nat_numeral)
  qed
  let ?j = "(l + (1048576 - k)) mod 1048576"
  have kl: "k < 1048576" "l < 1048576" using k unat_u32_less [of a] unat_u32_less [of b] by simp_all
  have "a + 4096 * of_nat ?j = b"
  proof (cases "k \<le> l")
    case True
    then have "?j = l - k" using kl by (simp add: mod_if)
    then show ?thesis using True w by (simp add: of_nat_diff algebra_simps)
  next
    case False
    then have "?j = l + 1048576 - k" using kl by simp
    then have "4096 * of_nat ?j = 4096 * of_nat l + (4294967296 :: u32) - 4096 * of_nat k"
      using False kl by (simp add: of_nat_diff algebra_simps)
    then show ?thesis using w by simp
  qed
  then show ?thesis by (intro exI [of _ ?j]) simp
qed

lemma or_P: "(x OR y OR PTE_P) AND PTE_P \<noteq> (0 :: u32)"
proof -
  have "bit ((x OR y OR PTE_P) AND PTE_P) 0" by (simp add: bit_and_iff bit_or_iff bit_1_iff)
  moreover have "\<not> bit (0 :: u32) 0" by simp
  ultimately show ?thesis by metis
qed

lemma map_one:
  assumes "crit L s" "KmemLock \<notin> set L" "vm_inv s d ps" "a mod PGSIZE = 0" "mapping (mem s) d a = None"
  shows "\<exists>s1 ps1. kmem_frame L s s1 \<and> vm_inv s1 d ps1 \<and> set ps1 \<subseteq> set ps \<and>
    (ps1 = [] \<and> map_loop (Suc n) d a lst pa pm s = Inr (- 1, s1) \<or>
     map_loop (Suc n) d a lst pa pm s =
       (if a = lst then Inr (0, s1) else map_loop n d (a + PGSIZE) lst (pa + PGSIZE) pm s1) \<and>
     mapping (mem s1) d =
       (\<lambda>va. if PGROUNDDOWN va = a then Some (pa OR pm OR PTE_P) else mapping (mem s) d va))"
proof -
  obtain r s1 ps1 where w: "walkpgdir d a True s = Inr (r, s1)" "kmem_frame L s s1" "vm_inv s1 d ps1"
    "set ps1 \<subseteq> set ps" "mapping (mem s1) d = mapping (mem s) d"
    "if r = 0 then ps1 = [] else has_tab (mem s1) d (PDX a) \<and> r = tab_of (mem s1) d (PDX a) + 4 * PTX a"
    using walk_alloc_ok [OF assms(1-3), of a] by blast
  show ?thesis
  proof (cases "r = 0")
    case True
    then show ?thesis using w by (intro exI [of _ s1] exI [of _ ps1]) simp
  next
    case False
    then have h: "has_tab (mem s1) d (PDX a)" and r: "r = tab_of (mem s1) d (PDX a) + 4 * PTX a"
      using w(6) by simp_all
    have np: "read32 (mem s1) r AND PTE_P = 0"
    proof -
      have "mapping (mem s1) d a = None" using assms(5) by (simp only: w(5))
      then show ?thesis using h by (auto simp: mapping_def has_tab_def r Let_def split: if_splits)
    qed
    let ?v = "pa OR pm OR PTE_P"
    let ?s2 = "s1\<lparr>mem := write32 (mem s1) r ?v\<rparr>"
    note sp = set_pte [OF conjunct2 [OF w(3)] h, where v = ?v, folded r]
    have vm: "vm_inv ?s2 d ps1" using sp(2) sp(4) [OF conjunct1 [OF w(3)]] by simp
    have "map_loop (Suc n) d a lst pa pm s =
        (if a = lst then Inr (0, ?s2) else map_loop n d (a + PGSIZE) lst (pa + PGSIZE) pm ?s2)"
      using w(1) False np by (simp add: Let_def)
    moreover have "mapping (mem ?s2) d va = (if PGROUNDDOWN va = a then Some ?v else mapping (mem s) d va)" for va
    proof -
      have e: "PDX va = PDX a \<and> PTX va = PTX a \<longleftrightarrow> PGROUNDDOWN va = a"
        using same_page [of va a] PGROUNDDOWN_page(2) [OF assms(4)] by simp
      have "mapping (mem ?s2) d va = (if PDX va = PDX a \<and> PTX va = PTX a
          then (if ?v AND PTE_P = 0 then None else Some ?v) else mapping (mem s1) d va)"
        using sp(3) [of va] by simp
      then show ?thesis using or_P [of pa pm] by (simp only: e w(5) if_False)
    qed
    ultimately show ?thesis
      using w(2,4) vm by (intro exI [of _ ?s2] exI [of _ ps1]) auto
  qed
qed

definition range_map :: "u32 \<Rightarrow> nat \<Rightarrow> u32 \<Rightarrow> u32 \<Rightarrow> (u32 \<Rightarrow> u32 option) \<Rightarrow> u32 \<Rightarrow> u32 option" where
  "range_map a k pa pm f va =
     (if unat (PGROUNDDOWN va - a) \<le> 4096 * k then Some ((pa + (PGROUNDDOWN va - a)) OR pm OR PTE_P) else f va)"

lemma range_map_0: "range_map a 0 pa pm f = (\<lambda>va. if PGROUNDDOWN va = a then Some (pa OR pm OR PTE_P) else f va)"
  by (rule ext) (auto simp: range_map_def unat_eq_0)

lemma range_map_Suc:
  assumes "a mod PGSIZE = 0" "Suc k < 1048576"
  shows "range_map (a + PGSIZE) k (pa + PGSIZE) pm
    (\<lambda>va. if PGROUNDDOWN va = a then Some (pa OR pm OR PTE_P) else f va) = range_map a (Suc k) pa pm f"
proof
  fix va
  obtain j where j: "j < 1048576" "PGROUNDDOWN va = a + 4096 * of_nat j"
    using page_diff [OF assms(1) PGROUNDDOWN_page(1)] by blast
  have 1: "unat (PGROUNDDOWN va - a) = 4096 * j" using unat_mul4096 [OF j(1)] by (simp add: j(2))
  show "range_map (a + PGSIZE) k (pa + PGSIZE) pm
    (\<lambda>va. if PGROUNDDOWN va = a then Some (pa OR pm OR PTE_P) else f va) va = range_map a (Suc k) pa pm f va"
  proof (cases j)
    case 0
    then have "PGROUNDDOWN va = a" using j(2) by simp
    moreover have "\<not> unat (a - (a + PGSIZE)) \<le> 4096 * k"
      using assms(2) by (simp add: unat_bintrunc_neg take_bit_eq_mod)
    ultimately show ?thesis by (simp add: range_map_def)
  next
    case (Suc i)
    then have e: "PGROUNDDOWN va - (a + PGSIZE) = 4096 * of_nat i" using j(2) by (simp add: algebra_simps)
    then have 2: "unat (PGROUNDDOWN va - (a + PGSIZE)) = 4096 * i" using unat_mul4096 [of i] j(1) Suc by simp
    have 3: "PGROUNDDOWN va \<noteq> a" using 1 Suc by auto
    have "pa + PGSIZE + (PGROUNDDOWN va - (a + PGSIZE)) = pa + (PGROUNDDOWN va - a)" by (simp add: algebra_simps)
    then show ?thesis unfolding range_map_def 1 2 using 3 Suc by simp
  qed
qed

lemma aligned_add:
  assumes "(a :: u32) mod PGSIZE = 0"
  shows "(a + 4096 * x) mod PGSIZE = 0"
proof -
  have "unat a mod 4096 = 0" using assms by (simp only: unat_page)
  then obtain k where "unat a = 4096 * k" by (auto simp: mod_eq_0_iff_dvd elim!: dvdE)
  moreover have "4096 * unat x mod 4294967296 = 4096 * (unat x mod 1048576)"
    using mult_mod_right [of 4096 "unat x" 1048576] by simp
  ultimately have e: "unat a + 4096 * unat x mod 4294967296 = 4096 * (k + unat x mod 1048576)"
    by (simp only: distrib_left)
  have "(unat a + 4096 * unat x mod 4294967296) mod 4294967296 mod 4096 = 0"
    unfolding e by (subst mod_mod_cancel) simp_all
  then show ?thesis by (simp only: unat_page) (simp add: unat_word_ariths)
qed

lemma map_loop_ok:
  assumes "crit L s" "KmemLock \<notin> set L" "vm_inv s d ps" "a mod PGSIZE = 0" "k < 1048576" "k < n"
    and "\<And>j. j \<le> k \<Longrightarrow> mapping (mem s) d (a + 4096 * of_nat j) = None"
  shows "\<exists>r s' ps'. map_loop n d a (a + 4096 * of_nat k) pa pm s = Inr (r, s') \<and> kmem_frame L s s' \<and>
    vm_inv s' d ps' \<and> set ps' \<subseteq> set ps \<and>
    (r = 0 \<and> mapping (mem s') d = range_map a k pa pm (mapping (mem s) d) \<or> r = - 1 \<and> ps' = [])"
  using assms
proof (induction k arbitrary: n a pa s ps)
  case 0
  obtain n' where n: "n = Suc n'" using 0(6) by (cases n) auto
  have m: "mapping (mem s) d a = None" using 0(7) [of 0] by simp
  obtain s1 ps1 where "kmem_frame L s s1" "vm_inv s1 d ps1" "set ps1 \<subseteq> set ps"
    "ps1 = [] \<and> map_loop n d a a pa pm s = Inr (- 1, s1) \<or> map_loop n d a a pa pm s = Inr (0, s1) \<and>
      mapping (mem s1) d = range_map a 0 pa pm (mapping (mem s) d)"
  proof -
    obtain s1 ps1 where "kmem_frame L s s1" "vm_inv s1 d ps1" "set ps1 \<subseteq> set ps"
      "ps1 = [] \<and> map_loop (Suc n') d a a pa pm s = Inr (- 1, s1) \<or>
       map_loop (Suc n') d a a pa pm s =
         (if a = a then Inr (0, s1) else map_loop n' d (a + PGSIZE) a (pa + PGSIZE) pm s1) \<and>
       mapping (mem s1) d = (\<lambda>va. if PGROUNDDOWN va = a then Some (pa OR pm OR PTE_P) else mapping (mem s) d va)"
      using map_one [OF 0(1-4) m, of n' a pa pm] by blast
    then show ?thesis using that unfolding n range_map_0 by simp
  qed
  moreover have e: "a + 4096 * of_nat 0 = a" by simp
  ultimately show ?case unfolding e by blast
next
  case (Suc k)
  obtain n' where n: "n = Suc n'" using Suc.prems(6) by (cases n) auto
  let ?lst = "a + 4096 * of_nat (Suc k)"
  have lst: "?lst = a + PGSIZE + 4096 * of_nat k" by (simp add: algebra_simps)
  have off: "a + 4096 * of_nat (Suc j) \<noteq> a" if "j \<le> k" for j
    using unat_mul4096 [of "Suc j"] that Suc.prems(5) by auto
  have al: "(a + 4096 * of_nat j) mod PGSIZE = 0" for j using aligned_add [OF Suc.prems(4)] by simp
  have m: "mapping (mem s) d a = None" using Suc.prems(7) [of 0] by simp
  obtain s1 ps1 where s1: "kmem_frame L s s1" "vm_inv s1 d ps1" "set ps1 \<subseteq> set ps"
    "ps1 = [] \<and> map_loop n d a ?lst pa pm s = Inr (- 1, s1) \<or>
     map_loop n d a ?lst pa pm s = map_loop n' d (a + PGSIZE) ?lst (pa + PGSIZE) pm s1 \<and>
      mapping (mem s1) d = (\<lambda>va. if PGROUNDDOWN va = a then Some (pa OR pm OR PTE_P) else mapping (mem s) d va)"
    using map_one [OF Suc.prems(1-4) m, of n' ?lst pa pm] off [of k] unfolding n by auto
  from s1(4) show ?case
  proof
    assume "ps1 = [] \<and> map_loop n d a ?lst pa pm s = Inr (- 1, s1)"
    then show ?thesis using s1(1-3) by blast
  next
    assume st: "map_loop n d a ?lst pa pm s = map_loop n' d (a + PGSIZE) ?lst (pa + PGSIZE) pm s1 \<and>
      mapping (mem s1) d = (\<lambda>va. if PGROUNDDOWN va = a then Some (pa OR pm OR PTE_P) else mapping (mem s) d va)"
    have un: "mapping (mem s1) d (a + PGSIZE + 4096 * of_nat j) = None" if "j \<le> k" for j
    proof -
      have e: "a + PGSIZE + 4096 * of_nat j = a + 4096 * of_nat (Suc j)" by (simp add: algebra_simps)
      show ?thesis
        unfolding e conjunct2 [OF st] PGROUNDDOWN_page(2) [OF al]
        using off [OF that] Suc.prems(7) [of "Suc j"] that by simp
    qed
    have c1: "crit L s1" using s1(1) by simp
    have a1: "(a + PGSIZE) mod PGSIZE = 0" using al [of 1] by simp
    obtain r s2 ps2 where IH: "map_loop n' d (a + PGSIZE) (a + PGSIZE + 4096 * of_nat k) (pa + PGSIZE) pm s1 = Inr (r, s2)"
      "kmem_frame L s1 s2" "vm_inv s2 d ps2" "set ps2 \<subseteq> set ps1"
      "r = 0 \<and> mapping (mem s2) d = range_map (a + PGSIZE) k (pa + PGSIZE) pm (mapping (mem s1) d) \<or> r = - 1 \<and> ps2 = []"
      using Suc.IH [OF c1 Suc.prems(2) s1(2) a1 _ _ un, of n'] Suc.prems(5,6) n by fastforce
    have "range_map (a + PGSIZE) k (pa + PGSIZE) pm (mapping (mem s1) d) = range_map a (Suc k) pa pm (mapping (mem s) d)"
      unfolding conjunct2 [OF st] by (rule range_map_Suc [OF Suc.prems(4,5)])
    then show ?thesis
      using IH s1(1,3) st unfolding lst by (intro exI [of _ r] exI [of _ s2] exI [of _ ps2]) auto
  qed
qed

section \<open>Claims\<close>

text \<open>
  C8: \<open>mappages\<close> of a range whose pages are unmapped never panics: it either maps every page of the
  range to consecutive physical pages with the given permissions and changes no other translation, or
  fails having emptied the free list. Either way the page tables stay well formed (tables in distinct
  allocated pages, none of them free), the allocator's list stays a list of free pages and no other
  kernel state changes.
\<close>

theorem mappages_maps:
  assumes "crit L s" "KmemLock \<notin> set L" "vm_inv s d ps" "k < 1048576"
    and "PGROUNDDOWN (va + sz - 1) = PGROUNDDOWN va + 4096 * of_nat k"
    and "\<And>j. j \<le> k \<Longrightarrow> mapping (mem s) d (PGROUNDDOWN va + 4096 * of_nat j) = None"
  shows "\<exists>r s' ps'. mappages d va sz pa pm s = Inr (r, s') \<and> kmem_frame L s s' \<and>
    vm_inv s' d ps' \<and> set ps' \<subseteq> set ps \<and>
    (r = 0 \<and> mapping (mem s') d = range_map (PGROUNDDOWN va) k pa pm (mapping (mem s) d) \<or>
     r = - 1 \<and> ps' = [])"
proof -
  have "k < NPAGES" using assms(4) by simp
  from map_loop_ok [OF assms(1-3) PGROUNDDOWN_page(1) assms(4) this assms(6)] show ?thesis
    unfolding mappages_def assms(5) .
qed

text \<open>
  C9: \<open>uva2ka\<close> on an address whose page directory entry is absent dereferences the null pointer
  \<open>walkpgdir\<close> returned, instead of reporting that the address is not mapped; where there is a page
  table it returns the page's kernel address for a present user page and null otherwise.
\<close>

theorem uva2ka_null_deref:
  assumes "pt_ok (mem s) (kend s) d ps"
  shows "uva2ka d va s =
    (if has_tab (mem s) d (PDX va)
     then Inr (case mapping (mem s) d va of
         Some pte \<Rightarrow> if pte AND PTE_U = 0 then 0 else P2V (PTE_ADDR pte) | None \<Rightarrow> 0)
     else Inl Fault)"
proof (cases "has_tab (mem s) d (PDX va)")
  case True
  have "tab_of (mem s) d (PDX va) + 4 * PTX va \<noteq> 0"
    using True assms entry_nonzero [OF _ PTX_lt] by (auto simp: pt_ok_def)
  then show ?thesis
    using True by (simp add: uva2ka_def walkpgdir_def mapping_def has_tab_def pde_of_def tab_of_def Let_def)
next
  case False
  then show ?thesis
    using PDX_lt by (simp add: uva2ka_def walkpgdir_def has_tab_def pde_of_def)
qed

definition ex_dir :: u32 where
  "ex_dir = 0x80202000"

definition ex_vm :: con_st where
  "ex_vm = ex_con\<lparr>mem := memset (mem ex_con) ex_dir 0 PGSIZE\<rparr>"

lemma ex_vm_inv: "vm_inv ex_vm ex_dir [0x80200000, 0x80201000]" "\<not> has_tab (mem ex_vm) ex_dir i" "crit [] ex_vm"
proof -
  have p: "page_ok (kend ex_vm) p" if "p \<in> {0x80200000, 0x80201000, ex_dir}" for p
    using that by (auto simp: ex_vm_def ex_con_def kmem_st.defs ex_dir_def page_ok_def V2P_def)
  show n: "\<not> has_tab (mem ex_vm) ex_dir i" for i
    using entry_memset [of ex_dir ex_dir i] by (auto simp: has_tab_def pde_of_def ex_vm_def ex_dir_def)
  have "kmem_inv ex_kmem [0x80200000, 0x80201000]" by (rule ex_kmem_inv)
  then have "kmem_invP (mem ex_vm) (kend ex_vm) (freelist ex_vm) [0x80200000, 0x80201000]"
  proof -
    have "mem ex_kmem x = mem ex_vm x" if "q \<in> set [0x80200000, 0x80201000]" "inblk q 4096 x" for q x
      using page_disjoint [of q ex_dir x] that
      by (auto simp: ex_vm_def ex_con_def kmem_st.defs ex_dir_def memset_apply)
    then have "kmem_inv ex_kmem [0x80200000, 0x80201000] =
        kmem_invP (mem ex_vm) (kend ex_kmem) (freelist ex_kmem) [0x80200000, 0x80201000]"
      by (rule kmem_invP_cong)
    then show ?thesis using ex_kmem_inv by (simp add: ex_vm_def ex_con_def kmem_st.defs)
  qed
  then show "vm_inv ex_vm ex_dir [0x80200000, 0x80201000]"
    using n p by (auto simp: pt_ok_def ex_dir_def)
  show "crit [] ex_vm" by (simp add: ex_vm_def)
qed

theorem mappages_maps_witness:
  "\<exists>r s' ps'. mappages ex_dir 0x1000 0x2000 0 PTE_W ex_vm = Inr (r, s') \<and>
    vm_inv s' ex_dir ps' \<and>
    (r = 0 \<and> mapping (mem s') ex_dir = range_map 0x1000 1 0 PTE_W (mapping (mem ex_vm) ex_dir) \<or>
     r = - 1 \<and> ps' = [])"
proof -
  have a: "PGROUNDDOWN 0x1000 = 0x1000" "PGROUNDDOWN (0x1000 + 0x2000 - 1) = 0x2000"
    by (simp_all add: PGROUNDDOWN_def)
  have m: "mapping (mem ex_vm) ex_dir va = None" for va
    using ex_vm_inv(2) PDX_lt by (auto simp: mapping_def has_tab_def)
  have "\<exists>r s' ps'. mappages ex_dir 0x1000 0x2000 0 PTE_W ex_vm = Inr (r, s') \<and> kmem_frame [] ex_vm s' \<and>
    vm_inv s' ex_dir ps' \<and> set ps' \<subseteq> set [0x80200000, 0x80201000] \<and>
    (r = 0 \<and> mapping (mem s') ex_dir = range_map (PGROUNDDOWN 0x1000) 1 0 PTE_W (mapping (mem ex_vm) ex_dir) \<or>
     r = - 1 \<and> ps' = [])"
    by (rule mappages_maps [OF ex_vm_inv(3) _ ex_vm_inv(1)]) (unfold a, simp_all add: m)
  then show ?thesis unfolding a by blast
qed

theorem uva2ka_null_deref_witness:
  "pt_ok (mem ex_vm) (kend ex_vm) ex_dir [0x80200000, 0x80201000] \<and> uva2ka ex_dir 0x1000 ex_vm = Inl Fault"
  using uva2ka_null_deref [OF conjunct2 [OF ex_vm_inv(1)], of "0x1000"] ex_vm_inv(1,2) by simp

end
