(* ===== verification/Proc.thy ===== *)
theory Proc
  imports Vm
begin

text \<open>
  \<open>proc.c\<close> and \<open>proc.h\<close>: the process table and the operations on it that need no file system;
  \<open>fork\<close>, \<open>exit\<close>, \<open>wait\<close>, \<open>growproc\<close> and \<open>userinit\<close> come later, over the file layers. Processes are
  indices into \<open>ptable\<close>. A call that switches to the scheduler is two halves, up to \<open>swtch\<close> and from
  it: \<open>sched_out\<close> and \<open>sched_in\<close>, \<open>sleep_out\<close> and \<open>sleep_in\<close>, \<open>yield_out\<close> and \<open>yield_in\<close>; inside a
  longer operation \<open>sleep\<close> is the result \<open>Sleep ch\<close>.
\<close>

section \<open>State\<close>

datatype procstate = UNUSED | EMBRYO | SLEEPING | RUNNABLE | RUNNING | ZOMBIE

record proc =
  p_sz :: u32
  p_pgdir :: u32
  p_kstack :: u32
  p_state :: procstate
  p_pid :: int
  p_parent :: "nat option"
  p_tf :: u32
  p_context :: u32
  p_chan :: "chan option"
  p_killed :: int
  p_ofile :: "nat option list"
  p_cwd :: "nat option"
  p_name :: string

record proc_st = vm_st +
  ptable :: "proc list"
  initproc :: "nat option"
  nextpid :: int
  trapret :: u32
  forkret :: u32

definition proc_upd :: "nat \<Rightarrow> (proc \<Rightarrow> proc) \<Rightarrow> 'a proc_st_scheme \<Rightarrow> 'a proc_st_scheme" where
  "proc_upd i f s = s\<lparr>ptable := (ptable s)[i := f (ptable s ! i)]\<rparr>"

section \<open>Operations\<close>

definition pinit :: "'a hw_scheme \<Rightarrow> 'a hw_scheme" where
  "pinit s = initlock PtableLock ''ptable'' s"

definition cpuid :: "'a hw_scheme \<Rightarrow> nat kres" where
  "cpuid s = mycpu s"

definition myproc :: "'a hw_scheme \<Rightarrow> (nat option \<times> 'a hw_scheme) kres" where
  "myproc s =
     bindE (pushcli s) (\<lambda>s.
     bindE (mycpu s) (\<lambda>c.
     let p = cproc (cpus s ! c) in
     bindE (popcli s) (\<lambda>s. Inr (p, s))))"

fun find_unused :: "proc list \<Rightarrow> nat \<Rightarrow> nat option" where
  "find_unused [] i = None"
| "find_unused (p # ps) i = (if p_state p = UNUSED then Some i else find_unused ps (Suc i))"

abbreviation (input) SIZEOF_TRAPFRAME :: u32 where "SIZEOF_TRAPFRAME \<equiv> 76"
abbreviation (input) SIZEOF_CONTEXT :: u32 where "SIZEOF_CONTEXT \<equiv> 20"

text \<open>The second half of \<open>allocproc\<close>: the kernel stack of table entry \<open>p\<close>.\<close>

definition alloc_kstack :: "nat \<Rightarrow> 'a proc_st_scheme \<Rightarrow> (nat option \<times> 'a proc_st_scheme) kres" where
  "alloc_kstack p s =
     bindE (kalloc s) (\<lambda>(k, s).
       let s = proc_upd p (\<lambda>x. x\<lparr>p_kstack := k\<rparr>) s in
       if k = 0 then Inr (None, proc_upd p (\<lambda>x. x\<lparr>p_state := UNUSED\<rparr>) s)
       else
         let sp = k + KSTACKSIZE;
             sp = sp - SIZEOF_TRAPFRAME;
             s = proc_upd p (\<lambda>x. x\<lparr>p_tf := sp\<rparr>) s;
             sp = sp - 4;
             s = s\<lparr>mem := write32 (mem s) sp (trapret s)\<rparr>;
             sp = sp - SIZEOF_CONTEXT;
             s = proc_upd p (\<lambda>x. x\<lparr>p_context := sp\<rparr>) s;
             s = s\<lparr>mem := memset (mem s) sp 0 SIZEOF_CONTEXT\<rparr>;
             s = s\<lparr>mem := write32 (mem s) (sp + 16) (forkret s)\<rparr>
         in Inr (Some p, s))"

definition allocproc :: "'a proc_st_scheme \<Rightarrow> (nat option \<times> 'a proc_st_scheme) kres" where
  "allocproc s =
     bindE (acquire PtableLock s) (\<lambda>s.
     case find_unused (ptable s) 0 of
       None \<Rightarrow> bindE (release PtableLock s) (\<lambda>s. Inr (None, s))
     | Some p \<Rightarrow>
         let s = proc_upd p (\<lambda>x. x\<lparr>p_state := EMBRYO, p_pid := nextpid s\<rparr>) s;
             s = s\<lparr>nextpid := nextpid s + 1\<rparr> in
         bindE (release PtableLock s) (alloc_kstack p))"

definition switchuvm :: "nat option \<Rightarrow> 'a proc_st_scheme \<Rightarrow> ('a proc_st_scheme) kres" where
  "switchuvm p s =
     (case p of None \<Rightarrow> Inl (Panic ''switchuvm: no process'')
      | Some i \<Rightarrow>
          if p_kstack (ptable s ! i) = 0 then Inl (Panic ''switchuvm: no kstack'')
          else if p_pgdir (ptable s ! i) = 0 then Inl (Panic ''switchuvm: no pgdir'')
          else bindE (pushcli s) (\<lambda>s.
               bindE (mycpu s) (\<lambda>c.
               let s = s\<lparr>ts_esp0 := (ts_esp0 s)(c := p_kstack (ptable s ! i) + KSTACKSIZE)\<rparr>;
                   s = s\<lparr>cr3 := (cr3 s)(lapic s := V2P (p_pgdir (ptable s ! i)))\<rparr>
               in popcli s)))"

text \<open>
  The scheduler's loop body: the iteration for table entry \<open>i\<close> up to its \<open>swtch\<close> (\<open>None\<close> when the
  entry is not runnable), and from the return of \<open>swtch\<close>.
\<close>

definition set_cproc :: "nat \<Rightarrow> nat option \<Rightarrow> 'a hw_scheme \<Rightarrow> 'a hw_scheme" where
  "set_cproc c p s = s\<lparr>cpus := (cpus s)[c := (cpus s ! c)\<lparr>cproc := p\<rparr>]\<rparr>"

definition scheduler_enter :: "'a proc_st_scheme \<Rightarrow> ('a proc_st_scheme) kres" where
  "scheduler_enter s = acquire PtableLock (sti s)"

definition scheduler_run :: "nat \<Rightarrow> nat \<Rightarrow> 'a proc_st_scheme \<Rightarrow> ('a proc_st_scheme option) kres" where
  "scheduler_run c i s =
     (if p_state (ptable s ! i) \<noteq> RUNNABLE then Inr None
      else
        let s = set_cproc c (Some i) s in
        bindE (switchuvm (Some i) s) (\<lambda>s. Inr (Some (proc_upd i (\<lambda>x. x\<lparr>p_state := RUNNING\<rparr>) s))))"

definition scheduler_back :: "nat \<Rightarrow> 'a proc_st_scheme \<Rightarrow> 'a proc_st_scheme" where
  "scheduler_back c s = set_cproc c None (switchkvm s)"

definition scheduler_leave :: "'a proc_st_scheme \<Rightarrow> ('a proc_st_scheme) kres" where
  "scheduler_leave s = release PtableLock s"

text \<open>\<open>sched\<close> up to \<open>swtch\<close>, with the saved \<open>intena\<close>, and after it.\<close>

definition sched_out :: "'a proc_st_scheme \<Rightarrow> (u32 \<times> 'a proc_st_scheme) kres" where
  "sched_out s =
     bindE (myproc s) (\<lambda>(p, s).
     bindE (holding PtableLock s) (\<lambda>(h, s).
       if \<not> h then Inl (Panic ''sched ptable.lock'')
       else bindE (mycpu s) (\<lambda>c.
         if ncli (cpus s ! c) \<noteq> 1 then Inl (Panic ''sched locks'')
         else case p of None \<Rightarrow> Inl Fault
         | Some i \<Rightarrow>
             if p_state (ptable s ! i) = RUNNING then Inl (Panic ''sched running'')
             else if readeflags s AND FL_IF \<noteq> 0 then Inl (Panic ''sched interruptible'')
             else Inr (intena (cpus s ! c), s))))"

definition sched_in :: "u32 \<Rightarrow> 'a hw_scheme \<Rightarrow> ('a hw_scheme) kres" where
  "sched_in i s =
     bindE (mycpu s) (\<lambda>c. Inr (s\<lparr>cpus := (cpus s)[c := (cpus s ! c)\<lparr>intena := i\<rparr>]\<rparr>))"

definition yield_out :: "'a proc_st_scheme \<Rightarrow> (u32 \<times> 'a proc_st_scheme) kres" where
  "yield_out s =
     bindE (acquire PtableLock s) (\<lambda>s.
     bindE (myproc s) (\<lambda>(p, s).
     case p of None \<Rightarrow> Inl Fault
     | Some i \<Rightarrow> sched_out (proc_upd i (\<lambda>x. x\<lparr>p_state := RUNNABLE\<rparr>) s)))"

definition yield_in :: "u32 \<Rightarrow> 'a proc_st_scheme \<Rightarrow> ('a proc_st_scheme) kres" where
  "yield_in i s = bindE (sched_in i s) (release PtableLock)"

text \<open>A lock of the model is never the null pointer, so \<open>sleep\<close>'s second panic has no counterpart.\<close>

definition sleep_out :: "chan \<Rightarrow> lockid \<Rightarrow> 'a proc_st_scheme \<Rightarrow> (nat \<times> u32 \<times> 'a proc_st_scheme) kres" where
  "sleep_out ch lk s =
     bindE (myproc s) (\<lambda>(p, s).
     case p of None \<Rightarrow> Inl (Panic ''sleep'')
     | Some i \<Rightarrow>
         bindE (if lk \<noteq> PtableLock
                then bindE (acquire PtableLock s) (release lk) else Inr s) (\<lambda>s.
         let s = proc_upd i (\<lambda>x. x\<lparr>p_chan := Some ch, p_state := SLEEPING\<rparr>) s in
         bindE (sched_out s) (\<lambda>(e, s). Inr (i, e, s))))"

definition sleep_in :: "lockid \<Rightarrow> nat \<Rightarrow> u32 \<Rightarrow> 'a proc_st_scheme \<Rightarrow> ('a proc_st_scheme) kres" where
  "sleep_in lk i e s =
     bindE (sched_in e s) (\<lambda>s.
     let s = proc_upd i (\<lambda>x. x\<lparr>p_chan := None\<rparr>) s in
     if lk \<noteq> PtableLock then bindE (release PtableLock s) (acquire lk) else Inr s)"

definition sleep :: "chan \<Rightarrow> lockid \<Rightarrow> 'a proc_st_scheme \<Rightarrow> 'b kres" where
  "sleep ch lk s = bindE (sleep_out ch lk s) (\<lambda>_. Inl (Sleep ch))"

definition wake_proc :: "chan \<Rightarrow> proc \<Rightarrow> proc" where
  "wake_proc ch p =
     (if p_state p = SLEEPING \<and> p_chan p = Some ch then p\<lparr>p_state := RUNNABLE\<rparr> else p)"

definition wakeup1 :: "chan \<Rightarrow> 'a proc_st_scheme \<Rightarrow> 'a proc_st_scheme" where
  "wakeup1 ch s = s\<lparr>ptable := map (wake_proc ch) (ptable s)\<rparr>"

definition wakeup :: "chan \<Rightarrow> 'a proc_st_scheme \<Rightarrow> ('a proc_st_scheme) kres" where
  "wakeup ch s =
     bindE (acquire PtableLock s) (\<lambda>s. release PtableLock (wakeup1 ch s))"

fun find_pid :: "int \<Rightarrow> proc list \<Rightarrow> nat \<Rightarrow> nat option" where
  "find_pid pid [] i = None"
| "find_pid pid (p # ps) i = (if p_pid p = pid then Some i else find_pid pid ps (Suc i))"

definition kill_proc :: "proc \<Rightarrow> proc" where
  "kill_proc p =
     (let p = p\<lparr>p_killed := 1\<rparr> in if p_state p = SLEEPING then p\<lparr>p_state := RUNNABLE\<rparr> else p)"

definition kill :: "int \<Rightarrow> 'a proc_st_scheme \<Rightarrow> (int \<times> 'a proc_st_scheme) kres" where
  "kill pid s =
     bindE (acquire PtableLock s) (\<lambda>s.
     case find_pid pid (ptable s) 0 of
       Some i \<Rightarrow> bindE (release PtableLock (proc_upd i kill_proc s)) (\<lambda>s. Inr (0, s))
     | None \<Rightarrow> bindE (release PtableLock s) (\<lambda>s. Inr (- 1, s)))"

text \<open>The listings \<open>procdump\<close> (on the console's \<open>^P\<close>) and \<open>cps\<close> (the added system call).\<close>

fun state_name :: "procstate \<Rightarrow> string" where
  "state_name UNUSED = ''unused''"
| "state_name EMBRYO = ''embryo''"
| "state_name SLEEPING = ''sleep ''"
| "state_name RUNNABLE = ''runble''"
| "state_name RUNNING = ''run   ''"
| "state_name ZOMBIE = ''zombie''"

fun dump_pcs :: "u32 list \<Rightarrow> 'a con_st_scheme \<Rightarrow> ('a con_st_scheme) kres" where
  "dump_pcs [] s = Inr s"
| "dump_pcs (pc # pcs) s =
     (if pc = 0 then Inr s else bindE (cprintf '' %p'' [CInt pc] s) (dump_pcs pcs))"

fun procdump_loop :: "proc list \<Rightarrow> 'a con_st_scheme \<Rightarrow> ('a con_st_scheme) kres" where
  "procdump_loop [] s = Inr s"
| "procdump_loop (p # ps) s =
     (if p_state p = UNUSED then procdump_loop ps s
      else
        bindE (cprintf ''%d %s %s'' [CInt (word_of_int (p_pid p)), CStr (state_name (p_state p)), CStr (p_name p)] s) (\<lambda>s.
        bindE (if p_state p = SLEEPING
               then dump_pcs (getcallerpcs (mem s) (read32 (mem s) (p_context p + 12) + 8)) s
               else Inr s) (\<lambda>s.
        bindE (cprintf [CHR 0x0A] [] s) (procdump_loop ps))))"

definition procdump :: "'a proc_st_scheme \<Rightarrow> ('a proc_st_scheme) kres" where
  "procdump s = procdump_loop (ptable s) s"

definition cps_line :: "proc \<Rightarrow> (string \<times> cparg list) option" where
  "cps_line p =
     (let args = [CStr (p_name p), CInt (word_of_int (p_pid p))];
          line = (\<lambda>st. ''%s '' @ [CHR 0x09] @ '' %d  '' @ [CHR 0x09] @ '' '' @ st @ '' '' @ [CHR 0x09] @ '' '' @ [CHR 0x0A] @ '' '')
      in if p_state p = SLEEPING then Some (line ''SLEEPING'', args)
         else if p_state p = RUNNING then Some (line ''RUNNING'', args)
         else if p_state p = RUNNABLE then Some (line ''RUNNABLE'', args)
         else None)"

fun cps_loop :: "proc list \<Rightarrow> 'a con_st_scheme \<Rightarrow> ('a con_st_scheme) kres" where
  "cps_loop [] s = Inr s"
| "cps_loop (p # ps) s =
     (case cps_line p of None \<Rightarrow> cps_loop ps s
      | Some (fmt, as) \<Rightarrow> bindE (cprintf fmt as s) (cps_loop ps))"

definition cps_header :: string where
  "cps_header = ''name '' @ [CHR 0x09] @ '' pid '' @ [CHR 0x09] @ '' state '' @ [CHR 0x09] @ '' '' @ [CHR 0x0A]"

definition cps :: "'a proc_st_scheme \<Rightarrow> (int \<times> 'a proc_st_scheme) kres" where
  "cps s =
     (let s = sti s in
      bindE (acquire PtableLock s) (\<lambda>s.
      bindE (cprintf cps_header [] s) (\<lambda>s.
      bindE (cps_loop (ptable s) s) (\<lambda>s.
      bindE (release PtableLock s) (\<lambda>s. Inr (22, s))))))"

section \<open>Frames\<close>

lemma vm_acq_rel [simp]:
  "kdata (acq lk s) = kdata s" "kpgdir (acq lk s) = kpgdir s" "cr3 (acq lk s) = cr3 s"
  "ts_esp0 (acq lk s) = ts_esp0 s" "vm_st.more (acq lk s) = vm_st.more s"
  "kdata (rel lk s) = kdata s" "kpgdir (rel lk s) = kpgdir s" "cr3 (rel lk s) = cr3 s"
  "ts_esp0 (rel lk s) = ts_esp0 s" "vm_st.more (rel lk s) = vm_st.more s"
  by (simp_all add: acq_def pushed_def cli_def rel_def popped_def sti_def Let_def)

lemma proc_acq_rel [simp]:
  "ptable (acq lk s) = ptable s" "initproc (acq lk s) = initproc s" "nextpid (acq lk s) = nextpid s"
  "trapret (acq lk s) = trapret s" "forkret (acq lk s) = forkret s" "proc_st.more (acq lk s) = proc_st.more s"
  "ptable (rel lk s) = ptable s" "initproc (rel lk s) = initproc s" "nextpid (rel lk s) = nextpid s"
  "trapret (rel lk s) = trapret s" "forkret (rel lk s) = forkret s" "proc_st.more (rel lk s) = proc_st.more s"
  by (simp_all add: acq_def pushed_def cli_def rel_def popped_def sti_def Let_def)

lemma curproc_proc [simp]:
  "curproc (s\<lparr>ptable := x\<rparr>) = curproc s" "curproc (s\<lparr>nextpid := n\<rparr>) = curproc s"
  "curproc (s\<lparr>cr3 := c\<rparr>) = curproc s" "curproc (s\<lparr>ts_esp0 := d\<rparr>) = curproc s"
  by (simp_all add: curproc_def curcpu_def)

lemma proc_upd_fields [simp]:
  "mem (proc_upd i f s) = mem s" "locks (proc_upd i f s) = locks s" "cpus (proc_upd i f s) = cpus s"
  "lapic (proc_upd i f s) = lapic s" "eflags (proc_upd i f s) = eflags s" "ncpu (proc_upd i f s) = ncpu s"
  "freelist (proc_upd i f s) = freelist s" "kend (proc_upd i f s) = kend s" "use_lock (proc_upd i f s) = use_lock s"
  "ptable (proc_upd i f s) = (ptable s)[i := f (ptable s ! i)]" "initproc (proc_upd i f s) = initproc s"
  "nextpid (proc_upd i f s) = nextpid s" "trapret (proc_upd i f s) = trapret s" "forkret (proc_upd i f s) = forkret s"
  "curproc (proc_upd i f s) = curproc s" "proc_st.more (proc_upd i f s) = proc_st.more s"
  by (simp_all add: proc_upd_def)

text \<open>Everything below the process table that its operations leave alone.\<close>

definition sys_frame :: "lockid list \<Rightarrow> 'a proc_st_scheme \<Rightarrow> 'a proc_st_scheme \<Rightarrow> bool" where
  "sys_frame L s s' \<longleftrightarrow> crit L s' \<and> curproc s' = curproc s \<and> mem s' = mem s \<and>
     freelist s' = freelist s \<and> kend s' = kend s \<and> use_lock s' = use_lock s \<and>
     panicked s' = panicked s \<and> cons_locking s' = cons_locking s \<and> crt_pos s' = crt_pos s \<and>
     uart_out s' = uart_out s \<and> kpgdir s' = kpgdir s \<and> initproc s' = initproc s \<and>
     proc_st.more s' = proc_st.more s"

lemma ptable_bracket:
  assumes "crit L s" "PtableLock \<notin> set L"
  shows "acquire PtableLock s = Inr (acq PtableLock s)"
    and "release PtableLock ((acq PtableLock s)\<lparr>ptable := ps\<rparr>) = Inr (rel PtableLock ((acq PtableLock s)\<lparr>ptable := ps\<rparr>))"
    and "sys_frame L s (rel PtableLock ((acq PtableLock s)\<lparr>ptable := ps\<rparr>))"
proof -
  show "acquire PtableLock s = Inr (acq PtableLock s)" by (rule acquire_ok [OF assms])
  have c: "crit (PtableLock # L) ((acq PtableLock s)\<lparr>ptable := ps\<rparr>)"
    using crit_acq [OF assms] by simp
  show "release PtableLock ((acq PtableLock s)\<lparr>ptable := ps\<rparr>) = Inr (rel PtableLock ((acq PtableLock s)\<lparr>ptable := ps\<rparr>))"
    using release_ok [OF c] by simp
  show "sys_frame L s (rel PtableLock ((acq PtableLock s)\<lparr>ptable := ps\<rparr>))"
    using crit_rel [OF c, of PtableLock] curproc_rel [OF c] curproc_acq [OF assms(1)]
    by (simp add: sys_frame_def)
qed

lemma ptable_unchanged:
  assumes "crit L s" "PtableLock \<notin> set L"
  shows "release PtableLock (acq PtableLock s) = Inr (rel PtableLock (acq PtableLock s))"
    and "sys_frame L s (rel PtableLock (acq PtableLock s))"
  using release_ok [OF crit_acq [OF assms]] crit_rel [OF crit_acq [OF assms], of PtableLock]
    curproc_rel [OF crit_acq [OF assms]] curproc_acq [OF assms(1)]
  by (simp_all add: sys_frame_def)

lemma wakeup_ok:
  assumes "crit L s" "PtableLock \<notin> set L"
  shows "\<exists>s'. wakeup ch s = Inr s' \<and> sys_frame L s s' \<and> ptable s' = map (wake_proc ch) (ptable s)"
  using ptable_bracket(1) [OF assms] ptable_bracket(2,3) [OF assms, of "map (wake_proc ch) (ptable s)"]
  by (simp add: wakeup_def wakeup1_def)

lemma kill_ok:
  assumes "crit L s" "PtableLock \<notin> set L"
  shows "\<exists>s'. kill pid s = Inr (case find_pid pid (ptable s) 0 of None \<Rightarrow> - 1 | Some _ \<Rightarrow> 0, s') \<and>
    sys_frame L s s' \<and> ptable s' =
      (case find_pid pid (ptable s) 0 of None \<Rightarrow> ptable s | Some i \<Rightarrow> (ptable s)[i := kill_proc (ptable s ! i)])"
proof (cases "find_pid pid (ptable s) 0")
  case None
  then show ?thesis
    using ptable_bracket(1) [OF assms] ptable_unchanged [OF assms] by (simp add: kill_def)
next
  case (Some i)
  then show ?thesis
    using ptable_bracket(1) [OF assms] ptable_bracket(2,3) [OF assms, of "(ptable s)[i := kill_proc (ptable s ! i)]"]
    by (simp add: kill_def proc_upd_def)
qed

section \<open>The current process\<close>

lemma cpus_popped:
  "cpus (popped s) = (cpus s)[curcpu s := (cpus s ! curcpu s)\<lparr>ncli := ncli (cpus s ! curcpu s) - 1\<rparr>]"
  by (simp add: popped_def Let_def)

lemma cpus_pushed:
  "cpus (pushed s) = (cpus s)[curcpu s := (cpus s ! curcpu s)\<lparr>
     intena := (if ncli (cpus s ! curcpu s) = 0 then readeflags s AND FL_IF else intena (cpus s ! curcpu s)),
     ncli := ncli (cpus s ! curcpu s) + 1\<rparr>]"
  by (simp add: pushed_def)

lemma pushpop_ok:
  assumes "crit L s"
  shows "popcli (pushed s) = Inr (popped (pushed s))" "crit L (popped (pushed s))"
    "curproc (popped (pushed s)) = curproc s" "hw.more (popped (pushed s)) = hw.more s"
proof -
  have c: "curcpu (pushed s) = curcpu s"
    using pushed_scan [OF assms] by (simp add: curcpu_def)
  have len: "curcpu s < length (cpus s)" and n: "ncli (cpus s ! curcpu s) = int (length L)"
    using critD(2,3) [OF assms] by auto
  show "popcli (pushed s) = Inr (popped (pushed s))"
    by (rule popcli_ok) (use c len n mycpu_pushed [OF assms] in \<open>simp_all add: pushed_def cli_def readeflags_def\<close>)
  have cp: "cpus (popped (pushed s)) = (cpus s)[curcpu s := (cpus s ! curcpu s)\<lparr>
      intena := (if ncli (cpus s ! curcpu s) = 0 then readeflags s AND FL_IF else intena (cpus s ! curcpu s)),
      ncli := int (length L)\<rparr>]"
    using len n by (simp add: cpus_popped c cpus_pushed)
  have sc: "cpu_scan (cpus (popped (pushed s))) (lapic s) 0 (nat (ncpu s)) = Some (curcpu s)"
    unfolding cp by (rule cpu_scan_update [OF assms]) simp
  then have cc: "curcpu (popped (pushed s)) = curcpu s" by (simp add: curcpu_def)
  have "L \<noteq> [] \<Longrightarrow> popped (pushed s) = s"
    using popcli_pushed [OF assms] \<open>popcli (pushed s) = Inr (popped (pushed s))\<close> by simp
  moreover have "crit [] (popped (pushed s))" if "L = []"
    using sc cp len that critD [OF assms] assms by (auto simp: critP_def)
  ultimately show "crit L (popped (pushed s))" using assms by (cases "L = []") auto
  show "curproc (popped (pushed s)) = curproc s"
    using cc cp len by (simp add: curproc_def)
  show "hw.more (popped (pushed s)) = hw.more s"
    by (simp add: popped_def Let_def pushed_def cli_def sti_def)
qed

lemma myproc_ok:
  assumes "crit L s"
  shows "\<exists>s'. myproc s = Inr (curproc s, s') \<and> crit L s' \<and> curproc s' = curproc s \<and> mem s' = mem s \<and>
    hw.more s' = hw.more s \<and> (L \<noteq> [] \<longrightarrow> s' = s)"
proof -
  have "cproc (cpus (pushed s) ! curcpu s) = curproc s"
    using critD(2) [OF assms] by (simp add: pushed_def cli_def curproc_def)
  then have "myproc s = Inr (curproc s, popped (pushed s))"
    using pushcli_ok [OF assms] mycpu_pushed [OF assms] pushpop_ok(1) [OF assms] by (simp add: myproc_def)
  moreover have "L \<noteq> [] \<Longrightarrow> popped (pushed s) = s"
    using popcli_pushed [OF assms] pushpop_ok(1) [OF assms] by simp
  ultimately show ?thesis using pushpop_ok(2-4) [OF assms] by simp
qed

lemma hw_more_fields:
  fixes s s' :: "'a proc_st_scheme"
  assumes "hw.more s' = hw.more s"
  shows "kend s' = kend s" "use_lock s' = use_lock s" "freelist s' = freelist s" "panicked s' = panicked s"
    "cons_locking s' = cons_locking s" "uart_out s' = uart_out s" "crt_pos s' = crt_pos s"
    "kdata s' = kdata s" "kpgdir s' = kpgdir s" "cr3 s' = cr3 s" "ts_esp0 s' = ts_esp0 s"
    "ptable s' = ptable s" "initproc s' = initproc s" "nextpid s' = nextpid s" "trapret s' = trapret s"
    "forkret s' = forkret s" "proc_st.more s' = proc_st.more s"
  using assms by (cases s; cases s'; simp)+

lemma kmem_more_fields:
  fixes s s' :: "'a proc_st_scheme"
  assumes "kmem_st.more s' = kmem_st.more s"
  shows "panicked s' = panicked s"
    "cons_locking s' = cons_locking s" "uart_out s' = uart_out s" "crt_pos s' = crt_pos s"
    "kdata s' = kdata s" "kpgdir s' = kpgdir s" "cr3 s' = cr3 s" "ts_esp0 s' = ts_esp0 s"
    "ptable s' = ptable s" "initproc s' = initproc s" "nextpid s' = nextpid s" "trapret s' = trapret s"
    "forkret s' = forkret s" "proc_st.more s' = proc_st.more s"
  using assms by (cases s; cases s'; simp)+

lemma myproc_frame:
  fixes s :: "'a proc_st_scheme"
  assumes "crit L s"
  shows "\<exists>s'. myproc s = Inr (curproc s, s') \<and> sys_frame L s s' \<and> ptable s' = ptable s \<and>
    nextpid s' = nextpid s \<and> (L \<noteq> [] \<longrightarrow> s' = s)"
proof -
  obtain s' where s': "myproc s = Inr (curproc s, s')" "crit L s'" "curproc s' = curproc s" "mem s' = mem s"
    "hw.more s' = hw.more s" "L \<noteq> [] \<longrightarrow> s' = s"
    using myproc_ok [OF assms] by blast
  then show ?thesis using hw_more_fields [OF s'(5)] by (intro exI [of _ s']) (simp add: sys_frame_def)
qed

section \<open>Process creation\<close>

lemma inblk_disj:
  assumes "i + n \<le> j" "j + m \<le> 2 ^ 32" "inblk (a + of_nat i) n x"
  shows "\<not> inblk (a + of_nat j) m x"
proof
  assume b: "inblk (a + of_nat j) m x"
  obtain k l where k: "k < n" "x = a + of_nat i + of_nat k" and l: "l < m" "x = a + of_nat j + of_nat l"
    using inblk_ex [OF assms(3)] inblk_ex [OF b] by blast
  have "(of_nat (i + k) :: u32) = of_nat (j + l)" using k(2) l(2) by simp
  then have "i + k = j + l"
    using unat_of_nat_u32 [of "i + k"] unat_of_nat_u32 [of "j + l"] k(1) l(1) assms(1,2) by simp
  then show False using k(1) assms(1) by simp
qed

definition kstack_mem :: "memory \<Rightarrow> u32 \<Rightarrow> u32 \<Rightarrow> u32 \<Rightarrow> memory" where
  "kstack_mem m k tr fr =
     write32 (memset (write32 m (k + 4016) tr) (k + 3996) 0 20) (k + 4012) fr"

lemma kstack_mem_ok:
  "read32 (kstack_mem m k tr fr) (k + 4016) = tr" "read32 (kstack_mem m k tr fr) (k + 4012) = fr"
  "\<not> inblk k 4096 x \<Longrightarrow> kstack_mem m k tr fr x = m x"
proof -
  let ?o = "\<lambda>i. k + of_nat i"
  have "kstack_mem m k tr fr x = write32 m (k + 4016) tr x" if "inblk (?o 4016) 4 x" for x
  proof -
    have "\<not> inblk (?o 4012) 4 x" "\<not> inblk (?o 3996) 20 x"
      using inblk_disj [of 4012 4 4016 4 x k] inblk_disj [of 3996 20 4016 4 x k] that by auto
    then show ?thesis by (simp add: kstack_mem_def write32_other memset_apply)
  qed
  then have "read32 (kstack_mem m k tr fr) (k + 4016) = read32 (write32 m (k + 4016) tr) (k + 4016)"
    by (intro read32_cong) simp
  then show "read32 (kstack_mem m k tr fr) (k + 4016) = tr" by simp
  show "read32 (kstack_mem m k tr fr) (k + 4012) = fr" by (simp add: kstack_mem_def)
  assume n: "\<not> inblk k 4096 x"
  have "\<not> inblk (?o i) n x" if "i + n \<le> 4096" for i n
    using inblk_sub [where a = k and i = i and n = n and x = x and N = 4096] n that by auto
  from this [of 4016 4] this [of 3996 20] this [of 4012 4] show "kstack_mem m k tr fr x = m x"
    by (simp add: kstack_mem_def write32_other memset_apply)
qed

lemma find_unused_Some:
  "find_unused ps i = Some j \<Longrightarrow> i \<le> j \<and> j < i + length ps \<and> p_state (ps ! (j - i)) = UNUSED \<and>
    (\<forall>k < j - i. p_state (ps ! k) \<noteq> UNUSED)"
proof (induction ps arbitrary: i)
  case (Cons p ps)
  show ?case
  proof (cases "p_state p = UNUSED")
    case True
    then show ?thesis using Cons.prems by simp
  next
    case False
    then have IH: "Suc i \<le> j" "j < Suc i + length ps" "p_state (ps ! (j - Suc i)) = UNUSED"
      "\<forall>k < j - Suc i. p_state (ps ! k) \<noteq> UNUSED"
      using Cons.IH [of "Suc i"] Cons.prems by simp_all
    then have "j - i = Suc (j - Suc i)" by simp
    then show ?thesis using IH False by (auto simp: less_Suc_eq_0_disj)
  qed
qed simp

lemma find_unused_states: "map p_state ps = map p_state qs \<Longrightarrow> find_unused ps i = find_unused qs i"
proof (induction ps arbitrary: qs i)
  case (Cons p ps)
  then show ?case by (cases qs) auto
qed simp

lemma find_unused_None: "find_unused ps i = None \<longleftrightarrow> (\<forall>p \<in> set ps. p_state p \<noteq> UNUSED)"
  by (induction ps arbitrary: i) auto

text \<open>The process \<open>allocproc\<close> makes of a free table entry.\<close>

definition embryo :: "int \<Rightarrow> u32 \<Rightarrow> proc \<Rightarrow> proc" where
  "embryo pid k x =
     x\<lparr>p_state := EMBRYO, p_pid := pid, p_kstack := k, p_tf := k + 4020, p_context := k + 3996\<rparr>"

definition stillborn :: "int \<Rightarrow> proc \<Rightarrow> proc" where
  "stillborn pid x = x\<lparr>p_pid := pid, p_kstack := 0, p_state := UNUSED\<rparr>"

lemma alloc_kstack_ok:
  assumes "crit L s" "KmemLock \<notin> set L" "kmem_inv s ps" "i < length (ptable s)"
  shows "\<exists>s'. alloc_kstack i s = Inr (if ps = [] then None else Some i, s') \<and>
    crit L s' \<and> curproc s' = curproc s \<and> kend s' = kend s \<and> initproc s' = initproc s \<and>
    nextpid s' = nextpid s \<and> proc_st.more s' = proc_st.more s \<and> kmem_inv s' (tl ps) \<and>
    (case ps of
       [] \<Rightarrow> ptable s' = (ptable s)[i := (ptable s ! i)\<lparr>p_kstack := 0, p_state := UNUSED\<rparr>] \<and> mem s' = mem s
     | k # _ \<Rightarrow> ptable s' = (ptable s)[i := (ptable s ! i)\<lparr>p_kstack := k, p_tf := k + 4020, p_context := k + 3996\<rparr>] \<and>
         mem s' = kstack_mem (mem s) k (trapret s) (forkret s))"
proof -
  obtain s3 where s3: "kalloc s = Inr (case ps of [] \<Rightarrow> 0 | p # _ \<Rightarrow> p, s3)" "mem s3 = mem s"
    "kmem_inv s3 (tl ps)" "kmem_frame L s s3"
    using kalloc_ok [OF assms(1-3)] by blast
  have m3: "kmem_st.more s3 = kmem_st.more s" using s3(4) by simp
  note f3 = kmem_more_fields [OF m3]
  show ?thesis
  proof (cases ps)
    case Nil
    let ?s' = "proc_upd i (\<lambda>x. x\<lparr>p_state := UNUSED\<rparr>) (proc_upd i (\<lambda>x. x\<lparr>p_kstack := 0\<rparr>) s3)"
    have "alloc_kstack i s = Inr (None, ?s')" using s3(1) Nil by (simp add: alloc_kstack_def)
    then show ?thesis using Nil s3 f3 assms(4) by simp
  next
    case (Cons k qs)
    have k: "k \<noteq> 0" "k \<notin> set qs" "k mod PGSIZE = 0" "\<forall>q \<in> set qs. q mod PGSIZE = 0"
      using assms(3) Cons page_ok_nonzero by (auto simp: kmem_invP_def page_ok_def)
    let ?x = "(ptable s ! i)\<lparr>p_kstack := k, p_tf := k + 4020, p_context := k + 3996\<rparr>"
    let ?m = "kstack_mem (mem s) k (trapret s) (forkret s)"
    let ?s' = "s3\<lparr>ptable := (ptable s)[i := ?x], mem := ?m\<rparr>"
    have "alloc_kstack i s = Inr (Some i, ?s')"
      using s3(1,2) f3 Cons k assms(4)
      by (simp add: alloc_kstack_def Let_def proc_upd_def kstack_mem_def add.commute [of k])
    moreover have "kmem_invP ?m (kend s) (freelist s3) qs"
    proof -
      have "mem s x = ?m x" if "q \<in> set qs" "inblk q 4096 x" for q x
      proof -
        have "q \<noteq> k" "q mod PGSIZE = 0" using that(1) k(2,4) by auto
        then have "\<not> inblk k 4096 x" using page_disjoint [of q k x] k(3) that(2) by metis
        then show ?thesis using kstack_mem_ok(3) by simp
      qed
      then have "kmem_invP (mem s) (kend s) (freelist s3) qs = kmem_invP ?m (kend s) (freelist s3) qs"
        by (rule kmem_invP_cong)
      then show ?thesis using s3(2-4) Cons by simp
    qed
    ultimately show ?thesis using Cons s3 f3 by simp
  qed
qed

lemma allocproc_ok:
  assumes "crit L s" "PtableLock \<notin> set L" "KmemLock \<notin> set L" "kmem_inv s ps"
  shows "\<exists>r s'. allocproc s = Inr (r, s') \<and> crit L s' \<and> curproc s' = curproc s \<and> kend s' = kend s \<and>
    initproc s' = initproc s \<and> proc_st.more s' = proc_st.more s \<and>
    (case find_unused (ptable s) 0 of
       None \<Rightarrow> r = None \<and> ptable s' = ptable s \<and> nextpid s' = nextpid s \<and> mem s' = mem s \<and> kmem_inv s' ps
     | Some i \<Rightarrow> nextpid s' = nextpid s + 1 \<and> kmem_inv s' (tl ps) \<and>
         (case ps of
            [] \<Rightarrow> r = None \<and> ptable s' = (ptable s)[i := stillborn (nextpid s) (ptable s ! i)] \<and> mem s' = mem s
          | k # _ \<Rightarrow> r = Some i \<and> ptable s' = (ptable s)[i := embryo (nextpid s) k (ptable s ! i)] \<and>
              mem s' = kstack_mem (mem s) k (trapret s) (forkret s)))"
proof (cases "find_unused (ptable s) 0")
  case None
  then show ?thesis
    using ptable_bracket(1) [OF assms(1,2)] ptable_unchanged [OF assms(1,2)] assms(4)
    by (simp add: allocproc_def sys_frame_def)
next
  case (Some i)
  have len: "i < length (ptable s)" using find_unused_Some [OF Some] by simp
  let ?e = "(ptable s ! i)\<lparr>p_state := EMBRYO, p_pid := nextpid s\<rparr>"
  define s1 where "s1 = (acq PtableLock s)\<lparr>ptable := (ptable s)[i := ?e], nextpid := nextpid s + 1\<rparr>"
  have c1: "crit (PtableLock # L) s1" using crit_acq [OF assms(1,2)] by (simp add: s1_def)
  define s2 where "s2 = rel PtableLock s1"
  have c2: "crit L s2" using crit_rel [OF c1, of PtableLock] by (simp add: s2_def)
  have cp2: "curproc s2 = curproc s"
    using curproc_rel [OF c1] curproc_acq [OF assms(1)] by (simp add: s2_def s1_def)
  have k2: "kmem_inv s2 ps" using assms(4) by (simp add: s2_def s1_def)
  have f2: "ptable s2 = (ptable s)[i := ?e]" "nextpid s2 = nextpid s + 1" "mem s2 = mem s" "kend s2 = kend s"
    "initproc s2 = initproc s" "trapret s2 = trapret s" "forkret s2 = forkret s" "proc_st.more s2 = proc_st.more s"
    by (simp_all add: s2_def s1_def)
  have al: "allocproc s = alloc_kstack i s2"
    using Some ptable_bracket(1) [OF assms(1,2)] release_ok [OF c1]
    by (simp add: allocproc_def Let_def proc_upd_def s1_def s2_def)
  have l2: "i < length (ptable s2)" using len f2(1) by simp
  show ?thesis
    using alloc_kstack_ok [OF c2 assms(3) k2 l2] Some al cp2 f2 len
    by (cases ps) (auto simp: embryo_def stillborn_def)
qed

section \<open>Process identifiers\<close>

text \<open>
  Used entries have different pids, all of them handed out already. An unused entry may keep the
  pid of a creation that failed.
\<close>

definition pid_inv :: "'a proc_st_scheme \<Rightarrow> bool" where
  "pid_inv s \<longleftrightarrow> (\<forall>i < length (ptable s). p_pid (ptable s ! i) < nextpid s) \<and>
     (\<forall>i < length (ptable s). \<forall>j < length (ptable s). i \<noteq> j \<longrightarrow>
        p_state (ptable s ! i) \<noteq> UNUSED \<longrightarrow> p_state (ptable s ! j) \<noteq> UNUSED \<longrightarrow>
        p_pid (ptable s ! i) \<noteq> p_pid (ptable s ! j))"

lemma pid_inv_alloc:
  assumes "pid_inv s" "i < length (ptable s)" "ptable s' = (ptable s)[i := x]" "p_pid x = nextpid s"
    "nextpid s' = nextpid s + 1"
  shows "pid_inv s'"
proof -
  have lt: "p_pid (ptable s ! l) < nextpid s" if "l < length (ptable s)" for l
    using assms(1) that by (simp add: pid_inv_def)
  have dist: "p_pid (ptable s ! j) \<noteq> p_pid (ptable s ! k)"
    if "j < length (ptable s)" "k < length (ptable s)" "j \<noteq> k" "p_state (ptable s ! j) \<noteq> UNUSED"
      "p_state (ptable s ! k) \<noteq> UNUSED" for j k
    using assms(1) that by (simp add: pid_inv_def)
  have len: "length (ptable s') = length (ptable s)" using assms(3) by simp
  show ?thesis
    unfolding pid_inv_def
  proof (intro conjI allI impI)
    fix j assume "j < length (ptable s')"
    then show "p_pid (ptable s' ! j) < nextpid s'"
      using lt [of j] assms(2-5) len by (cases "j = i") auto
  next
    fix j k assume jk: "j < length (ptable s')" "k < length (ptable s')" "j \<noteq> k"
      "p_state (ptable s' ! j) \<noteq> UNUSED" "p_state (ptable s' ! k) \<noteq> UNUSED"
    then show "p_pid (ptable s' ! j) \<noteq> p_pid (ptable s' ! k)"
      using assms(2-5) lt [of j] lt [of k] len dist [of j k] by (cases "j = i"; cases "k = i") simp_all
  qed
qed

lemma pid_inv_state:
  assumes "pid_inv s" "nextpid s' = nextpid s" "length (ptable s') = length (ptable s)"
    "\<And>i. i < length (ptable s) \<Longrightarrow> p_pid (ptable s' ! i) = p_pid (ptable s ! i) \<and>
      (p_state (ptable s' ! i) \<noteq> UNUSED \<longrightarrow> p_state (ptable s ! i) \<noteq> UNUSED)"
  shows "pid_inv s'"
  using assms unfolding pid_inv_def by auto

lemma wake_proc_simps [simp]:
  "p_pid (wake_proc ch p) = p_pid p" "p_state (wake_proc ch p) = UNUSED \<longleftrightarrow> p_state p = UNUSED"
  by (simp_all add: wake_proc_def)

lemma kill_proc_simps [simp]:
  "p_pid (kill_proc p) = p_pid p" "p_state (kill_proc p) = UNUSED \<longleftrightarrow> p_state p = UNUSED"
  "p_killed (kill_proc p) = 1"
  by (simp_all add: kill_proc_def Let_def)

lemma find_pid_Some:
  "find_pid pid ps i = Some j \<Longrightarrow> i \<le> j \<and> j < i + length ps \<and> p_pid (ps ! (j - i)) = pid"
proof (induction ps arbitrary: i)
  case (Cons p ps)
  show ?case
  proof (cases "p_pid p = pid")
    case False
    then have "Suc i \<le> j" "j < Suc i + length ps" "p_pid (ps ! (j - Suc i)) = pid"
      using Cons.IH [of "Suc i"] Cons.prems by simp_all
    moreover from this have "j - i = Suc (j - Suc i)" by simp
    ultimately show ?thesis by simp
  qed (use Cons.prems in simp)
qed simp

lemma find_pid_None: "find_pid pid ps i = None \<longleftrightarrow> pid \<notin> p_pid ` set ps"
  by (induction ps arbitrary: i) auto


text \<open>
  C11: \<open>kill(0)\<close> succeeds on a free table entry: free entries have pid 0, \<open>kill\<close> does not look at the
  state, and \<open>allocproc\<close> does not reset \<open>killed\<close>, so the next process created in that entry is born
  killed.
\<close>

theorem kill_zero_born_killed:
  assumes "crit [] s" "kmem_inv s (k # ps)" "find_pid 0 (ptable s) 0 = Some i" "find_unused (ptable s) 0 = Some i"
  shows "\<exists>s1 s2. kill 0 s = Inr (0, s1) \<and> allocproc s1 = Inr (Some i, s2) \<and>
    p_state (ptable s2 ! i) = EMBRYO \<and> p_killed (ptable s2 ! i) = 1"
proof -
  obtain s1 where s1: "kill 0 s = Inr (0, s1)" "sys_frame [] s s1"
    "ptable s1 = (ptable s)[i := kill_proc (ptable s ! i)]"
    using kill_ok [OF assms(1), of 0] assms(3) by auto
  note fu = find_unused_Some [OF assms(4)]
  have len: "i < length (ptable s)" using fu by simp
  have f1: "find_unused (ptable s1) 0 = Some i"
  proof -
    have "map p_state (ptable s1) = map p_state (ptable s)"
      using s1(3) fu len by (simp add: map_update kill_proc_def Let_def) (metis list_update_id nth_map length_map)
    then show ?thesis using assms(4) find_unused_states by metis
  qed
  have "kmem_inv s1 (k # ps)" "crit [] s1" using s1(2) assms(2) by (simp_all add: sys_frame_def)
  then show ?thesis
    using allocproc_ok [of "[]" s1 "k # ps"] f1 s1 len by (auto simp: embryo_def)
qed

section \<open>Which processor runs what\<close>

text \<open>
  The process table and \<open>c->proc\<close> of every processor, with one step for each critical section of
  \<open>ptable.lock\<close> that changes a process state: the scheduler's dispatch, \<open>yield\<close>, \<open>sleep\<close> and \<open>exit\<close> (the
  process gives its processor back to the scheduler), \<open>wakeup\<close>, \<open>kill\<close>, the two of \<open>fork\<close> and the reaping
  in \<open>wait\<close>.
\<close>

record schedsys =
  ss_tab :: "proc list"
  ss_cpu :: "nat \<Rightarrow> nat option"

inductive sched_step :: "schedsys \<Rightarrow> schedsys \<Rightarrow> bool" where
  dispatch: "ss_cpu s c = None \<Longrightarrow> i < length (ss_tab s) \<Longrightarrow> p_state (ss_tab s ! i) = RUNNABLE \<Longrightarrow>
    sched_step s (s\<lparr>ss_tab := (ss_tab s)[i := (ss_tab s ! i)\<lparr>p_state := RUNNING\<rparr>], ss_cpu := (ss_cpu s)(c := Some i)\<rparr>)"
| yield: "ss_cpu s c = Some i \<Longrightarrow>
    sched_step s (s\<lparr>ss_tab := (ss_tab s)[i := (ss_tab s ! i)\<lparr>p_state := RUNNABLE\<rparr>], ss_cpu := (ss_cpu s)(c := None)\<rparr>)"
| sleep: "ss_cpu s c = Some i \<Longrightarrow>
    sched_step s (s\<lparr>ss_tab := (ss_tab s)[i := (ss_tab s ! i)\<lparr>p_chan := Some ch, p_state := SLEEPING\<rparr>], ss_cpu := (ss_cpu s)(c := None)\<rparr>)"
| exit: "ss_cpu s c = Some i \<Longrightarrow>
    sched_step s (s\<lparr>ss_tab := (map (wake_proc ch) (ss_tab s))[i := (ss_tab s ! i)\<lparr>p_state := ZOMBIE\<rparr>], ss_cpu := (ss_cpu s)(c := None)\<rparr>)"
| wake: "sched_step s (s\<lparr>ss_tab := map (wake_proc ch) (ss_tab s)\<rparr>)"
| kill: "i < length (ss_tab s) \<Longrightarrow>
    sched_step s (s\<lparr>ss_tab := (ss_tab s)[i := kill_proc (ss_tab s ! i)]\<rparr>)"
| create: "i < length (ss_tab s) \<Longrightarrow> p_state (ss_tab s ! i) = UNUSED \<Longrightarrow>
    sched_step s (s\<lparr>ss_tab := (ss_tab s)[i := embryo pid k (ss_tab s ! i)]\<rparr>)"
| start: "i < length (ss_tab s) \<Longrightarrow> p_state (ss_tab s ! i) = EMBRYO \<Longrightarrow>
    sched_step s (s\<lparr>ss_tab := (ss_tab s)[i := (ss_tab s ! i)\<lparr>p_state := RUNNABLE\<rparr>]\<rparr>)"
| reap: "i < length (ss_tab s) \<Longrightarrow> p_state (ss_tab s ! i) = ZOMBIE \<Longrightarrow>
    sched_step s (s\<lparr>ss_tab := (ss_tab s)[i := (ss_tab s ! i)\<lparr>p_kstack := 0, p_pid := 0, p_parent := None,
      p_name := [], p_killed := 0, p_state := UNUSED\<rparr>]\<rparr>)"

inductive sched_reach :: "schedsys \<Rightarrow> bool" where
  boot: "(\<And>p. p \<in> set (ss_tab s) \<Longrightarrow> p_state p = UNUSED) \<Longrightarrow> ss_cpu s = (\<lambda>_. None) \<Longrightarrow> sched_reach s"
| more: "sched_reach s \<Longrightarrow> sched_step s t \<Longrightarrow> sched_reach t"

definition sched_inv :: "schedsys \<Rightarrow> bool" where
  "sched_inv s \<longleftrightarrow>
     (\<forall>c i. ss_cpu s c = Some i \<longrightarrow> i < length (ss_tab s) \<and> p_state (ss_tab s ! i) = RUNNING) \<and>
     (\<forall>c d i. ss_cpu s c = Some i \<longrightarrow> ss_cpu s d = Some i \<longrightarrow> c = d) \<and>
     (\<forall>i < length (ss_tab s). p_state (ss_tab s ! i) = RUNNING \<longrightarrow> (\<exists>c. ss_cpu s c = Some i))"

lemma sched_inv_table:
  assumes "sched_inv s" "length tab = length (ss_tab s)"
    "\<And>i. i < length tab \<Longrightarrow> p_state (tab ! i) = RUNNING \<longleftrightarrow> p_state (ss_tab s ! i) = RUNNING"
  shows "sched_inv (s\<lparr>ss_tab := tab\<rparr>)"
  using assms by (fastforce simp: sched_inv_def)

lemma sched_inv_off:
  assumes "sched_inv s" "ss_cpu s c = Some i" "length tab = length (ss_tab s)" "p_state (tab ! i) \<noteq> RUNNING"
    "\<And>j. j < length tab \<Longrightarrow> j \<noteq> i \<Longrightarrow> p_state (tab ! j) = RUNNING \<longleftrightarrow> p_state (ss_tab s ! j) = RUNNING"
  shows "sched_inv (s\<lparr>ss_tab := tab, ss_cpu := (ss_cpu s)(c := None)\<rparr>)"
proof -
  have uniq: "d = c" if "ss_cpu s d = Some i" for d
    using assms(1,2) that unfolding sched_inv_def by blast
  have other: "j \<noteq> i" if "ss_cpu s d = Some j" "d \<noteq> c" for d j using uniq that by blast
  show ?thesis
    unfolding sched_inv_def
  proof (intro conjI allI impI)
    fix d j assume "ss_cpu (s\<lparr>ss_tab := tab, ss_cpu := (ss_cpu s)(c := None)\<rparr>) d = Some j"
    then have d: "ss_cpu s d = Some j" "d \<noteq> c" by (auto split: if_splits)
    then have j: "j < length (ss_tab s)" "p_state (ss_tab s ! j) = RUNNING"
      using assms(1) unfolding sched_inv_def by blast+
    then show "j < length (ss_tab (s\<lparr>ss_tab := tab, ss_cpu := (ss_cpu s)(c := None)\<rparr>))"
      "p_state (ss_tab (s\<lparr>ss_tab := tab, ss_cpu := (ss_cpu s)(c := None)\<rparr>) ! j) = RUNNING"
      using assms(3,5) other [OF d] by simp_all
  next
    fix d e j
    assume "ss_cpu (s\<lparr>ss_tab := tab, ss_cpu := (ss_cpu s)(c := None)\<rparr>) d = Some j"
      "ss_cpu (s\<lparr>ss_tab := tab, ss_cpu := (ss_cpu s)(c := None)\<rparr>) e = Some j"
    then show "d = e" using assms(1) unfolding sched_inv_def by (auto split: if_splits)
  next
    fix j assume "j < length (ss_tab (s\<lparr>ss_tab := tab, ss_cpu := (ss_cpu s)(c := None)\<rparr>))"
      "p_state (ss_tab (s\<lparr>ss_tab := tab, ss_cpu := (ss_cpu s)(c := None)\<rparr>) ! j) = RUNNING"
    then have j: "j < length tab" "p_state (tab ! j) = RUNNING" by simp_all
    then have "j \<noteq> i" using assms(4) by auto
    then have "j < length (ss_tab s)" "p_state (ss_tab s ! j) = RUNNING" using j assms(3,5) by simp_all
    then obtain d where "ss_cpu s d = Some j" using assms(1) unfolding sched_inv_def by blast
    moreover from this have "d \<noteq> c" using \<open>j \<noteq> i\<close> assms(2) by auto
    ultimately show "\<exists>d. ss_cpu (s\<lparr>ss_tab := tab, ss_cpu := (ss_cpu s)(c := None)\<rparr>) d = Some j" by auto
  qed
qed

lemma state_simps [simp]:
  "p_state (wake_proc ch p) = RUNNING \<longleftrightarrow> p_state p = RUNNING"
  "p_state (kill_proc p) = RUNNING \<longleftrightarrow> p_state p = RUNNING"
  "p_state (embryo pid k p) = EMBRYO"
  by (simp_all add: wake_proc_def kill_proc_def embryo_def Let_def)

lemma sched_step_inv: "sched_step s t \<Longrightarrow> sched_inv s \<Longrightarrow> sched_inv t"
proof (induction rule: sched_step.induct)
  case (dispatch s c i)
  then have "ss_cpu s d \<noteq> Some i" for d unfolding sched_inv_def by fastforce
  moreover have "d \<noteq> c" if "ss_cpu s d = Some j" for d j using that dispatch(1) by auto
  ultimately show ?case
    using dispatch unfolding sched_inv_def by (auto simp: nth_list_update) metis
next
  case (yield s c i)
  have "i < length (ss_tab s)" using yield unfolding sched_inv_def by blast
  then show ?case by (intro sched_inv_off [OF yield(2,1)]) simp_all
next
  case (sleep s c i ch)
  have "i < length (ss_tab s)" using sleep unfolding sched_inv_def by blast
  then show ?case by (intro sched_inv_off [OF sleep(2,1)]) simp_all
next
  case (exit s c i ch)
  have "i < length (ss_tab s)" using exit unfolding sched_inv_def by blast
  then show ?case by (intro sched_inv_off [OF exit(2,1)]) simp_all
qed (auto intro!: sched_inv_table simp: nth_list_update split: if_splits)

lemma sched_reach_inv: "sched_reach s \<Longrightarrow> sched_inv s"
proof (induction rule: sched_reach.induct)
  case (boot s)
  then have "p_state (ss_tab s ! i) = UNUSED" if "i < length (ss_tab s)" for i using that nth_mem by blast
  then show ?case using boot(2) by (simp add: sched_inv_def)
next
  case (more s t)
  then show ?case using sched_step_inv by blast
qed


section \<open>Sleep and wakeup\<close>

text \<open>
  One process that waits for a condition, \<open>acquire(lk); while(!cond) sleep(chan, lk);\<close>, and any number
  that make it true, \<open>acquire(lk); cond = 1; wakeup(chan); release(lk);\<close>, interleaved at every lock
  operation of \<open>sleep\<close> and \<open>wakeup\<close>. The sleeper's \<open>sched\<close> hands \<open>ptable.lock\<close> to the scheduler, which
  gives it back to the process it dispatches.
\<close>

datatype sleeper = S_start | S_test | S_plock | S_unlock | S_sched | S_asleep | S_woken | S_relock | S_done
datatype waker = W_start | W_set | W_plock | W_wake | W_punlock | W_unlock | W_end
datatype holder = Nobody | TheSleeper | Waker nat

record swsys =
  sw_cond :: bool
  sw_lk :: holder
  sw_pl :: holder
  sw_asleep :: bool
  sw_s :: sleeper
  sw_w :: "nat \<Rightarrow> waker"

inductive sw_step :: "swsys \<Rightarrow> swsys \<Rightarrow> bool" where
  s_acquire: "sw_s s = S_start \<Longrightarrow> sw_lk s = Nobody \<Longrightarrow> sw_step s (s\<lparr>sw_lk := TheSleeper, sw_s := S_test\<rparr>)"
| s_test: "sw_s s = S_test \<Longrightarrow> sw_step s (s\<lparr>sw_s := (if sw_cond s then S_done else S_plock)\<rparr>)"
| s_plock: "sw_s s = S_plock \<Longrightarrow> sw_pl s = Nobody \<Longrightarrow> sw_step s (s\<lparr>sw_pl := TheSleeper, sw_s := S_unlock\<rparr>)"
| s_unlock: "sw_s s = S_unlock \<Longrightarrow> sw_step s (s\<lparr>sw_lk := Nobody, sw_s := S_sched\<rparr>)"
| s_sched: "sw_s s = S_sched \<Longrightarrow> sw_step s (s\<lparr>sw_asleep := True, sw_pl := Nobody, sw_s := S_asleep\<rparr>)"
| s_run: "sw_s s = S_asleep \<Longrightarrow> \<not> sw_asleep s \<Longrightarrow> sw_pl s = Nobody \<Longrightarrow>
    sw_step s (s\<lparr>sw_pl := TheSleeper, sw_s := S_woken\<rparr>)"
| s_punlock: "sw_s s = S_woken \<Longrightarrow> sw_step s (s\<lparr>sw_pl := Nobody, sw_s := S_relock\<rparr>)"
| s_relock: "sw_s s = S_relock \<Longrightarrow> sw_lk s = Nobody \<Longrightarrow> sw_step s (s\<lparr>sw_lk := TheSleeper, sw_s := S_test\<rparr>)"
| w_acquire: "sw_w s w = W_start \<Longrightarrow> sw_lk s = Nobody \<Longrightarrow>
    sw_step s (s\<lparr>sw_lk := Waker w, sw_w := (sw_w s)(w := W_set)\<rparr>)"
| w_set: "sw_w s w = W_set \<Longrightarrow> sw_step s (s\<lparr>sw_cond := True, sw_w := (sw_w s)(w := W_plock)\<rparr>)"
| w_plock: "sw_w s w = W_plock \<Longrightarrow> sw_pl s = Nobody \<Longrightarrow>
    sw_step s (s\<lparr>sw_pl := Waker w, sw_w := (sw_w s)(w := W_wake)\<rparr>)"
| w_wake: "sw_w s w = W_wake \<Longrightarrow> sw_step s (s\<lparr>sw_asleep := False, sw_w := (sw_w s)(w := W_punlock)\<rparr>)"
| w_punlock: "sw_w s w = W_punlock \<Longrightarrow> sw_step s (s\<lparr>sw_pl := Nobody, sw_w := (sw_w s)(w := W_unlock)\<rparr>)"
| w_unlock: "sw_w s w = W_unlock \<Longrightarrow> sw_step s (s\<lparr>sw_lk := Nobody, sw_w := (sw_w s)(w := W_end)\<rparr>)"

inductive sw_reach :: "swsys \<Rightarrow> bool" where
  sw_boot: "sw_reach \<lparr>sw_cond = False, sw_lk = Nobody, sw_pl = Nobody, sw_asleep = False,
    sw_s = S_start, sw_w = (\<lambda>_. W_start)\<rparr>"
| sw_more: "sw_reach s \<Longrightarrow> sw_step s t \<Longrightarrow> sw_reach t"

definition sw_inv :: "swsys \<Rightarrow> bool" where
  "sw_inv s \<longleftrightarrow>
     (sw_lk s = TheSleeper \<longleftrightarrow> sw_s s \<in> {S_test, S_plock, S_unlock, S_done}) \<and>
     (\<forall>w. sw_lk s = Waker w \<longleftrightarrow> sw_w s w \<in> {W_set, W_plock, W_wake, W_punlock, W_unlock}) \<and>
     (sw_pl s = TheSleeper \<longleftrightarrow> sw_s s \<in> {S_unlock, S_sched, S_woken}) \<and>
     (\<forall>w. sw_pl s = Waker w \<longleftrightarrow> sw_w s w \<in> {W_wake, W_punlock}) \<and>
     (sw_asleep s \<longrightarrow> sw_s s = S_asleep) \<and>
     (sw_s s \<in> {S_plock, S_unlock} \<longrightarrow> \<not> sw_cond s) \<and>
     (sw_cond s \<and> (sw_s s = S_sched \<or> sw_asleep s) \<longrightarrow> (\<exists>w. sw_w s w \<in> {W_plock, W_wake}))"

lemma sw_still:
  assumes "sw_inv s" "sw_w s w \<notin> {W_plock, W_wake}" "sw_cond s" "sw_s s = S_sched \<or> sw_asleep s"
  shows "\<exists>v. v \<noteq> w \<and> (sw_w s v = W_plock \<or> sw_w s v = W_wake)"
proof -
  have "\<exists>v. sw_w s v \<in> {W_plock, W_wake}" using assms(1,3,4) by (simp only: sw_inv_def)
  then obtain v where "sw_w s v \<in> {W_plock, W_wake}" ..
  moreover from this have "v \<noteq> w" using assms(2) by metis
  ultimately show ?thesis by auto
qed

lemma sw_holder:
  assumes "sw_inv s"
  shows "sw_lk s = Waker w \<Longrightarrow> v \<noteq> w \<Longrightarrow> sw_w s v \<notin> {W_set, W_plock, W_wake, W_punlock, W_unlock}"
    and "sw_pl s = Waker w \<Longrightarrow> v \<noteq> w \<Longrightarrow> sw_w s v \<notin> {W_wake, W_punlock}"
    and "sw_lk s = Waker w \<Longrightarrow> sw_s s \<notin> {S_test, S_plock, S_unlock, S_done}"
    and "sw_pl s = Waker w \<Longrightarrow> sw_s s \<notin> {S_unlock, S_sched, S_woken}"
proof -
  have l: "sw_lk s = TheSleeper \<longleftrightarrow> sw_s s \<in> {S_test, S_plock, S_unlock, S_done}"
    "sw_lk s = Waker x \<longleftrightarrow> sw_w s x \<in> {W_set, W_plock, W_wake, W_punlock, W_unlock}"
    "sw_pl s = TheSleeper \<longleftrightarrow> sw_s s \<in> {S_unlock, S_sched, S_woken}"
    "sw_pl s = Waker x \<longleftrightarrow> sw_w s x \<in> {W_wake, W_punlock}" for x
    using assms by (simp_all only: sw_inv_def)
  show "sw_lk s = Waker w \<Longrightarrow> v \<noteq> w \<Longrightarrow> sw_w s v \<notin> {W_set, W_plock, W_wake, W_punlock, W_unlock}"
    "sw_pl s = Waker w \<Longrightarrow> v \<noteq> w \<Longrightarrow> sw_w s v \<notin> {W_wake, W_punlock}"
    "sw_lk s = Waker w \<Longrightarrow> sw_s s \<notin> {S_test, S_plock, S_unlock, S_done}"
    "sw_pl s = Waker w \<Longrightarrow> sw_s s \<notin> {S_unlock, S_sched, S_woken}"
    unfolding l [symmetric] by simp_all
qed

lemma sw_step_inv: "sw_step s t \<Longrightarrow> sw_inv s \<Longrightarrow> sw_inv t"
proof (induction rule: sw_step.induct)
  case (s_acquire s)
  then show ?case unfolding sw_inv_def by (auto split: if_splits)
next
  case (s_test s)
  then show ?case unfolding sw_inv_def by (auto split: if_splits)
next
  case (s_plock s)
  then show ?case unfolding sw_inv_def by (auto split: if_splits)
next
  case (s_unlock s)
  then show ?case unfolding sw_inv_def by (auto split: if_splits)
next
  case (s_sched s)
  then show ?case unfolding sw_inv_def by (auto split: if_splits)
next
  case (s_run s)
  then show ?case unfolding sw_inv_def by (auto split: if_splits)
next
  case (s_punlock s)
  then show ?case unfolding sw_inv_def by (auto split: if_splits)
next
  case (s_relock s)
  then show ?case unfolding sw_inv_def by (auto split: if_splits)
next
  case (w_acquire s w)
  then show ?case unfolding sw_inv_def by (auto split: if_splits)
next
  case (w_set s w)
  then have lk: "sw_lk s = Waker w" unfolding sw_inv_def by blast
  moreover have "sw_s s \<noteq> S_plock" "sw_s s \<noteq> S_unlock" using sw_holder(3) [OF w_set(2) lk] by blast+
  moreover have "\<exists>v. ((sw_w s)(w := W_plock)) v \<in> {W_plock, W_wake}" by (rule exI [of _ w]) simp
  ultimately show ?case using w_set unfolding sw_inv_def by simp
next
  case (w_plock s w)
  then have "sw_lk s = Waker w" unfolding sw_inv_def by blast
  moreover have "\<exists>v. ((sw_w s)(w := W_wake)) v \<in> {W_plock, W_wake}" by (rule exI [of _ w]) simp
  ultimately show ?case using w_plock unfolding sw_inv_def by simp
next
  case (w_wake s w)
  then have h: "sw_lk s = Waker w" "sw_pl s = Waker w" unfolding sw_inv_def by blast+
  moreover have "sw_s s \<noteq> S_sched" using sw_holder(4) [OF w_wake(2) h(2)] by blast
  ultimately show ?case using w_wake unfolding sw_inv_def by simp
next
  case (w_punlock s w)
  then have h: "sw_lk s = Waker w" "sw_pl s = Waker w" unfolding sw_inv_def by blast+
  moreover have "sw_s s \<notin> {S_unlock, S_sched, S_woken}" "\<And>v. v \<noteq> w \<Longrightarrow> sw_w s v \<notin> {W_wake, W_punlock}"
    using sw_holder(2,4) [OF w_punlock(2) h(2)] by blast+
  moreover have "\<not> (sw_cond s \<and> (sw_s s = S_sched \<or> sw_asleep s))"
    using sw_still [OF w_punlock(2), of w] sw_holder(1) [OF w_punlock(2) h(1)] w_punlock(1) by fastforce
  ultimately show ?case using w_punlock unfolding sw_inv_def by simp blast
next
  case (w_unlock s w)
  then have h: "sw_lk s = Waker w" unfolding sw_inv_def by blast
  moreover have "sw_s s \<notin> {S_test, S_plock, S_unlock, S_done}"
      "\<And>v. v \<noteq> w \<Longrightarrow> sw_w s v \<notin> {W_set, W_plock, W_wake, W_punlock, W_unlock}"
    using sw_holder(1,3) [OF w_unlock(2) h] by blast+
  moreover have "\<not> (sw_cond s \<and> (sw_s s = S_sched \<or> sw_asleep s))"
    using sw_still [OF w_unlock(2), of w] sw_holder(1) [OF w_unlock(2) h] w_unlock(1) by fastforce
  ultimately show ?case using w_unlock unfolding sw_inv_def by simp
qed

lemma sw_reach_inv: "sw_reach s \<Longrightarrow> sw_inv s"
proof (induction rule: sw_reach.induct)
  case sw_boot
  then show ?case by (simp add: sw_inv_def)
next
  case (sw_more s t)
  then show ?case using sw_step_inv by blast
qed


section \<open>Instances\<close>

definition ex_proc :: proc where
  "ex_proc = \<lparr>p_sz = 0, p_pgdir = 0, p_kstack = 0, p_state = UNUSED, p_pid = 0, p_parent = None, p_tf = 0,
     p_context = 0, p_chan = None, p_killed = 0, p_ofile = replicate NOFILE None, p_cwd = None, p_name = []\<rparr>"

definition ex_procs :: proc_st where
  "ex_procs = con_st.extend ex_con
     \<lparr>kdata = 0x80108000, kpgdir = 0, cr3 = (\<lambda>_. 0), ts_esp0 = (\<lambda>_. 0),
      ptable = replicate NPROC ex_proc, initproc = None, nextpid = 1, trapret = 0x80105000, forkret = 0x80103000\<rparr>"

lemma ex_procs_fields [simp]:
  "crit [] ex_procs" "ptable ex_procs = replicate 64 ex_proc" "nextpid ex_procs = 1"
  "kmem_inv ex_procs [0x80200000, 0x80201000]" "initproc ex_procs = None"
  using ex_hw_crit ex_kmem_inv
  by (simp_all add: ex_procs_def ex_con_def ex_kmem_def con_st.defs kmem_st.defs hw.defs)

lemma ex_procs_pid: "pid_inv ex_procs"
  by (simp add: pid_inv_def ex_proc_def)


theorem kill_zero_born_killed_witness:
  "\<exists>s1 s2. kill 0 ex_procs = Inr (0, s1) \<and> allocproc s1 = Inr (Some 0, s2) \<and> p_killed (ptable s2 ! 0) = 1"
proof -
  have "find_pid 0 (ptable ex_procs) 0 = Some 0" "find_unused (ptable ex_procs) 0 = Some 0"
    by (simp_all add: ex_proc_def numeral_eq_Suc)
  from kill_zero_born_killed [OF ex_procs_fields(1,4) this] show ?thesis by auto
qed

definition ex_sched :: schedsys where
  "ex_sched = \<lparr>ss_tab = [ex_proc], ss_cpu = (\<lambda>_. None)\<rparr>"



end
