(* ===== verification/Sleeplock.thy ===== *)
theory Sleeplock
  imports Proc
begin

text \<open>
  \<open>sleeplock.c\<close>: long-term locks a process sleeps for. The locks of the buffer cache and of the inode
  cache are named by \<open>slid\<close>; each has an inner spin lock and its own sleep channel. The file-system
  layers above run over this state; \<open>base_of\<close> collects what their operations leave alone.
\<close>

section \<open>State and operations\<close>

record sleeplock =
  sl_locked :: u32
  sl_name :: string
  sl_pid :: int

record slp_st = proc_st +
  slocks :: "slid \<Rightarrow> sleeplock"

definition sl_set :: "slid \<Rightarrow> (sleeplock \<Rightarrow> sleeplock) \<Rightarrow> 'a slp_st_scheme \<Rightarrow> 'a slp_st_scheme" where
  "sl_set lk f s = s\<lparr>slocks := (slocks s)(lk := f (slocks s lk))\<rparr>"

definition initsleeplock :: "slid \<Rightarrow> string \<Rightarrow> 'a slp_st_scheme \<Rightarrow> 'a slp_st_scheme" where
  "initsleeplock lk nm s =
     (let s = initlock (SleepLk lk) ''sleep lock'' s in
      sl_set lk (\<lambda>l. l\<lparr>sl_name := nm, sl_locked := 0, sl_pid := 0\<rparr>) s)"

definition acquiresleep :: "slid \<Rightarrow> 'a slp_st_scheme \<Rightarrow> ('a slp_st_scheme) kres" where
  "acquiresleep lk s =
     bindE (acquire (SleepLk lk) s) (\<lambda>s.
       if sl_locked (slocks s lk) \<noteq> 0 then sleep (ChSleeplock lk) (SleepLk lk) s
       else
         let s = sl_set lk (\<lambda>l. l\<lparr>sl_locked := 1\<rparr>) s in
         bindE (myproc s) (\<lambda>(p, s).
         case p of None \<Rightarrow> Inl Fault
         | Some i \<Rightarrow> release (SleepLk lk) (sl_set lk (\<lambda>l. l\<lparr>sl_pid := p_pid (ptable s ! i)\<rparr>) s)))"

definition releasesleep :: "slid \<Rightarrow> 'a slp_st_scheme \<Rightarrow> ('a slp_st_scheme) kres" where
  "releasesleep lk s =
     bindE (acquire (SleepLk lk) s) (\<lambda>s.
     let s = sl_set lk (\<lambda>l. l\<lparr>sl_locked := 0, sl_pid := 0\<rparr>) s in
     bindE (wakeup (ChSleeplock lk) s) (release (SleepLk lk)))"

definition holdingsleep :: "slid \<Rightarrow> 'a slp_st_scheme \<Rightarrow> (bool \<times> 'a slp_st_scheme) kres" where
  "holdingsleep lk s =
     bindE (acquire (SleepLk lk) s) (\<lambda>s.
     bindE (if sl_locked (slocks s lk) = 0 then Inr (False, s)
            else bindE (myproc s) (\<lambda>(p, s).
              case p of None \<Rightarrow> Inl Fault
              | Some i \<Rightarrow> Inr (sl_pid (slocks s lk) = p_pid (ptable s ! i), s))) (\<lambda>(r, s).
     bindE (release (SleepLk lk) s) (\<lambda>s. Inr (r, s))))"

section \<open>What the layers above leave alone\<close>

definition base_of :: "'a slp_st_scheme \<Rightarrow> nat option \<times> memory \<times> u32 \<times> u32 \<times> int \<times> (int \<times> int \<times> int list \<times> int) \<times> u32 \<times> nat option \<times> int list" where
  "base_of s = (curproc s, mem s, kend s, freelist s, use_lock s,
     (panicked s, cons_locking s, uart_out s, crt_pos s), kpgdir s, initproc s, map p_pid (ptable s))"

definition mypid :: "'a slp_st_scheme \<Rightarrow> int" where
  "mypid s = map p_pid (ptable s) ! the (curproc s)"

definition live :: "'a slp_st_scheme \<Rightarrow> bool" where
  "live s \<longleftrightarrow> (case curproc s of None \<Rightarrow> False | Some i \<Rightarrow> i < length (ptable s))"

lemma base_ofD:
  assumes "base_of s' = base_of s"
  shows "curproc s' = curproc s" "mem s' = mem s" "map p_pid (ptable s') = map p_pid (ptable s)"
    "mypid s' = mypid s" "live s' = live s" "kend s' = kend s" "freelist s' = freelist s" "initproc s' = initproc s"
proof -
  show a: "curproc s' = curproc s" "mem s' = mem s" "map p_pid (ptable s') = map p_pid (ptable s)"
    "kend s' = kend s" "freelist s' = freelist s" "initproc s' = initproc s"
    using assms by (simp_all add: base_of_def)
  have "length (ptable s') = length (ptable s)" using a(3) by (metis length_map)
  then show "mypid s' = mypid s" "live s' = live s" using a by (simp_all add: mypid_def live_def split: option.split)
qed

lemma slp_acq_rel [simp]:
  "slocks (acq lk s) = slocks s" "slp_st.more (acq lk s) = slp_st.more s"
  "slocks (rel lk s) = slocks s" "slp_st.more (rel lk s) = slp_st.more s"
  by (simp_all add: acq_def pushed_def cli_def rel_def popped_def sti_def Let_def)

lemma base_of_acq_rel [simp]:
  "crit L s \<Longrightarrow> base_of (acq lk s) = base_of s" "crit L s \<Longrightarrow> base_of (rel lk s) = base_of s"
  by (simp_all add: base_of_def)

lemma curproc_slocks [simp]: "curproc (s\<lparr>slocks := x\<rparr>) = curproc s"
  by (simp add: curproc_def curcpu_def)

lemma base_of_slocks [simp]: "base_of (s\<lparr>slocks := x\<rparr>) = base_of s"
  by (simp add: base_of_def)

lemma slp_more_fields:
  fixes s s' :: "'a slp_st_scheme"
  assumes "proc_st.more s' = proc_st.more s"
  shows "slocks s' = slocks s" "slp_st.more s' = slp_st.more s"
  using assms by (cases s; cases s'; simp)+

lemma sys_frame_base:
  fixes s s' :: "'a slp_st_scheme"
  assumes "sys_frame L s s'" "map p_pid (ptable s') = map p_pid (ptable s)"
  shows "base_of s' = base_of s"
  using assms by (simp add: sys_frame_def base_of_def)

lemma wakeup_base:
  fixes s :: "'a slp_st_scheme"
  assumes "crit L s" "PtableLock \<notin> set L"
  shows "\<exists>s'. wakeup ch s = Inr s' \<and> crit L s' \<and> base_of s' = base_of s \<and> slocks s' = slocks s \<and>
    slp_st.more s' = slp_st.more s"
proof -
  obtain s' where s': "wakeup ch s = Inr s'" "sys_frame L s s'" "ptable s' = map (wake_proc ch) (ptable s)"
    using wakeup_ok [OF assms] by blast
  have m: "proc_st.more s' = proc_st.more s" "crit L s'" using s'(2) by (simp_all add: sys_frame_def)
  show ?thesis
    using s' m sys_frame_base [OF s'(2)] slp_more_fields [OF m(1)] by (intro exI [of _ s']) simp
qed

section \<open>The operations\<close>

lemma myproc_base:
  fixes s :: "'a slp_st_scheme"
  assumes "crit L s" "L \<noteq> []"
  shows "myproc s = Inr (curproc s, s)"
  using myproc_ok [OF assms(1)] assms(2) by auto

lemma acquiresleep_ok:
  assumes "crit L s" "SleepLk lk \<notin> set L" "live s" "sl_locked (slocks s lk) = 0"
  shows "\<exists>s'. acquiresleep lk s = Inr s' \<and> crit L s' \<and> base_of s' = base_of s \<and>
    slocks s' = (slocks s)(lk := (slocks s lk)\<lparr>sl_locked := 1, sl_pid := mypid s\<rparr>) \<and> slp_st.more s' = slp_st.more s"
proof -
  obtain i where i: "curproc s = Some i" "i < length (ptable s)" using assms(3) by (auto simp: live_def split: option.splits)
  let ?a = "acq (SleepLk lk) s"
  let ?b = "?a\<lparr>slocks := (slocks s)(lk := (slocks s lk)\<lparr>sl_locked := 1\<rparr>)\<rparr>"
  let ?c = "?a\<lparr>slocks := (slocks s)(lk := (slocks s lk)\<lparr>sl_locked := 1, sl_pid := mypid s\<rparr>)\<rparr>"
  have c: "crit (SleepLk lk # L) ?b" "crit (SleepLk lk # L) ?c" using crit_acq [OF assms(1,2)] by simp_all
  have "myproc ?b = Inr (Some i, ?b)"
    using myproc_base [OF c(1)] i curproc_acq [OF assms(1)] by simp
  then have "acquiresleep lk s = Inr (rel (SleepLk lk) ?c)"
    using acquire_ok [OF assms(1,2)] assms(4) release_ok [OF c(2), of "SleepLk lk"] i
    by (simp add: acquiresleep_def sl_set_def mypid_def)
  moreover have "base_of (rel (SleepLk lk) ?c) = base_of s"
    using base_of_acq_rel(2) [OF c(2)] base_of_acq_rel(1) [OF assms(1)] by simp
  ultimately show ?thesis using crit_rel [OF c(2), of "SleepLk lk"] by simp
qed

lemma releasesleep_ok:
  assumes "crit L s" "SleepLk lk \<notin> set L" "PtableLock \<notin> set L"
  shows "\<exists>s'. releasesleep lk s = Inr s' \<and> crit L s' \<and> base_of s' = base_of s \<and>
    slocks s' = (slocks s)(lk := (slocks s lk)\<lparr>sl_locked := 0, sl_pid := 0\<rparr>) \<and> slp_st.more s' = slp_st.more s"
proof -
  let ?a = "acq (SleepLk lk) s"
  let ?b = "?a\<lparr>slocks := (slocks s)(lk := (slocks s lk)\<lparr>sl_locked := 0, sl_pid := 0\<rparr>)\<rparr>"
  have c: "crit (SleepLk lk # L) ?b" using crit_acq [OF assms(1,2)] by simp
  obtain s1 where s1: "wakeup (ChSleeplock lk) ?b = Inr s1" "crit (SleepLk lk # L) s1" "base_of s1 = base_of ?b"
    "slocks s1 = slocks ?b" "slp_st.more s1 = slp_st.more ?b"
    using wakeup_base [OF c] assms(3) by auto
  have "releasesleep lk s = Inr (rel (SleepLk lk) s1)"
    using acquire_ok [OF assms(1,2)] s1(1) release_ok [OF s1(2), of "SleepLk lk"]
    by (simp add: releasesleep_def sl_set_def)
  moreover have "base_of (rel (SleepLk lk) s1) = base_of s"
    using base_of_acq_rel(2) [OF s1(2)] s1(3) base_of_acq_rel(1) [OF assms(1)] by simp
  ultimately show ?thesis using crit_rel [OF s1(2), of "SleepLk lk"] s1(4,5) by simp
qed

lemma holdingsleep_ok:
  assumes "crit L s" "SleepLk lk \<notin> set L" "live s"
  shows "\<exists>s'. holdingsleep lk s = Inr (sl_locked (slocks s lk) \<noteq> 0 \<and> sl_pid (slocks s lk) = mypid s, s') \<and>
    crit L s' \<and> base_of s' = base_of s \<and> slocks s' = slocks s \<and> slp_st.more s' = slp_st.more s"
proof -
  obtain i where i: "curproc s = Some i" "i < length (ptable s)" using assms(3) by (auto simp: live_def split: option.splits)
  let ?a = "acq (SleepLk lk) s"
  have c: "crit (SleepLk lk # L) ?a" using crit_acq [OF assms(1,2)] by simp
  have "myproc ?a = Inr (Some i, ?a)" using myproc_base [OF c] i curproc_acq [OF assms(1)] by simp
  then have "holdingsleep lk s = Inr (sl_locked (slocks s lk) \<noteq> 0 \<and> sl_pid (slocks s lk) = mypid s, rel (SleepLk lk) ?a)"
    using acquire_ok [OF assms(1,2)] release_ok [OF c, of "SleepLk lk"] i
    by (simp add: holdingsleep_def mypid_def)
  moreover have "base_of (rel (SleepLk lk) ?a) = base_of s"
    using base_of_acq_rel(2) [OF c] base_of_acq_rel(1) [OF assms(1)] by simp
  ultimately show ?thesis using crit_rel [OF c, of "SleepLk lk"] by simp
qed

end
