(* ===== verification/Bytes.thy ===== *)
theory Bytes
  imports Xv6_Prelude
begin

text \<open>
  Blocks as byte lists: the little-endian loads and stores that C does through a pointer to a struct
  in a buffer's data, and \<open>memmove\<close> into and out of a block.
\<close>

definition ld16 :: "u8 list \<Rightarrow> nat \<Rightarrow> u16" where
  "ld16 d a = ucast (d ! a) OR push_bit 8 (ucast (d ! (a + 1)))"

definition st16 :: "u8 list \<Rightarrow> nat \<Rightarrow> u16 \<Rightarrow> u8 list" where
  "st16 d a v = d[a := ucast v, a + 1 := ucast (drop_bit 8 v)]"

definition ld32 :: "u8 list \<Rightarrow> nat \<Rightarrow> u32" where
  "ld32 d a = ucast (d ! a) OR push_bit 8 (ucast (d ! (a + 1))) OR
     push_bit 16 (ucast (d ! (a + 2))) OR push_bit 24 (ucast (d ! (a + 3)))"

definition st32 :: "u8 list \<Rightarrow> nat \<Rightarrow> u32 \<Rightarrow> u8 list" where
  "st32 d a v = d[a := ucast v, a + 1 := ucast (drop_bit 8 v),
     a + 2 := ucast (drop_bit 16 v), a + 3 := ucast (drop_bit 24 v)]"

fun put_words :: "u8 list \<Rightarrow> nat \<Rightarrow> u32 list \<Rightarrow> u8 list" where
  "put_words d a [] = d"
| "put_words d a (v # vs) = put_words (st32 d a v) (a + 4) vs"

definition get_words :: "u8 list \<Rightarrow> nat \<Rightarrow> nat \<Rightarrow> u32 list" where
  "get_words d a n = map (\<lambda>i. ld32 d (a + 4 * i)) [0..<n]"

text \<open>\<open>memmove\<close> of the bytes \<open>xs\<close> to offset \<open>a\<close> of a block, and of \<open>n\<close> bytes out of it.\<close>

definition blit :: "u8 list \<Rightarrow> nat \<Rightarrow> u8 list \<Rightarrow> u8 list" where
  "blit d a xs = take a d @ xs @ drop (a + length xs) d"

definition slice :: "u8 list \<Rightarrow> nat \<Rightarrow> nat \<Rightarrow> u8 list" where
  "slice d a n = take n (drop a d)"

section \<open>Loads after stores\<close>

lemma length_st [simp]: "length (st16 d a w) = length d" "length (st32 d a v) = length d"
  by (simp_all add: st16_def st32_def)

lemma length_put_words [simp]: "length (put_words d a vs) = length d"
  by (induction vs arbitrary: d a) simp_all

lemma ld32_st32 [simp]: "a + 4 \<le> length d \<Longrightarrow> ld32 (st32 d a v) a = v"
proof (rule bit_word_eqI)
  fix n assume l: "a + 4 \<le> length d" and "n < LENGTH(32)"
  then consider "n < 8" | "8 \<le> n" "n < 16" | "16 \<le> n" "n < 24" | "24 \<le> n" "n < 32"
    by fastforce
  then show "bit (ld32 (st32 d a v) a) n = bit v n"
    using l by cases (auto simp: ld32_def st32_def bit_simps nth_list_update)
qed

lemma ld16_st16 [simp]: "a + 2 \<le> length d \<Longrightarrow> ld16 (st16 d a v) a = v"
proof (rule bit_word_eqI)
  fix n assume l: "a + 2 \<le> length d" and "n < LENGTH(16)"
  then consider "n < 8" | "8 \<le> n" "n < 16" by fastforce
  then show "bit (ld16 (st16 d a v) a) n = bit v n"
    using l by cases (auto simp: ld16_def st16_def bit_simps nth_list_update)
qed

lemma nth_st32: "i < a \<or> a + 4 \<le> i \<Longrightarrow> st32 d a v ! i = d ! i"
  by (auto simp: st32_def)

lemma nth_st16: "i < a \<or> a + 2 \<le> i \<Longrightarrow> st16 d a v ! i = d ! i"
  by (auto simp: st16_def)

lemma ld32_st32_other: "b + 4 \<le> a \<or> a + 4 \<le> b \<Longrightarrow> ld32 (st32 d a v) b = ld32 d b"
  by (auto simp: ld32_def nth_st32)

lemma ld32_st16_other: "b + 4 \<le> a \<or> a + 2 \<le> b \<Longrightarrow> ld32 (st16 d a v) b = ld32 d b"
  by (auto simp: ld32_def nth_st16)

lemma ld16_st32_other: "b + 2 \<le> a \<or> a + 4 \<le> b \<Longrightarrow> ld16 (st32 d a v) b = ld16 d b"
  by (auto simp: ld16_def nth_st32)

lemma ld16_st16_other: "b + 2 \<le> a \<or> a + 2 \<le> b \<Longrightarrow> ld16 (st16 d a v) b = ld16 d b"
  by (auto simp: ld16_def nth_st16)

lemma ld32_put_words_other: "b + 4 \<le> a \<or> a + 4 * length vs \<le> b \<Longrightarrow> ld32 (put_words d a vs) b = ld32 d b"
  by (induction vs arbitrary: d a) (auto simp: ld32_st32_other)

lemma nth_put_words: "i < a \<or> a + 4 * length vs \<le> i \<Longrightarrow> put_words d a vs ! i = d ! i"
  by (induction vs arbitrary: d a) (auto simp: nth_st32)

lemma ld32_put_words:
  "\<lbrakk>i < length vs; a + 4 * length vs \<le> length d\<rbrakk> \<Longrightarrow> ld32 (put_words d a vs) (a + 4 * i) = vs ! i"
proof (induction vs arbitrary: d a i)
  case (Cons v vs)
  show ?case
  proof (cases i)
    case 0
    then show ?thesis using Cons.prems by (simp add: ld32_put_words_other)
  next
    case (Suc j)
    then show ?thesis using Cons.prems Cons.IH [of j "a + 4" "st32 d a v"] by (simp add: algebra_simps)
  qed
qed simp

lemma get_put_words:
  "a + 4 * length vs \<le> length d \<Longrightarrow> get_words (put_words d a vs) a (length vs) = vs"
  by (auto simp: get_words_def ld32_put_words intro: nth_equalityI)

section \<open>Block copies\<close>

lemma length_blit [simp]: "a + length xs \<le> length d \<Longrightarrow> length (blit d a xs) = length d"
  by (simp add: blit_def)

lemma nth_blit:
  "\<lbrakk>a + length xs \<le> length d; i < length d\<rbrakk> \<Longrightarrow>
    blit d a xs ! i = (if a \<le> i \<and> i < a + length xs then xs ! (i - a) else d ! i)"
  by (auto simp: blit_def nth_append min_def)

lemma length_slice [simp]: "a + n \<le> length d \<Longrightarrow> length (slice d a n) = n"
  by (simp add: slice_def)

lemma nth_slice: "\<lbrakk>a + n \<le> length d; i < n\<rbrakk> \<Longrightarrow> slice d a n ! i = d ! (a + i)"
  by (simp add: slice_def)

lemma slice_blit [simp]: "a + length xs \<le> length d \<Longrightarrow> slice (blit d a xs) a (length xs) = xs"
  by (simp add: slice_def blit_def)

end
