(* ===== verification/Bio.thy ===== *)
theory Bio
  imports Sleeplock
begin

text \<open>
  The buffer cache of \<open>bio.c\<close> over the in-memory disk of \<open>memide.c\<close>. A buffer is named by its index in
  \<open>bcache.buf\<close>; index 30 is \<open>bcache.head\<close>, and \<open>b_prev\<close>, \<open>b_next\<close> are the links of the ring. The lemmas
  show that the ring is always the recency order of the buffers and that the cache refines a simple
  block store: contents of every block, contents of the disk, the pinned blocks and the held blocks.
\<close>

section \<open>State\<close>

record buf =
  b_flags :: u32
  b_dev :: u32
  b_blockno :: u32
  b_refcnt :: u32
  b_prev :: nat
  b_next :: nat
  b_data :: "u8 list"

definition B_VALID :: u32 where "B_VALID = 0x2"
definition B_DIRTY :: u32 where "B_DIRTY = 0x4"

text \<open>
  \<open>memdisk\<close> is the disk image as blocks of \<open>BSIZE\<close> bytes; \<open>dwrites\<close> records the block writes the disk
  has received, oldest first, which is what a crash can cut short.
\<close>

record bio_st = slp_st +
  bufs :: "buf list"
  memdisk :: "nat \<Rightarrow> u8 list"
  disksize :: u32
  dwrites :: "(nat \<times> u8 list) list"

abbreviation (input) BHEAD :: nat where "BHEAD \<equiv> 30"

definition b_set :: "nat \<Rightarrow> (buf \<Rightarrow> buf) \<Rightarrow> 'a bio_st_scheme \<Rightarrow> 'a bio_st_scheme" where
  "b_set i f s = s\<lparr>bufs := (bufs s)[i := f (bufs s ! i)]\<rparr>"

section \<open>The disk (memide.c)\<close>

text \<open>The linked-in image is a parameter: its start as blocks, and its size in bytes.\<close>

definition ideinit :: "(nat \<Rightarrow> u8 list) \<Rightarrow> u32 \<Rightarrow> 'a bio_st_scheme \<Rightarrow> 'a bio_st_scheme" where
  "ideinit fs_img_start fs_img_size s = s\<lparr>memdisk := fs_img_start, disksize := fs_img_size div 512\<rparr>"

definition iderw :: "nat \<Rightarrow> 'a bio_st_scheme \<Rightarrow> ('a bio_st_scheme) kres" where
  "iderw b s =
     bindE (holdingsleep (BufLk b) s) (\<lambda>(h, s).
       if \<not> h then Inl (Panic ''iderw: buf not locked'')
       else if b_flags (bufs s ! b) AND (B_VALID OR B_DIRTY) = B_VALID then Inl (Panic ''iderw: nothing to do'')
       else if b_dev (bufs s ! b) \<noteq> 1 then Inl (Panic ''iderw: request not for disk 1'')
       else if b_blockno (bufs s ! b) \<ge> disksize s then Inl (Panic ''iderw: block out of range'')
       else
         let p = unat (b_blockno (bufs s ! b));
             s = (if b_flags (bufs s ! b) AND B_DIRTY \<noteq> 0 then
                    let s = b_set b (\<lambda>x. x\<lparr>b_flags := b_flags x AND NOT B_DIRTY\<rparr>) s in
                    s\<lparr>memdisk := (memdisk s)(p := b_data (bufs s ! b)), dwrites := dwrites s @ [(p, b_data (bufs s ! b))]\<rparr>
                  else b_set b (\<lambda>x. x\<lparr>b_data := memdisk s p\<rparr>) s) in
         Inr (b_set b (\<lambda>x. x\<lparr>b_flags := b_flags x OR B_VALID\<rparr>) s))"

section \<open>The cache (bio.c)\<close>

definition link_front :: "nat \<Rightarrow> buf list \<Rightarrow> buf list" where
  "link_front b bs =
     (let bs = bs[b := (bs ! b)\<lparr>b_next := b_next (bs ! BHEAD)\<rparr>];
          bs = bs[b := (bs ! b)\<lparr>b_prev := BHEAD\<rparr>];
          n = b_next (bs ! BHEAD);
          bs = bs[n := (bs ! n)\<lparr>b_prev := b\<rparr>] in
      bs[BHEAD := (bs ! BHEAD)\<lparr>b_next := b\<rparr>])"

definition unlink_buf :: "nat \<Rightarrow> buf list \<Rightarrow> buf list" where
  "unlink_buf b bs =
     (let n = b_next (bs ! b);
          bs = bs[n := (bs ! n)\<lparr>b_prev := b_prev (bs ! b)\<rparr>];
          p = b_prev (bs ! b) in
      bs[p := (bs ! p)\<lparr>b_next := b_next (bs ! b)\<rparr>])"

fun binit_loop :: "nat list \<Rightarrow> 'a bio_st_scheme \<Rightarrow> 'a bio_st_scheme" where
  "binit_loop [] s = s"
| "binit_loop (b # bs) s =
     binit_loop bs (let s = initsleeplock (BufLk b) ''buffer'' s in s\<lparr>bufs := link_front b (bufs s)\<rparr>)"

definition binit :: "'a bio_st_scheme \<Rightarrow> 'a bio_st_scheme" where
  "binit s =
     (let s = initlock BcacheLock ''bcache'' s;
          s = b_set BHEAD (\<lambda>h. h\<lparr>b_prev := BHEAD, b_next := BHEAD\<rparr>) s in
      binit_loop [0..<NBUF] s)"

text \<open>The two scans of \<open>bget\<close>. The ring has 31 nodes: 31 steps reach the head again.\<close>

fun find_cached :: "nat \<Rightarrow> buf list \<Rightarrow> u32 \<Rightarrow> u32 \<Rightarrow> nat \<Rightarrow> (nat option) kres" where
  "find_cached 0 bs dev blockno b = Inl Diverge"
| "find_cached (Suc k) bs dev blockno b =
     (if b = BHEAD then Inr None
      else if b_dev (bs ! b) = dev \<and> b_blockno (bs ! b) = blockno then Inr (Some b)
      else find_cached k bs dev blockno (b_next (bs ! b)))"

fun find_recycle :: "nat \<Rightarrow> buf list \<Rightarrow> nat \<Rightarrow> (nat option) kres" where
  "find_recycle 0 bs b = Inl Diverge"
| "find_recycle (Suc k) bs b =
     (if b = BHEAD then Inr None
      else if b_refcnt (bs ! b) = 0 \<and> b_flags (bs ! b) AND B_DIRTY = 0 then Inr (Some b)
      else find_recycle k bs (b_prev (bs ! b)))"

definition bget :: "u32 \<Rightarrow> u32 \<Rightarrow> 'a bio_st_scheme \<Rightarrow> (nat \<times> 'a bio_st_scheme) kres" where
  "bget dev blockno s =
     bindE (acquire BcacheLock s) (\<lambda>s.
     bindE (find_cached 31 (bufs s) dev blockno (b_next (bufs s ! BHEAD))) (\<lambda>r.
       case r of
         Some b \<Rightarrow>
           let s = b_set b (\<lambda>x. x\<lparr>b_refcnt := b_refcnt x + 1\<rparr>) s in
           bindE (release BcacheLock s) (\<lambda>s.
           bindE (acquiresleep (BufLk b) s) (\<lambda>s. Inr (b, s)))
       | None \<Rightarrow>
           bindE (find_recycle 31 (bufs s) (b_prev (bufs s ! BHEAD))) (\<lambda>r.
             case r of
               Some b \<Rightarrow>
                 let s = b_set b (\<lambda>x. x\<lparr>b_dev := dev, b_blockno := blockno, b_flags := 0, b_refcnt := 1\<rparr>) s in
                 bindE (release BcacheLock s) (\<lambda>s.
                 bindE (acquiresleep (BufLk b) s) (\<lambda>s. Inr (b, s)))
             | None \<Rightarrow> Inl (Panic ''bget: no buffers''))))"

definition bread :: "u32 \<Rightarrow> u32 \<Rightarrow> 'a bio_st_scheme \<Rightarrow> (nat \<times> 'a bio_st_scheme) kres" where
  "bread dev blockno s =
     bindE (bget dev blockno s) (\<lambda>(b, s).
       if b_flags (bufs s ! b) AND B_VALID = 0 then bindE (iderw b s) (\<lambda>s. Inr (b, s))
       else Inr (b, s))"

definition bwrite :: "nat \<Rightarrow> 'a bio_st_scheme \<Rightarrow> ('a bio_st_scheme) kres" where
  "bwrite b s =
     bindE (holdingsleep (BufLk b) s) (\<lambda>(h, s).
       if \<not> h then Inl (Panic ''bwrite'')
       else iderw b (b_set b (\<lambda>x. x\<lparr>b_flags := b_flags x OR B_DIRTY\<rparr>) s))"

definition brelse :: "nat \<Rightarrow> 'a bio_st_scheme \<Rightarrow> ('a bio_st_scheme) kres" where
  "brelse b s =
     bindE (holdingsleep (BufLk b) s) (\<lambda>(h, s).
       if \<not> h then Inl (Panic ''brelse'')
       else
         bindE (releasesleep (BufLk b) s) (\<lambda>s.
         bindE (acquire BcacheLock s) (\<lambda>s.
         let s = b_set b (\<lambda>x. x\<lparr>b_refcnt := b_refcnt x - 1\<rparr>) s;
             s = (if b_refcnt (bufs s ! b) = 0
                  then s\<lparr>bufs := link_front b (unlink_buf b (bufs s))\<rparr> else s) in
         release BcacheLock s)))"

text \<open>The callers' stores into \<open>b->data\<close>.\<close>

definition bdata_set :: "nat \<Rightarrow> u8 list \<Rightarrow> 'a bio_st_scheme \<Rightarrow> 'a bio_st_scheme" where
  "bdata_set b d s = b_set b (\<lambda>x. x\<lparr>b_data := d\<rparr>) s"

section \<open>The ring is the recency order\<close>

fun linked :: "buf list \<Rightarrow> nat \<Rightarrow> nat list \<Rightarrow> nat \<Rightarrow> bool" where
  "linked bs a [] z \<longleftrightarrow> b_next (bs ! a) = z \<and> b_prev (bs ! z) = a"
| "linked bs a (x # xs) z \<longleftrightarrow> b_next (bs ! a) = x \<and> b_prev (bs ! x) = a \<and> linked bs x xs z"

definition ring :: "buf list \<Rightarrow> nat list \<Rightarrow> bool" where
  "ring bs xs \<longleftrightarrow> linked bs BHEAD xs BHEAD \<and> distinct xs \<and> set xs = {..<NBUF} \<and> length bs = Suc NBUF"

lemma linked_append: "linked bs a (xs @ y # ys) z \<longleftrightarrow> linked bs a xs y \<and> linked bs y ys z"
  by (induction xs arbitrary: a) auto

lemma linked_cong:
  "\<lbrakk>\<And>i. i \<in> set (a # xs) \<Longrightarrow> b_next (bs' ! i) = b_next (bs ! i);
    \<And>i. i \<in> set (xs @ [z]) \<Longrightarrow> b_prev (bs' ! i) = b_prev (bs ! i)\<rbrakk>
   \<Longrightarrow> linked bs' a xs z = linked bs a xs z"
  by (induction xs arbitrary: a) auto

lemma linked_next: "linked bs a xs z \<Longrightarrow> b_next (bs ! a) = hd (xs @ [z])"
  by (cases xs) auto

lemma linked_prev: "linked bs a xs z \<Longrightarrow> b_prev (bs ! z) = last (a # xs)"
  by (induction xs arbitrary: a) auto

text \<open>Setting one link at either end of a segment redirects that end.\<close>

lemma linked_redirect_last:
  assumes "linked bs a xs z" "z' \<notin> set xs" "distinct (a # xs)"
    "b_prev (bs' ! z') = last (a # xs)" "b_next (bs' ! last (a # xs)) = z'"
    "\<And>i. i \<in> set (butlast (a # xs)) \<Longrightarrow> b_next (bs' ! i) = b_next (bs ! i)"
    "\<And>i. i \<in> set xs \<Longrightarrow> b_prev (bs' ! i) = b_prev (bs ! i)"
  shows "linked bs' a xs z'"
  using assms by (induction xs arbitrary: a) (auto split: if_splits)

lemma link_front_linked:
  assumes "linked bs BHEAD xs BHEAD" "distinct xs" "BHEAD \<notin> set xs" "b \<notin> set xs" "b < BHEAD"
    "set xs \<subseteq> {..<BHEAD}" "length bs = Suc BHEAD"
  shows "linked (link_front b bs) BHEAD (b # xs) BHEAD"
proof (cases xs)
  case Nil
  then show ?thesis using assms by (auto simp: link_front_def Let_def nth_list_update)
next
  case (Cons x ys)
  have x: "b_next (bs ! BHEAD) = x" "x < BHEAD" "x \<noteq> b" "b \<noteq> BHEAD" using assms Cons by auto
  have "linked bs x ys BHEAD" using assms(1) Cons by simp
  moreover have "linked (link_front b bs) x ys BHEAD = linked bs x ys BHEAD"
  proof (rule linked_cong)
    fix i assume i: "i \<in> set (x # ys)"
    then have "i \<noteq> BHEAD" "i \<noteq> b" "i < BHEAD" using assms Cons by auto
    then show "b_next (link_front b bs ! i) = b_next (bs ! i)"
      using x assms(7) by (auto simp: link_front_def Let_def nth_list_update)
  next
    fix i assume i: "i \<in> set (ys @ [BHEAD])"
    then have "i \<noteq> b" "i \<noteq> x" "i \<le> BHEAD" using assms(2,4,5,6) Cons x by auto
    then show "b_prev (link_front b bs ! i) = b_prev (bs ! i)"
      using x assms(7) by (auto simp: link_front_def Let_def nth_list_update)
  qed
  ultimately show ?thesis
    using x assms(5,7) Cons by (auto simp: link_front_def Let_def nth_list_update)
qed

lemma unlink_buf_linked:
  assumes "linked bs BHEAD (xs @ b # ys) BHEAD" "distinct (xs @ b # ys)" "set (xs @ b # ys) \<subseteq> {..<BHEAD}"
    "length bs = Suc BHEAD"
  shows "linked (unlink_buf b bs) BHEAD (xs @ ys) BHEAD"
proof -
  have l: "linked bs BHEAD xs b" "linked bs b ys BHEAD" using assms(1) by (simp_all add: linked_append)
  let ?p = "last (BHEAD # xs)" and ?n = "hd (ys @ [BHEAD])"
  have p: "b_prev (bs ! b) = ?p" and n: "b_next (bs ! b) = ?n"
    using linked_prev [OF l(1)] linked_next [OF l(2)] by simp_all
  have b: "b \<notin> set xs" "b \<notin> set ys" "b < BHEAD" using assms(2,3) by auto
  have pr: "?p \<in> set (BHEAD # xs)" by (metis last_in_set list.simps(3))
  have nr: "?n \<in> set (ys @ [BHEAD])" by (cases ys) auto
  have pb: "?p \<noteq> b" "?p < length bs" using pr b assms(3,4) by auto
  have nb: "?n \<noteq> b" "?n < length bs" using nr b assms(3,4) by auto
  have prev: "b_prev (unlink_buf b bs ! i) = (if i = ?n then ?p else b_prev (bs ! i))" if "i < length bs" for i
    using pb nb p n that by (simp add: unlink_buf_def Let_def nth_list_update)
  have nxt: "b_next (unlink_buf b bs ! i) = (if i = ?p then ?n else b_next (bs ! i))" if "i < length bs" for i
    using pb nb p n that by (simp add: unlink_buf_def Let_def nth_list_update)
  show ?thesis
  proof (cases ys)
    case Nil
    have "linked (unlink_buf b bs) BHEAD xs BHEAD"
    proof (rule linked_redirect_last [OF l(1)])
      fix i assume "i \<in> set (butlast (BHEAD # xs))"
      moreover have "distinct (BHEAD # xs)" using assms(2,3) by auto
      ultimately have "i \<noteq> ?p" "i \<in> set (BHEAD # xs)"
        by (metis append_butlast_last_id distinct_append disjoint_iff list.set_intros(1) list.distinct(1))
          (meson \<open>i \<in> set (butlast (BHEAD # xs))\<close> in_set_butlastD)
      then show "b_next (unlink_buf b bs ! i) = b_next (bs ! i)" using nxt [of i] assms(3,4) by auto
    next
      fix i assume "i \<in> set xs"
      then show "b_prev (unlink_buf b bs ! i) = b_prev (bs ! i)" using prev [of i] assms(3,4) Nil by auto
    qed (use assms Nil prev [of BHEAD] nxt [of ?p] pb in auto)
    then show ?thesis using Nil by simp
  next
    case (Cons y zs)
    have y: "?n = y" "y < BHEAD" "y \<notin> set xs" "y \<notin> set zs" using Cons assms(2,3) by auto
    have "linked (unlink_buf b bs) BHEAD xs y"
    proof (rule linked_redirect_last [OF l(1)])
      fix i assume i: "i \<in> set (butlast (BHEAD # xs))"
      moreover have "distinct (BHEAD # xs)" using assms(2,3) by auto
      ultimately have "i \<noteq> ?p" "i \<in> set (BHEAD # xs)"
        by (metis append_butlast_last_id distinct_append disjoint_iff list.set_intros(1) list.distinct(1))
          (meson i in_set_butlastD)
      then show "b_next (unlink_buf b bs ! i) = b_next (bs ! i)" using nxt [of i] assms(3,4) by auto
    next
      fix i assume "i \<in> set xs"
      then show "b_prev (unlink_buf b bs ! i) = b_prev (bs ! i)" using prev [of i] assms(3,4) y by auto
    qed (use assms prev [of y] nxt [of ?p] pb y in auto)
    moreover have "linked (unlink_buf b bs) y zs BHEAD = linked bs y zs BHEAD"
    proof (rule linked_cong)
      fix i assume "i \<in> set (y # zs)"
      then have "i \<noteq> ?p" "i < length bs" using pr Cons assms(2,3,4) by auto
      then show "b_next (unlink_buf b bs ! i) = b_next (bs ! i)" using nxt by simp
    next
      fix i assume "i \<in> set (zs @ [BHEAD])"
      then have "i \<noteq> y" "i < length bs" using y assms(3,4) Cons by auto
      then show "b_prev (unlink_buf b bs ! i) = b_prev (bs ! i)" using prev y by simp
    qed
    ultimately show ?thesis using l(2) Cons by (simp add: linked_append)
  qed
qed

text \<open>Apart from the links, relinking leaves every buffer as it was.\<close>

definition nolinks :: "buf \<Rightarrow> buf" where
  "nolinks b = b\<lparr>b_prev := 0, b_next := 0\<rparr>"

lemma nolinks_fields:
  "nolinks b = nolinks b' \<longleftrightarrow> b_flags b = b_flags b' \<and> b_dev b = b_dev b' \<and> b_blockno b = b_blockno b' \<and>
     b_refcnt b = b_refcnt b' \<and> b_data b = b_data b'"
  by (cases b; cases b') (simp add: nolinks_def)

lemma nolinks_upd:
  "nolinks b' = nolinks (bs ! k) \<Longrightarrow> map nolinks (bs[k := b']) = map nolinks bs"
  by (cases "k < length bs") (auto intro!: nth_equalityI simp: nth_list_update)

lemma relink_same:
  "map nolinks (link_front b bs) = map nolinks bs" "map nolinks (unlink_buf b bs) = map nolinks bs"
  unfolding link_front_def unlink_buf_def Let_def
  by (simp_all add: nolinks_upd nolinks_fields del: list_update_overwrite)

lemma brelse_ring:
  assumes "ring bs (xs @ b # ys)"
  shows "ring (link_front b (unlink_buf b bs)) (b # xs @ ys)"
proof -
  have r: "linked bs BHEAD (xs @ b # ys) BHEAD" "distinct (xs @ b # ys)" "set (xs @ b # ys) = {..<BHEAD}" "length bs = Suc BHEAD"
    using assms by (simp_all add: ring_def)
  have l: "length (unlink_buf b bs) = Suc BHEAD" "length (link_front b (unlink_buf b bs)) = Suc BHEAD"
    using r(4) by (simp_all add: link_front_def unlink_buf_def Let_def)
  have "b < BHEAD" "set (xs @ ys) \<subseteq> {..<BHEAD}" using r(3) by auto
  then have "linked (link_front b (unlink_buf b bs)) BHEAD (b # xs @ ys) BHEAD"
    using link_front_linked [OF unlink_buf_linked [OF r(1,2) _ r(4)]] r(2,3) l(1) by auto
  then show ?thesis using r l by (auto simp: ring_def)
qed

lemma find_cached_ring:
  assumes "linked bs a xs BHEAD" "BHEAD \<notin> set xs" "length xs < k"
  shows "find_cached k bs dev blockno (b_next (bs ! a)) =
    Inr (find (\<lambda>i. b_dev (bs ! i) = dev \<and> b_blockno (bs ! i) = blockno) xs)"
  using assms
proof (induction xs arbitrary: a k)
  case Nil
  then show ?case by (cases k) auto
next
  case (Cons x xs)
  then obtain k' where "k = Suc k'" "length xs < k'" by (cases k) auto
  then show ?case using Cons.prems Cons.IH [of x k'] by auto
qed

lemma find_recycle_ring:
  assumes "linked bs BHEAD xs z" "BHEAD \<notin> set xs" "length xs < k"
  shows "find_recycle k bs (b_prev (bs ! z)) =
    Inr (find (\<lambda>i. b_refcnt (bs ! i) = 0 \<and> b_flags (bs ! i) AND B_DIRTY = 0) (rev xs))"
  using assms
proof (induction xs arbitrary: z k rule: rev_induct)
  case Nil
  then show ?case by (cases k) auto
next
  case (snoc x xs)
  then obtain k' where k: "k = Suc k'" "length xs < k'" by (cases k) auto
  have "linked bs BHEAD xs x" "b_prev (bs ! z) = x" using snoc.prems(1) by (simp_all add: linked_append)
  then show ?case using snoc.prems snoc.IH [of x k'] k by auto
qed

section \<open>Flags\<close>

definition validb :: "buf \<Rightarrow> bool" where "validb b \<longleftrightarrow> b_flags b AND B_VALID \<noteq> 0"
definition dirtyb :: "buf \<Rightarrow> bool" where "dirtyb b \<longleftrightarrow> b_flags b AND B_DIRTY \<noteq> 0"

lemma flag_bits:
  "(f AND B_VALID \<noteq> 0) \<longleftrightarrow> bit f (Suc 0)" "(f AND B_DIRTY \<noteq> 0) \<longleftrightarrow> bit f 2"
  "(f AND B_VALID = 0) \<longleftrightarrow> \<not> bit f (Suc 0)" "(f AND B_DIRTY = 0) \<longleftrightarrow> \<not> bit f 2"
  for f :: u32
  using and_exp_eq_0_iff_not_bit [of f 1] and_exp_eq_0_iff_not_bit [of f 2]
  by (simp_all add: B_VALID_def B_DIRTY_def)

lemma bit_flags [simp]:
  "bit B_VALID (Suc 0)" "\<not> bit B_VALID 2" "bit B_DIRTY 2" "\<not> bit B_DIRTY (Suc 0)"
  by (simp_all add: B_VALID_def B_DIRTY_def bit_iff_odd)

lemma flag_updates [simp]:
  "validb (b\<lparr>b_flags := b_flags b OR B_VALID\<rparr>)" "dirtyb (b\<lparr>b_flags := b_flags b OR B_VALID\<rparr>) = dirtyb b"
  "dirtyb (b\<lparr>b_flags := b_flags b OR B_DIRTY\<rparr>)" "validb (b\<lparr>b_flags := b_flags b OR B_DIRTY\<rparr>) = validb b"
  unfolding validb_def dirtyb_def flag_bits by (simp_all add: bit_or_iff)

lemma nothing_to_do: "bit f 2 \<Longrightarrow> f AND (B_VALID OR B_DIRTY) \<noteq> B_VALID" for f :: u32
  by (metis bit_and_iff bit_flags(2,3) bit_or_iff)

section \<open>The abstract block store\<close>

definition cachedb :: "buf list \<Rightarrow> nat \<Rightarrow> nat \<Rightarrow> bool" where
  "cachedb bs n i \<longleftrightarrow> i < NBUF \<and> b_dev (bs ! i) = 1 \<and> unat (b_blockno (bs ! i)) = n"

definition find_block :: "buf list \<Rightarrow> nat \<Rightarrow> nat option" where
  "find_block bs n = find (cachedb bs n) [0..<NBUF]"

definition buf_ok :: "buf \<Rightarrow> sleeplock \<Rightarrow> (nat \<Rightarrow> u8 list) \<Rightarrow> bool" where
  "buf_ok b l dk \<longleftrightarrow> length (b_data b) = BSIZE \<and> (b_dev b = 1 \<longrightarrow> validb b) \<and>
     (b_refcnt b \<noteq> 0 \<or> dirtyb b \<longrightarrow> b_dev b = 1) \<and> b_refcnt b \<in> {0, 1} \<and>
     (sl_locked l \<noteq> 0 \<longleftrightarrow> b_refcnt b = 1) \<and>
     (b_dev b = 1 \<and> b_refcnt b = 0 \<and> \<not> dirtyb b \<longrightarrow> b_data b = dk (unat (b_blockno b)))"

definition uniqb :: "buf list \<Rightarrow> bool" where
  "uniqb bs \<longleftrightarrow> (\<forall>i < NBUF. \<forall>j < NBUF. b_dev (bs ! i) = 1 \<and> b_dev (bs ! j) = 1 \<and>
     b_blockno (bs ! i) = b_blockno (bs ! j) \<longrightarrow> i = j)"

definition bcache_inv :: "buf list \<Rightarrow> (slid \<Rightarrow> sleeplock) \<Rightarrow> (nat \<Rightarrow> u8 list) \<Rightarrow> bool" where
  "bcache_inv bs sl dk \<longleftrightarrow> (\<exists>xs. ring bs xs) \<and> uniqb bs \<and>
     (\<forall>i < NBUF. buf_ok (bs ! i) (sl (BufLk i)) dk) \<and> (\<forall>n. length (dk n) = BSIZE)"

record store =
  st_cont :: "nat \<Rightarrow> u8 list"
  st_disk :: "nat \<Rightarrow> u8 list"
  st_pinned :: "nat \<Rightarrow> bool"
  st_held :: "nat \<Rightarrow> (nat \<times> int) option"
  st_trace :: "(nat \<times> u8 list) list"

definition store_of :: "'a bio_st_scheme \<Rightarrow> store" where
  "store_of s = \<lparr>
     st_cont = (\<lambda>n. case find_block (bufs s) n of Some i \<Rightarrow> b_data (bufs s ! i) | None \<Rightarrow> memdisk s n),
     st_disk = memdisk s,
     st_pinned = (\<lambda>n. case find_block (bufs s) n of Some i \<Rightarrow> dirtyb (bufs s ! i) | None \<Rightarrow> False),
     st_held = (\<lambda>n. case find_block (bufs s) n of
        Some i \<Rightarrow> if b_refcnt (bufs s ! i) = 0 then None else Some (i, sl_pid (slocks s (BufLk i))) | None \<Rightarrow> None),
     st_trace = dwrites s\<rparr>"

definition bready :: "'a bio_st_scheme \<Rightarrow> bool" where
  "bready s \<longleftrightarrow> crit [] s \<and> live s \<and> bcache_inv (bufs s) (slocks s) (memdisk s)"

definition bkeep :: "'a bio_st_scheme \<Rightarrow> 'a bio_st_scheme \<Rightarrow> bool" where
  "bkeep s s' \<longleftrightarrow> base_of s' = base_of s \<and> disksize s' = disksize s \<and> bio_st.more s' = bio_st.more s \<and>
     (\<forall>k. slocks s' (InodeLk k) = slocks s (InodeLk k))"

lemma find_block_iff:
  assumes "uniqb bs"
  shows "find_block bs n = Some i \<longleftrightarrow> cachedb bs n i"
proof
  assume "find_block bs n = Some i"
  then show "cachedb bs n i" by (auto simp: find_block_def find_Some_iff)
next
  assume c: "cachedb bs n i"
  then obtain j where j: "find_block bs n = Some j"
    by (cases "find_block bs n") (auto simp: find_block_def find_None_iff cachedb_def)
  then have "cachedb bs n j" by (auto simp: find_block_def find_Some_iff)
  then have "j = i" using assms c unfolding uniqb_def cachedb_def by (metis unsigned_word_eqI)
  then show "find_block bs n = Some i" using j by simp
qed

lemma find_block_None: "find_block bs n = None \<longleftrightarrow> (\<forall>i. \<not> cachedb bs n i)"
  by (auto simp: find_block_def find_None_iff cachedb_def)

lemma find_block_cong:
  assumes "\<And>i. i < NBUF \<Longrightarrow> b_dev (bs' ! i) = b_dev (bs ! i) \<and> b_blockno (bs' ! i) = b_blockno (bs ! i)"
  shows "find_block bs' = find_block bs" "uniqb bs' = uniqb bs"
proof -
  have "cachedb bs' n = cachedb bs n" for n using assms by (auto simp: cachedb_def fun_eq_iff)
  then show "find_block bs' = find_block bs" by (intro ext) (simp add: find_block_def)
  show "uniqb bs' = uniqb bs" using assms by (auto simp: uniqb_def)
qed

lemma bcache_invD:
  assumes "bcache_inv bs sl dk"
  shows "uniqb bs" "length bs = Suc NBUF" "i < NBUF \<Longrightarrow> buf_ok (bs ! i) (sl (BufLk i)) dk" "length (dk n) = BSIZE"
  using assms by (auto simp: bcache_inv_def ring_def)

lemma heldD:
  assumes "bready s" "st_held (store_of s) n = Some (i, p)"
  shows "i < NBUF" "b_dev (bufs s ! i) = 1" "unat (b_blockno (bufs s ! i)) = n" "b_refcnt (bufs s ! i) = 1"
    "sl_locked (slocks s (BufLk i)) \<noteq> 0" "sl_pid (slocks s (BufLk i)) = p" "b_data (bufs s ! i) = st_cont (store_of s) n"
    "find_block (bufs s) n = Some i" "length (b_data (bufs s ! i)) = BSIZE" "validb (bufs s ! i)"
    "dirtyb (bufs s ! i) = st_pinned (store_of s) n"
proof -
  have inv: "bcache_inv (bufs s) (slocks s) (memdisk s)" using assms(1) by (simp add: bready_def)
  show f: "find_block (bufs s) n = Some i"
    using assms(2) by (auto simp: store_of_def split: option.splits if_splits)
  then have c: "cachedb (bufs s) n i" using find_block_iff [OF bcache_invD(1) [OF inv]] by simp
  then show i: "i < NBUF" and d: "b_dev (bufs s ! i) = 1" "unat (b_blockno (bufs s ! i)) = n" by (simp_all add: cachedb_def)
  have ok: "buf_ok (bufs s ! i) (slocks s (BufLk i)) (memdisk s)" using bcache_invD(3) [OF inv i] .
  have r: "b_refcnt (bufs s ! i) \<noteq> 0" using assms(2) f by (auto simp: store_of_def split: if_splits)
  then show "b_refcnt (bufs s ! i) = 1" "sl_locked (slocks s (BufLk i)) \<noteq> 0" "length (b_data (bufs s ! i)) = BSIZE" "validb (bufs s ! i)"
    using ok d by (auto simp: buf_ok_def)
  show "sl_pid (slocks s (BufLk i)) = p" "b_data (bufs s ! i) = st_cont (store_of s) n" "dirtyb (bufs s ! i) = st_pinned (store_of s) n"
    using assms(2) f r by (auto simp: store_of_def)
qed

lemma nolinksD:
  assumes "map nolinks bs' = map nolinks bs" "j < length bs"
  shows "b_flags (bs' ! j) = b_flags (bs ! j)" "b_dev (bs' ! j) = b_dev (bs ! j)" "b_blockno (bs' ! j) = b_blockno (bs ! j)"
    "b_refcnt (bs' ! j) = b_refcnt (bs ! j)" "b_data (bs' ! j) = b_data (bs ! j)" "dirtyb (bs' ! j) = dirtyb (bs ! j)"
    "buf_ok (bs' ! j) l dk = buf_ok (bs ! j) l dk"
proof -
  have "length bs' = length bs" using assms(1) by (metis length_map)
  then have "nolinks (bs' ! j) = nolinks (bs ! j)" using assms by (metis nth_map)
  then show "b_flags (bs' ! j) = b_flags (bs ! j)" "b_dev (bs' ! j) = b_dev (bs ! j)" "b_blockno (bs' ! j) = b_blockno (bs ! j)"
    "b_refcnt (bs' ! j) = b_refcnt (bs ! j)" "b_data (bs' ! j) = b_data (bs ! j)" "dirtyb (bs' ! j) = dirtyb (bs ! j)"
    "buf_ok (bs' ! j) l dk = buf_ok (bs ! j) l dk"
    by (simp_all add: nolinks_fields dirtyb_def validb_def buf_ok_def)
qed

text \<open>Changing one cached buffer changes the store at its block only.\<close>

lemma store_inplace:
  assumes "bready s" "find_block (bufs s) n = Some i" "map nolinks (bufs s') = map nolinks ((bufs s)[i := b'])"
    "b_dev b' = 1" "unat (b_blockno b') = n" "memdisk s' = (memdisk s)(n := d)" "slocks s' = (slocks s)(BufLk i := l)"
  shows "store_of s' = \<lparr>st_cont = (st_cont (store_of s))(n := b_data b'), st_disk = (memdisk s)(n := d),
    st_pinned = (st_pinned (store_of s))(n := dirtyb b'),
    st_held = (st_held (store_of s))(n := if b_refcnt b' = 0 then None else Some (i, sl_pid l)), st_trace = dwrites s'\<rparr>"
proof -
  have inv: "bcache_inv (bufs s) (slocks s) (memdisk s)" using assms(1) by (simp add: bready_def)
  have c: "cachedb (bufs s) n i" using assms(2) find_block_iff [OF bcache_invD(1) [OF inv]] by simp
  then have i: "i < NBUF" "b_dev (bufs s ! i) = 1" "unat (b_blockno (bufs s ! i)) = n" by (simp_all add: cachedb_def)
  have len: "length (bufs s) = Suc NBUF" using bcache_invD(2) [OF inv] .
  note nl = nolinksD [OF assms(3)]
  have other: "j \<noteq> i \<Longrightarrow> j < NBUF \<Longrightarrow> b_data (bufs s' ! j) = b_data (bufs s ! j) \<and> b_refcnt (bufs s' ! j) = b_refcnt (bufs s ! j) \<and>
    dirtyb (bufs s' ! j) = dirtyb (bufs s ! j) \<and> b_dev (bufs s' ! j) = b_dev (bufs s ! j) \<and> b_blockno (bufs s' ! j) = b_blockno (bufs s ! j)" for j
    using nl(2-6) [of j] len by simp
  have this_i: "b_data (bufs s' ! i) = b_data b'" "b_refcnt (bufs s' ! i) = b_refcnt b'" "dirtyb (bufs s' ! i) = dirtyb b'"
    "b_dev (bufs s' ! i) = 1" "b_blockno (bufs s' ! i) = b_blockno (bufs s ! i)"
    using nl(2-6) [of i] len i assms(4,5) by (auto intro: unsigned_word_eqI)
  have f: "find_block (bufs s') = find_block (bufs s)"
  proof (rule find_block_cong(1))
    fix j :: nat assume "j < NBUF"
    then show "b_dev (bufs s' ! j) = b_dev (bufs s ! j) \<and> b_blockno (bufs s' ! j) = b_blockno (bufs s ! j)"
      using other [of j] this_i i by (cases "j = i") auto
  qed
  have ne: "m \<noteq> n \<Longrightarrow> find_block (bufs s) m = Some j \<Longrightarrow> j \<noteq> i \<and> j < NBUF" for m j
    using find_block_iff [OF bcache_invD(1) [OF inv]] i by (auto simp: cachedb_def)
  show ?thesis
    unfolding store_of_def f
    using assms(2,6,7) this_i ne other
    by (auto simp: fun_eq_iff split: option.splits)
qed

lemma ready_inplace:
  assumes "bready s" "find_block (bufs s) n = Some i" "map nolinks (bufs s') = map nolinks ((bufs s)[i := b'])"
    "b_dev b' = 1" "unat (b_blockno b') = n" "memdisk s' = (memdisk s)(n := d)" "slocks s' = (slocks s)(BufLk i := l)"
    "crit [] s'" "base_of s' = base_of s" "ring (bufs s') xs" "buf_ok b' l (memdisk s')" "length d = BSIZE"
  shows "bready s'"
proof -
  have inv: "bcache_inv (bufs s) (slocks s) (memdisk s)" and lv: "live s" using assms(1) by (simp_all add: bready_def)
  have c: "cachedb (bufs s) n i" using assms(2) find_block_iff [OF bcache_invD(1) [OF inv]] by simp
  then have i: "i < NBUF" "b_dev (bufs s ! i) = 1" "unat (b_blockno (bufs s ! i)) = n" by (simp_all add: cachedb_def)
  have len: "length (bufs s) = Suc NBUF" using bcache_invD(2) [OF inv] .
  note nl = nolinksD [OF assms(3)]
  have id: "b_dev (bufs s' ! j) = b_dev (bufs s ! j) \<and> b_blockno (bufs s' ! j) = b_blockno (bufs s ! j)" if "j < NBUF" for j
    using nl(2,3) [of j] len that i assms(4,5) by (auto simp: nth_list_update intro: unsigned_word_eqI)
  have u: "uniqb (bufs s')" using find_block_cong(2) [OF id] bcache_invD(1) [OF inv] by simp
  have "buf_ok (bufs s' ! j) (slocks s' (BufLk j)) (memdisk s')" if j: "j < NBUF" for j
  proof (cases "j = i")
    case True
    then show ?thesis using nl(7) [of i] len i assms(7,11) by simp
  next
    case False
    have old: "buf_ok (bufs s ! j) (slocks s (BufLk j)) (memdisk s)" using bcache_invD(3) [OF inv j] .
    have "b_dev (bufs s ! j) = 1 \<Longrightarrow> unat (b_blockno (bufs s ! j)) \<noteq> n"
      using False bcache_invD(1) [OF inv] i j unfolding uniqb_def by (metis unsigned_word_eqI)
    then have "buf_ok (bufs s ! j) (slocks s (BufLk j)) (memdisk s')" using old assms(6) by (auto simp: buf_ok_def)
    then show ?thesis using nl(7) [of j] len j False assms(7) by simp
  qed
  moreover have "length (memdisk s' m) = BSIZE" for m using assms(6,12) bcache_invD(4) [OF inv] by simp
  ultimately show ?thesis
    using u assms(8,10) base_ofD(5) [OF assms(9)] lv by (auto simp: bready_def bcache_inv_def)
qed

section \<open>The operations refine the store\<close>

lemma bio_more_fields:
  fixes s s' :: "'a bio_st_scheme"
  assumes "slp_st.more s' = slp_st.more s"
  shows "bufs s' = bufs s" "memdisk s' = memdisk s" "disksize s' = disksize s" "dwrites s' = dwrites s" "bio_st.more s' = bio_st.more s"
  using assms by (cases s; cases s'; simp)+

lemma bio_acq_rel [simp]:
  fixes s :: "'a bio_st_scheme"
  shows "bufs (acq lk s) = bufs s" "memdisk (acq lk s) = memdisk s" "disksize (acq lk s) = disksize s"
    "dwrites (acq lk s) = dwrites s" "bio_st.more (acq lk s) = bio_st.more s"
    "bufs (rel lk s) = bufs s" "memdisk (rel lk s) = memdisk s" "disksize (rel lk s) = disksize s"
    "dwrites (rel lk s) = dwrites s" "bio_st.more (rel lk s) = bio_st.more s"
  by (simp_all add: acq_def pushed_def cli_def rel_def popped_def sti_def Let_def)

lemma curproc_bio [simp]:
  "curproc (s\<lparr>bufs := b\<rparr>) = curproc s" "curproc (s\<lparr>memdisk := d\<rparr>) = curproc s" "curproc (s\<lparr>dwrites := w\<rparr>) = curproc s"
  by (simp_all add: curproc_def curcpu_def)

lemma base_of_bio [simp]:
  "base_of (s\<lparr>bufs := b\<rparr>) = base_of s" "base_of (s\<lparr>memdisk := d\<rparr>) = base_of s" "base_of (s\<lparr>dwrites := w\<rparr>) = base_of s"
  by (simp_all add: base_of_def)

lemma live_bio [simp]: "live (s\<lparr>bufs := b\<rparr>) = live s"
  by (simp add: live_def split: option.split)

lemma store_of_simps [simp]: "st_disk (store_of s) = memdisk s" "st_trace (store_of s) = dwrites s"
  by (simp_all add: store_of_def)

lemma mypid_bio [simp]: "mypid (s\<lparr>bufs := b\<rparr>) = mypid s"
  by (simp add: mypid_def)

lemma iderw_ok:
  fixes s :: "'a bio_st_scheme"
  assumes "crit [] s" "live s" "sl_locked (slocks s (BufLk i)) \<noteq> 0" "sl_pid (slocks s (BufLk i)) = mypid s"
    "b_dev (bufs s ! i) = 1" "b_blockno (bufs s ! i) < disksize s" "i < length (bufs s)"
    "b_flags (bufs s ! i) = 0 \<or> dirtyb (bufs s ! i)"
  defines "b \<equiv> bufs s ! i"
  defines "n \<equiv> unat (b_blockno (bufs s ! i))"
  shows "\<exists>s'. iderw i s = Inr s' \<and> crit [] s' \<and> base_of s' = base_of s \<and> slocks s' = slocks s \<and> disksize s' = disksize s \<and>
    bio_st.more s' = bio_st.more s \<and>
    bufs s' = (bufs s)[i := if dirtyb b then b\<lparr>b_flags := (b_flags b AND NOT B_DIRTY) OR B_VALID\<rparr>
                           else b\<lparr>b_data := memdisk s n, b_flags := b_flags b OR B_VALID\<rparr>] \<and>
    memdisk s' = (if dirtyb b then (memdisk s)(n := b_data b) else memdisk s) \<and>
    dwrites s' = (if dirtyb b then dwrites s @ [(n, b_data b)] else dwrites s)"
proof -
  obtain s1 where s1: "holdingsleep (BufLk i) s = Inr (True, s1)" "crit [] s1" "base_of s1 = base_of s" "slocks s1 = slocks s"
      "slp_st.more s1 = slp_st.more s"
    using holdingsleep_ok [OF assms(1) _ assms(2), of "BufLk i"] assms(3,4) by auto
  note f = bio_more_fields [OF s1(5)]
  have nz: "b_flags (bufs s ! i) AND (B_VALID OR B_DIRTY) \<noteq> B_VALID"
    using assms(8) nothing_to_do [of "b_flags (bufs s ! i)"]
    by (auto simp: dirtyb_def flag_bits(2)) (simp add: B_VALID_def)
  have nb: "\<not> disksize s \<le> b_blockno (bufs s ! i)" using assms(6) by (simp add: not_le)
  have u: "i < length (bufs s)" using assms(7) .
  show ?thesis
    using s1 f nz nb assms(5) u
    by (simp add: iderw_def b_set_def b_def n_def dirtyb_def Let_def)
qed

lemma bwrite_ok:
  assumes r: "bready s" and h: "st_held (store_of s) n = Some (i, mypid s)" and d: "n < unat (disksize s)"
  shows "\<exists>s'. bwrite i s = Inr s' \<and> bready s' \<and> bkeep s s' \<and>
    store_of s' = (store_of s)\<lparr>st_disk := (st_disk (store_of s))(n := st_cont (store_of s) n),
      st_pinned := (st_pinned (store_of s))(n := False), st_trace := st_trace (store_of s) @ [(n, st_cont (store_of s) n)]\<rparr>"
proof -
  note hd = heldD [OF r h]
  have cr: "crit [] s" "live s" and inv: "bcache_inv (bufs s) (slocks s) (memdisk s)" using r by (simp_all add: bready_def)
  have len: "length (bufs s) = Suc NBUF" using bcache_invD(2) [OF inv] .
  obtain xs where xs: "ring (bufs s) xs" using inv by (auto simp: bcache_inv_def)
  obtain s1 where s1: "holdingsleep (BufLk i) s = Inr (True, s1)" "crit [] s1" "base_of s1 = base_of s" "slocks s1 = slocks s"
      "slp_st.more s1 = slp_st.more s"
    using holdingsleep_ok [OF cr(1) _ cr(2), of "BufLk i"] hd(5,6) by auto
  note f = bio_more_fields [OF s1(5)]
  let ?b = "bufs s ! i"
  let ?s2 = "s1\<lparr>bufs := (bufs s)[i := ?b\<lparr>b_flags := b_flags ?b OR B_DIRTY\<rparr>]\<rparr>"
  have il: "i < length (bufs s)" using hd(1) len by simp
  have nb: "b_blockno ?b < disksize s" using hd(3) d by (simp add: word_less_nat_alt)
  obtain s' where s': "iderw i ?s2 = Inr s'" "crit [] s'" "base_of s' = base_of s" "slocks s' = slocks s" "disksize s' = disksize s"
    "bio_st.more s' = bio_st.more s" "bufs s' = (bufs s)[i := ?b\<lparr>b_flags := ((b_flags ?b OR B_DIRTY) AND NOT B_DIRTY) OR B_VALID\<rparr>]"
    "memdisk s' = (memdisk s)(n := b_data ?b)" "dwrites s' = dwrites s @ [(n, b_data ?b)]"
    using iderw_ok [of ?s2 i] s1 f hd cr il nb base_ofD(4,5) [OF s1(3)] by auto
  let ?b' = "?b\<lparr>b_flags := ((b_flags ?b OR B_DIRTY) AND NOT B_DIRTY) OR B_VALID\<rparr>"
  have clean: "\<not> dirtyb ?b'" "validb ?b'"
    unfolding dirtyb_def validb_def flag_bits by (simp_all add: bit_or_iff bit_and_iff bit_not_iff)
  have "linked (bufs s') BHEAD xs BHEAD = linked (bufs s) BHEAD xs BHEAD"
    using s'(7) il by (intro linked_cong) (auto simp: nth_list_update)
  then have ring: "ring (bufs s') xs" using xs s'(7) by (simp add: ring_def)
  have ok: "buf_ok ?b' (slocks s (BufLk i)) (memdisk s')"
    using hd clean s'(8) by (auto simp: buf_ok_def)
  have nl: "map nolinks (bufs s') = map nolinks ((bufs s)[i := ?b'])" using s'(7) by simp
  have "bready s'"
    by (rule ready_inplace [OF r hd(8) nl _ _ s'(8) _ s'(2,3) ring ok]) (use hd s' in simp_all)
  moreover have "store_of s' = \<lparr>st_cont = (st_cont (store_of s))(n := b_data ?b'), st_disk = (memdisk s)(n := b_data ?b),
    st_pinned = (st_pinned (store_of s))(n := dirtyb ?b'),
    st_held = (st_held (store_of s))(n := if b_refcnt ?b' = 0 then None else Some (i, sl_pid (slocks s (BufLk i)))), st_trace = dwrites s'\<rparr>"
    by (rule store_inplace [OF r hd(8) nl _ _ s'(8)]) (use hd s' in simp_all)
  then have "store_of s' = (store_of s)\<lparr>st_disk := (memdisk s)(n := st_cont (store_of s) n),
      st_pinned := (st_pinned (store_of s))(n := False), st_trace := dwrites s @ [(n, st_cont (store_of s) n)]\<rparr>"
    using s'(9) hd h clean by (simp add: fun_upd_idem)
  moreover have "bwrite i s = Inr s'" using s1(1) f s'(1) by (simp add: bwrite_def b_set_def)
  ultimately show ?thesis using s' by (auto simp: bkeep_def)
qed

lemma ring_upd:
  assumes "ring bs xs" "i < length bs" "b_prev b' = b_prev (bs ! i)" "b_next b' = b_next (bs ! i)"
  shows "ring (bs[i := b']) xs"
proof -
  have "linked (bs[i := b']) BHEAD xs BHEAD = linked bs BHEAD xs BHEAD"
    using assms by (intro linked_cong) (auto simp: nth_list_update)
  then show ?thesis using assms by (simp add: ring_def)
qed

lemma held_store:
  assumes r: "bready s" and h: "st_held (store_of s) n = Some (i, p)"
    and b: "b_prev b' = b_prev (bufs s ! i)" "b_next b' = b_next (bufs s ! i)" "b_dev b' = 1" "b_blockno b' = b_blockno (bufs s ! i)"
      "b_refcnt b' = 1" "length (b_data b') = BSIZE" "validb b'"
  shows "bready (s\<lparr>bufs := (bufs s)[i := b']\<rparr>)" "bkeep s (s\<lparr>bufs := (bufs s)[i := b']\<rparr>)"
    "store_of (s\<lparr>bufs := (bufs s)[i := b']\<rparr>) = (store_of s)\<lparr>st_cont := (st_cont (store_of s))(n := b_data b'),
       st_pinned := (st_pinned (store_of s))(n := dirtyb b')\<rparr>"
proof -
  note hd = heldD [OF r h]
  have cr: "crit [] s" "live s" and inv: "bcache_inv (bufs s) (slocks s) (memdisk s)" using r by (simp_all add: bready_def)
  have len: "length (bufs s) = Suc NBUF" using bcache_invD(2) [OF inv] .
  obtain xs where xs: "ring (bufs s) xs" using inv by (auto simp: bcache_inv_def)
  let ?s = "s\<lparr>bufs := (bufs s)[i := b']\<rparr>"
  have ring: "ring (bufs ?s) xs" using ring_upd [OF xs] b(1,2) hd(1) len by simp
  have ok: "buf_ok b' (slocks s (BufLk i)) (memdisk ?s)" using hd(5) b by (simp add: buf_ok_def)
  show "bready ?s"
    by (rule ready_inplace [OF r hd(8) _ _ _ _ _ _ _ ring ok, where d = "memdisk s n"])
      (use b hd cr bcache_invD(4) [OF inv] in simp_all)
  show "bkeep s ?s" by (simp add: bkeep_def)
  have "store_of ?s = \<lparr>st_cont = (st_cont (store_of s))(n := b_data b'), st_disk = (memdisk s)(n := memdisk s n),
    st_pinned = (st_pinned (store_of s))(n := dirtyb b'),
    st_held = (st_held (store_of s))(n := if b_refcnt b' = 0 then None else Some (i, sl_pid (slocks s (BufLk i)))), st_trace = dwrites ?s\<rparr>"
    by (rule store_inplace [OF r hd(8)]) (use b hd in simp_all)
  then show "store_of ?s = (store_of s)\<lparr>st_cont := (st_cont (store_of s))(n := b_data b'),
       st_pinned := (st_pinned (store_of s))(n := dirtyb b')\<rparr>"
    using b(5) hd(6) h by (simp add: fun_upd_idem)
qed

lemma bdata_set_ok:
  assumes r: "bready s" and h: "st_held (store_of s) n = Some (i, p)" and d: "length d = BSIZE"
  shows "bready (bdata_set i d s)" "bkeep s (bdata_set i d s)"
    "store_of (bdata_set i d s) = (store_of s)\<lparr>st_cont := (st_cont (store_of s))(n := d)\<rparr>"
proof -
  note hd = heldD [OF r h]
  have v: "validb ((bufs s ! i)\<lparr>b_data := d\<rparr>)" "dirtyb ((bufs s ! i)\<lparr>b_data := d\<rparr>) = st_pinned (store_of s) n"
    using hd(10,11) by (simp_all add: validb_def dirtyb_def)
  note hs = held_store [OF r h, where b' = "(bufs s ! i)\<lparr>b_data := d\<rparr>"]
  show "bready (bdata_set i d s)" "bkeep s (bdata_set i d s)"
    using hs(1,2) hd v d by (simp_all add: bdata_set_def b_set_def)
  show "store_of (bdata_set i d s) = (store_of s)\<lparr>st_cont := (st_cont (store_of s))(n := d)\<rparr>"
    using hs(3) hd v d by (simp add: bdata_set_def b_set_def)
qed

lemma bpin_ok:
  assumes r: "bready s" and h: "st_held (store_of s) n = Some (i, p)"
  defines "s' \<equiv> b_set i (\<lambda>x. x\<lparr>b_flags := b_flags x OR B_DIRTY\<rparr>) s"
  shows "bready s'" "bkeep s s'" "store_of s' = (store_of s)\<lparr>st_pinned := (st_pinned (store_of s))(n := True)\<rparr>"
proof -
  note hd = heldD [OF r h]
  note hs = held_store [OF r h, where b' = "(bufs s ! i)\<lparr>b_flags := b_flags (bufs s ! i) OR B_DIRTY\<rparr>"]
  show "bready s'" "bkeep s s'" using hs(1,2) hd by (simp_all add: s'_def b_set_def)
  show "store_of s' = (store_of s)\<lparr>st_pinned := (st_pinned (store_of s))(n := True)\<rparr>"
    using hs(3) hd by (simp add: s'_def b_set_def)
qed

lemma brelse_ok:
  assumes r: "bready s" and h: "st_held (store_of s) n = Some (i, mypid s)"
    and cl: "st_pinned (store_of s) n \<or> st_cont (store_of s) n = st_disk (store_of s) n"
  shows "\<exists>s'. brelse i s = Inr s' \<and> bready s' \<and> bkeep s s' \<and>
    store_of s' = (store_of s)\<lparr>st_held := (st_held (store_of s))(n := None)\<rparr> \<and>
    (\<forall>xs ys. ring (bufs s) (xs @ i # ys) \<longrightarrow> ring (bufs s') (i # xs @ ys))"
proof -
  note hd = heldD [OF r h]
  have cr: "crit [] s" "live s" and inv: "bcache_inv (bufs s) (slocks s) (memdisk s)" using r by (simp_all add: bready_def)
  have len: "length (bufs s) = Suc NBUF" using bcache_invD(2) [OF inv] .
  obtain zs where zs: "ring (bufs s) zs" using inv by (auto simp: bcache_inv_def)
  then have "i \<in> set zs" using hd(1) by (simp add: ring_def)
  then obtain xs ys where xy: "zs = xs @ i # ys" by (auto simp: in_set_conv_decomp)
  obtain s1 where s1: "holdingsleep (BufLk i) s = Inr (True, s1)" "crit [] s1" "base_of s1 = base_of s" "slocks s1 = slocks s"
      "slp_st.more s1 = slp_st.more s"
    using holdingsleep_ok [OF cr(1) _ cr(2), of "BufLk i"] hd(5,6) by auto
  let ?l = "(slocks s (BufLk i))\<lparr>sl_locked := 0, sl_pid := 0\<rparr>"
  obtain s2 where s2: "releasesleep (BufLk i) s1 = Inr s2" "crit [] s2" "base_of s2 = base_of s"
    "slocks s2 = (slocks s)(BufLk i := ?l)" "slp_st.more s2 = slp_st.more s"
    using releasesleep_ok [OF s1(2), of "BufLk i"] s1(3-5) by auto
  note f = bio_more_fields [OF s2(5)]
  let ?b' = "(bufs s ! i)\<lparr>b_refcnt := 0\<rparr>"
  let ?bs = "(bufs s)[i := ?b']"
  let ?s3 = "(acq BcacheLock s2)\<lparr>bufs := link_front i (unlink_buf i ?bs)\<rparr>"
  let ?s' = "rel BcacheLock ?s3"
  have c3: "crit [BcacheLock] ?s3" using crit_acq [OF s2(2), of BcacheLock] by simp
  have rel: "brelse i s = Inr ?s'"
    using s1(1) s2(1) acquire_ok [OF s2(2), of BcacheLock] f release_ok [OF c3, of BcacheLock] hd(1,4) len
    by (simp add: brelse_def b_set_def Let_def)
  have mv: "ring (bufs ?s') (i # us @ vs)" if "ring (bufs s) (us @ i # vs)" for us vs
    using brelse_ring [OF ring_upd [OF that, of i ?b']] hd(1) len by simp
  then have ring: "ring (bufs ?s') (i # xs @ ys)" using zs xy by simp
  have nl: "map nolinks (bufs ?s') = map nolinks ?bs" by (simp add: relink_same)
  have flags: "dirtyb ?b' = dirtyb (bufs s ! i)" "validb ?b' = validb (bufs s ! i)" by (simp_all add: dirtyb_def validb_def)
  have ok: "buf_ok ?b' ?l (memdisk ?s')" using hd cl flags f by (auto simp: buf_ok_def)
  have ba: "base_of ?s' = base_of s" "crit [] ?s'"
    using base_of_acq_rel(2) [OF c3] base_of_acq_rel(1) [OF s2(2)] s2(3) crit_rel [OF c3, of BcacheLock] by simp_all
  have "bready ?s'"
    by (rule ready_inplace [OF r hd(8) nl _ _ _ _ _ _ ring ok, where d = "memdisk s n"])
      (use hd s2 f ba bcache_invD(4) [OF inv] in simp_all)
  moreover have "store_of ?s' = \<lparr>st_cont = (st_cont (store_of s))(n := b_data ?b'), st_disk = (memdisk s)(n := memdisk s n),
    st_pinned = (st_pinned (store_of s))(n := dirtyb ?b'),
    st_held = (st_held (store_of s))(n := if b_refcnt ?b' = 0 then None else Some (i, sl_pid ?l)), st_trace = dwrites ?s'\<rparr>"
    by (rule store_inplace [OF r hd(8) nl]) (use hd s2 f in simp_all)
  then have "store_of ?s' = (store_of s)\<lparr>st_held := (st_held (store_of s))(n := None)\<rparr>"
    using flags hd f by simp
  moreover have "bkeep s ?s'" using ba f s2(4) by (simp add: bkeep_def)
  ultimately show ?thesis using rel mv by blast
qed

definition idleb :: "buf \<Rightarrow> bool" where
  "idleb b \<longleftrightarrow> b_refcnt b = 0 \<and> b_flags b AND B_DIRTY = 0"

lemma idleb_iff: "idleb b \<longleftrightarrow> b_refcnt b = 0 \<and> \<not> dirtyb b"
  by (simp add: idleb_def dirtyb_def)

lemma scan_cached:
  assumes "ring bs xs" "uniqb bs"
  shows "find_cached 31 bs 1 blockno (b_next (bs ! BHEAD)) = Inr (find_block bs (unat blockno))"
proof -
  have l: "linked bs BHEAD xs BHEAD" "BHEAD \<notin> set xs" "length xs < 31"
    using assms(1) distinct_card [of xs] by (auto simp: ring_def)
  have "find (\<lambda>i. b_dev (bs ! i) = 1 \<and> b_blockno (bs ! i) = blockno) xs = find_block bs (unat blockno)"
  proof (cases "find_block bs (unat blockno)")
    case None
    then have "find (\<lambda>i. b_dev (bs ! i) = 1 \<and> b_blockno (bs ! i) = blockno) xs = None"
      using assms(1) by (auto simp: find_block_None cachedb_def find_None_iff ring_def)
    then show ?thesis using None by simp
  next
    case (Some i)
    then have i: "cachedb bs (unat blockno) i" using find_block_iff [OF assms(2)] by simp
    have "find (\<lambda>i. b_dev (bs ! i) = 1 \<and> b_blockno (bs ! i) = blockno) xs \<noteq> None"
      using i assms(1) unsigned_word_eqI [of "b_blockno (bs ! i)" blockno]
      by (auto simp: cachedb_def find_None_iff ring_def intro!: exI [of _ i])
    then obtain j where j: "find (\<lambda>i. b_dev (bs ! i) = 1 \<and> b_blockno (bs ! i) = blockno) xs = Some j" by blast
    then have "cachedb bs (unat blockno) j"
      using assms(1) by (auto simp: find_Some_iff cachedb_def ring_def)
    then have "find_block bs (unat blockno) = Some j" using find_block_iff [OF assms(2)] by simp
    then show ?thesis using j by simp
  qed
  then show ?thesis using find_cached_ring [OF l] by simp
qed

lemma scan_recycle:
  assumes "ring bs xs"
  shows "find_recycle 31 bs (b_prev (bs ! BHEAD)) = Inr (find (\<lambda>i. idleb (bs ! i)) (rev xs))"
proof -
  have l: "linked bs BHEAD xs BHEAD" "BHEAD \<notin> set xs" "length xs < 31"
    using assms(1) distinct_card [of xs] by (auto simp: ring_def)
  show ?thesis using find_recycle_ring [OF l] by (simp add: idleb_def)
qed

lemma bread_hit:
  assumes r: "bready s" and c: "find_block (bufs s) (unat n) = Some i" and h: "st_held (store_of s) (unat n) = None"
  shows "\<exists>s'. bread 1 n s = Inr (i, s') \<and> bready s' \<and> bkeep s s' \<and>
    store_of s' = (store_of s)\<lparr>st_held := (st_held (store_of s))(unat n \<mapsto> (i, mypid s))\<rparr>"
proof -
  have cr: "crit [] s" "live s" and inv: "bcache_inv (bufs s) (slocks s) (memdisk s)" using r by (simp_all add: bready_def)
  have len: "length (bufs s) = Suc NBUF" using bcache_invD(2) [OF inv] .
  obtain xs where xs: "ring (bufs s) xs" using inv by (auto simp: bcache_inv_def)
  have i: "i < NBUF" "b_dev (bufs s ! i) = 1" "unat (b_blockno (bufs s ! i)) = unat n"
    using c find_block_iff [OF bcache_invD(1) [OF inv]] by (simp_all add: cachedb_def)
  have ok: "buf_ok (bufs s ! i) (slocks s (BufLk i)) (memdisk s)" using bcache_invD(3) [OF inv i(1)] .
  have r0: "b_refcnt (bufs s ! i) = 0" using h c by (auto simp: store_of_def split: if_splits)
  let ?b' = "(bufs s ! i)\<lparr>b_refcnt := 1\<rparr>"
  let ?s1 = "(acq BcacheLock s)\<lparr>bufs := (bufs s)[i := ?b']\<rparr>"
  let ?s2 = "rel BcacheLock ?s1"
  have c1: "crit [BcacheLock] ?s1" using crit_acq [OF cr(1), of BcacheLock] by simp
  have c2: "crit [] ?s2" "base_of ?s2 = base_of s"
    using crit_rel [OF c1, of BcacheLock] base_of_acq_rel(2) [OF c1] base_of_acq_rel(1) [OF cr(1)] by simp_all
  have un: "sl_locked (slocks ?s2 (BufLk i)) = 0" using ok r0 by (auto simp: buf_ok_def)
  let ?l = "(slocks s (BufLk i))\<lparr>sl_locked := 1, sl_pid := mypid s\<rparr>"
  obtain s' where s': "acquiresleep (BufLk i) ?s2 = Inr s'" "crit [] s'" "base_of s' = base_of s"
    "slocks s' = (slocks s)(BufLk i := ?l)" "slp_st.more s' = slp_st.more ?s2"
    using acquiresleep_ok [OF c2(1) _ _ un] base_ofD(4,5) [OF c2(2)] c2(2) cr(2) by auto
  note f = bio_more_fields [OF s'(5)]
  have fl: "validb ?b'" "dirtyb ?b' = dirtyb (bufs s ! i)" using ok i by (auto simp: buf_ok_def validb_def dirtyb_def)
  have "bread 1 n s = Inr (i, s')"
    using acquire_ok [OF cr(1), of BcacheLock] scan_cached [OF xs bcache_invD(1) [OF inv], of n] c release_ok [OF c1, of BcacheLock]
      s'(1) r0 f(1) fl(1) i(1) len
    by (simp add: bread_def bget_def b_set_def validb_def)
  moreover have ring: "ring (bufs s') xs" using ring_upd [OF xs, of i ?b'] f i(1) len by simp
  have okb: "buf_ok ?b' ?l (memdisk s')" using ok i fl f by (auto simp: buf_ok_def)
  have "bready s'"
    by (rule ready_inplace [OF r c _ _ _ _ s'(4,2,3) ring okb, where d = "memdisk s (unat n)"])
      (use i f bcache_invD(4) [OF inv] in simp_all)
  moreover have "store_of s' = \<lparr>st_cont = (st_cont (store_of s))(unat n := b_data ?b'), st_disk = (memdisk s)(unat n := memdisk s (unat n)),
    st_pinned = (st_pinned (store_of s))(unat n := dirtyb ?b'),
    st_held = (st_held (store_of s))(unat n := if b_refcnt ?b' = 0 then None else Some (i, sl_pid ?l)), st_trace = dwrites s'\<rparr>"
    by (rule store_inplace [OF r c _ _ _ _ s'(4)]) (use i f in simp_all)
  moreover have "st_cont (store_of s) (unat n) = b_data (bufs s ! i)" "st_pinned (store_of s) (unat n) = dirtyb (bufs s ! i)"
    using c by (simp_all add: store_of_def)
  moreover have "bkeep s s'" using s' f by (simp add: bkeep_def)
  ultimately show ?thesis using fl f by (simp add: fun_upd_idem)
qed

text \<open>Recycling an idle buffer for an uncached block.\<close>

lemma find_block_recycle:
  assumes u: "uniqb bs" and n: "find_block bs (unat n) = None" and i: "i < NBUF" "length bs = Suc NBUF"
    and b: "b_dev b' = 1" "b_blockno b' = n"
  shows "uniqb (bs[i := b'])"
    "find_block (bs[i := b']) m = (if m = unat n then Some i else if find_block bs m = Some i then None else find_block bs m)"
proof -
  have nn: "j < NBUF \<Longrightarrow> b_dev (bs ! j) = 1 \<Longrightarrow> b_blockno (bs ! j) \<noteq> n" for j
    using n by (auto simp: find_block_None cachedb_def)
  show u': "uniqb (bs[i := b'])"
    unfolding uniqb_def
  proof (intro allI impI)
    fix j k assume jk: "j < NBUF" "k < NBUF" and
      e: "b_dev (bs[i := b'] ! j) = 1 \<and> b_dev (bs[i := b'] ! k) = 1 \<and> b_blockno (bs[i := b'] ! j) = b_blockno (bs[i := b'] ! k)"
    show "j = k"
      using e jk u nn [of j] nn [of k] b i unfolding uniqb_def by (cases "j = i"; cases "k = i") auto
  qed
  have c: "cachedb (bs[i := b']) m j \<longleftrightarrow> (if j = i then m = unat n else cachedb bs m j)" for j
    using i b by (auto simp: cachedb_def nth_list_update)
  show "find_block (bs[i := b']) m = (if m = unat n then Some i else if find_block bs m = Some i then None else find_block bs m)"
  proof (cases "m = unat n")
    case True
    then show ?thesis using find_block_iff [OF u', of m i] c [of i] by simp
  next
    case False
    show ?thesis
    proof (cases "find_block bs m")
      case None
      then have "find_block (bs[i := b']) m = None" using False c by (auto simp: find_block_None)
      then show ?thesis using None False by simp
    next
      case (Some j)
      show ?thesis
      proof (cases "j = i")
        case True
        then have "find_block (bs[i := b']) m = None"
          using Some False c find_block_iff [OF u, of m] by (metis find_block_None option.inject)
        then show ?thesis using False Some True by simp
      next
        case ji: False
        then have "find_block (bs[i := b']) m = Some j"
          using Some c [of j] find_block_iff [OF u, of m j] find_block_iff [OF u', of m j] by simp
        then show ?thesis using False Some ji by simp
      qed
    qed
  qed
qed

lemma bread_miss:
  assumes r: "bready s" and c: "find_block (bufs s) (unat n) = None" and xs: "ring (bufs s) xs"
    and v: "find (\<lambda>i. idleb (bufs s ! i)) (rev xs) = Some i" and d: "n < disksize s"
  shows "\<exists>s'. bread 1 n s = Inr (i, s') \<and> bready s' \<and> bkeep s s' \<and>
    store_of s' = (store_of s)\<lparr>st_held := (st_held (store_of s))(unat n \<mapsto> (i, mypid s))\<rparr> \<and> ring (bufs s') xs"
proof -
  have cr: "crit [] s" "live s" and inv: "bcache_inv (bufs s) (slocks s) (memdisk s)" using r by (simp_all add: bready_def)
  have len: "length (bufs s) = Suc NBUF" using bcache_invD(2) [OF inv] .
  have "i \<in> set xs" "idleb (bufs s ! i)" using v nth_mem [of _ "rev xs"] by (auto simp: find_Some_iff)
  then have i: "i < NBUF" "b_refcnt (bufs s ! i) = 0" "\<not> dirtyb (bufs s ! i)" using xs by (auto simp: ring_def idleb_iff)
  have ok: "buf_ok (bufs s ! i) (slocks s (BufLk i)) (memdisk s)" using bcache_invD(3) [OF inv i(1)] .
  let ?b1 = "(bufs s ! i)\<lparr>b_dev := 1, b_blockno := n, b_flags := 0, b_refcnt := 1\<rparr>"
  let ?b' = "?b1\<lparr>b_data := memdisk s (unat n), b_flags := 0 OR B_VALID\<rparr>"
  let ?s1 = "(acq BcacheLock s)\<lparr>bufs := (bufs s)[i := ?b1]\<rparr>"
  let ?s2 = "rel BcacheLock ?s1"
  have c1: "crit [BcacheLock] ?s1" using crit_acq [OF cr(1), of BcacheLock] by simp
  have c2: "crit [] ?s2" "base_of ?s2 = base_of s"
    using crit_rel [OF c1, of BcacheLock] base_of_acq_rel(2) [OF c1] base_of_acq_rel(1) [OF cr(1)] by simp_all
  have un: "sl_locked (slocks ?s2 (BufLk i)) = 0" using ok i(2) by (auto simp: buf_ok_def)
  let ?l = "(slocks s (BufLk i))\<lparr>sl_locked := 1, sl_pid := mypid s\<rparr>"
  obtain s3 where s3: "acquiresleep (BufLk i) ?s2 = Inr s3" "crit [] s3" "base_of s3 = base_of s"
    "slocks s3 = (slocks s)(BufLk i := ?l)" "slp_st.more s3 = slp_st.more ?s2"
    using acquiresleep_ok [OF c2(1) _ _ un] base_ofD(4,5) [OF c2(2)] c2(2) cr(2) by auto
  note f = bio_more_fields [OF s3(5)]
  have b3: "bufs s3 ! i = ?b1" using f(1) i(1) len by simp
  have nd: "\<not> dirtyb ?b1" "\<not> dirtyb ?b'" "validb ?b'"
    unfolding dirtyb_def validb_def flag_bits by (simp_all add: bit_or_iff)
  obtain s' where s': "iderw i s3 = Inr s'" "crit [] s'" "base_of s' = base_of s" "slocks s' = (slocks s)(BufLk i := ?l)"
    "disksize s' = disksize s" "bio_st.more s' = bio_st.more s" "bufs s' = (bufs s)[i := ?b']" "memdisk s' = memdisk s" "dwrites s' = dwrites s"
    using iderw_ok [OF s3(2), of i] b3 nd(1) s3(3,4) f base_ofD(4,5) [OF s3(3)] cr(2) d i(1) len by auto
  have "bread 1 n s = Inr (i, s')"
    using acquire_ok [OF cr(1), of BcacheLock] scan_cached [OF xs bcache_invD(1) [OF inv], of n] c scan_recycle [OF xs] v
      release_ok [OF c1, of BcacheLock] s3(1) s'(1) b3 len i(1)
    by (simp add: bread_def bget_def b_set_def)
  moreover
  note fb = find_block_recycle [OF bcache_invD(1) [OF inv] c i(1) len, of ?b', folded s'(7)]
  have okj: "buf_ok (bufs s' ! j) (slocks s' (BufLk j)) (memdisk s')" if "j < NBUF" for j
  proof (cases "j = i")
    case True
    then show ?thesis using s' i(1) len nd bcache_invD(4) [OF inv] by (simp add: buf_ok_def)
  next
    case False
    then show ?thesis using bcache_invD(3) [OF inv that] s' by simp
  qed
  have rg: "ring (bufs s') xs" using ring_upd [OF xs, of i ?b'] s'(7) i(1) len by simp
  then have "bready s'"
    using fb(1) okj s'(2,8) bcache_invD(4) [OF inv] base_ofD(5) [OF s'(3)] cr(2) by (auto simp: bready_def bcache_inv_def)
  moreover have "store_of s' = (store_of s)\<lparr>st_held := (st_held (store_of s))(unat n \<mapsto> (i, mypid s))\<rparr>"
  proof -
    have fi: "m = unat (b_blockno (bufs s ! i)) \<and> b_data (bufs s ! i) = memdisk s m" if "find_block (bufs s) m = Some i" for m
      using that find_block_iff [OF bcache_invD(1) [OF inv], of m i] ok i by (auto simp: cachedb_def buf_ok_def)
    have e: "bufs s' ! i = ?b'" "\<And>j. j \<noteq> i \<Longrightarrow> bufs s' ! j = bufs s ! j" "slocks s' (BufLk i) = ?l"
      "\<And>j. j \<noteq> i \<Longrightarrow> slocks s' (BufLk j) = slocks s (BufLk j)" using s' i(1) len by simp_all
    have cont: "st_cont (store_of s') m = st_cont (store_of s) m" for m
      using fb(2) [of m] c fi [of m] e s'(8) by (auto simp: store_of_def split: option.splits)
    have pin: "st_pinned (store_of s') m = st_pinned (store_of s) m" for m
      using fb(2) [of m] c i(3) nd(2) e by (auto simp: store_of_def split: option.splits)
    have held: "st_held (store_of s') m = ((st_held (store_of s))(unat n \<mapsto> (i, mypid s))) m" for m
      using fb(2) [of m] c i(2) e by (auto simp: store_of_def split: option.splits)
    show ?thesis using cont pin held s' by (intro store.equality) (simp_all add: fun_eq_iff)
  qed
  moreover have "bkeep s s'" using s' by (simp add: bkeep_def)
  ultimately show ?thesis using rg by blast
qed

definition in_use :: "store \<Rightarrow> nat set" where
  "in_use st = {n. st_pinned st n \<or> st_held st n \<noteq> None}"

lemma idle_exists:
  assumes r: "bready s" and u: "card (in_use (store_of s)) < NBUF"
  shows "\<exists>i < NBUF. idleb (bufs s ! i)"
proof (rule ccontr)
  assume a: "\<not> (\<exists>i < NBUF. idleb (bufs s ! i))"
  have inv: "bcache_inv (bufs s) (slocks s) (memdisk s)" using r by (simp add: bready_def)
  let ?f = "\<lambda>i. unat (b_blockno (bufs s ! i))"
  have d: "b_dev (bufs s ! i) = 1 \<and> (b_refcnt (bufs s ! i) \<noteq> 0 \<or> dirtyb (bufs s ! i))" if "i < NBUF" for i
    using a that bcache_invD(3) [OF inv that] by (auto simp: buf_ok_def idleb_iff)
  have "inj_on ?f {..<NBUF}"
    using d bcache_invD(1) [OF inv] unfolding inj_on_def uniqb_def by (metis lessThan_iff unsigned_word_eqI)
  moreover have fb: "find_block (bufs s) (?f i) = Some i" if "i < NBUF" for i
    using find_block_iff [OF bcache_invD(1) [OF inv]] d [OF that] that by (simp add: cachedb_def)
  have "?f ` {..<NBUF} = in_use (store_of s)"
  proof
    show "?f ` {..<NBUF} \<subseteq> in_use (store_of s)"
      using fb d by (fastforce simp: in_use_def store_of_def)
    show "in_use (store_of s) \<subseteq> ?f ` {..<NBUF}"
    proof
      fix n assume "n \<in> in_use (store_of s)"
      then obtain i where "find_block (bufs s) n = Some i" by (auto simp: in_use_def store_of_def split: option.splits)
      then have "cachedb (bufs s) n i" using find_block_iff [OF bcache_invD(1) [OF inv]] by simp
      then show "n \<in> ?f ` {..<NBUF}" by (auto simp: cachedb_def)
    qed
  qed
  ultimately have "card (in_use (store_of s)) = NBUF" using card_image [of ?f "{..<NBUF}"] by simp
  then show False using u by simp
qed

lemma bread_ok:
  assumes r: "bready s" and d: "n < disksize s" and h: "st_held (store_of s) (unat n) = None"
    and u: "st_pinned (store_of s) (unat n) \<or> card (in_use (store_of s)) < NBUF"
  shows "\<exists>i s'. bread 1 n s = Inr (i, s') \<and> bready s' \<and> bkeep s s' \<and>
    store_of s' = (store_of s)\<lparr>st_held := (st_held (store_of s))(unat n \<mapsto> (i, mypid s))\<rparr>"
proof (cases "find_block (bufs s) (unat n)")
  case (Some i)
  then show ?thesis using bread_hit [OF r Some h] by blast
next
  case None
  have inv: "bcache_inv (bufs s) (slocks s) (memdisk s)" using r by (simp add: bready_def)
  obtain xs where xs: "ring (bufs s) xs" using inv by (auto simp: bcache_inv_def)
  have "\<not> st_pinned (store_of s) (unat n)" using None by (simp add: store_of_def)
  then obtain j where "j < NBUF" "idleb (bufs s ! j)" using idle_exists [OF r] u by blast
  then have "find (\<lambda>i. idleb (bufs s ! i)) (rev xs) \<noteq> None"
    using xs by (auto simp: find_None_iff ring_def)
  then show ?thesis using bread_miss [OF r None xs _ d] by blast
qed

section \<open>The contract the log and the file system rely on\<close>

lemma bkeep_refl [simp]: "bkeep s s"
  by (simp add: bkeep_def)

lemma bkeep_trans: "bkeep s t \<Longrightarrow> bkeep t u \<Longrightarrow> bkeep s u"
  by (simp add: bkeep_def)

lemma bkeepD:
  assumes "bkeep s s'"
  shows "mypid s' = mypid s" "disksize s' = disksize s" "bio_st.more s' = bio_st.more s" "curproc s' = curproc s"
    "slocks s' (InodeLk k) = slocks s (InodeLk k)" "base_of s' = base_of s"
  using assms base_ofD [of s' s] by (auto simp: bkeep_def)

locale block_cache =
  fixes ready :: "'s \<Rightarrow> bool" and keep :: "'s \<Rightarrow> 's \<Rightarrow> bool" and absf :: "'s \<Rightarrow> store"
    and pid :: "'s \<Rightarrow> int" and dsize :: "'s \<Rightarrow> u32"
    and rd :: "u32 \<Rightarrow> 's \<Rightarrow> (nat \<times> 's) kres" and wr :: "nat \<Rightarrow> 's \<Rightarrow> 's kres" and rl :: "nat \<Rightarrow> 's \<Rightarrow> 's kres"
    and setd :: "nat \<Rightarrow> u8 list \<Rightarrow> 's \<Rightarrow> 's" and getd :: "nat \<Rightarrow> 's \<Rightarrow> u8 list"
  assumes keep_trans: "keep s t \<Longrightarrow> keep t u \<Longrightarrow> keep s u"
    and keep_pid: "keep s t \<Longrightarrow> pid t = pid s" and keep_dsize: "keep s t \<Longrightarrow> dsize t = dsize s"
    and rd_law: "\<lbrakk>ready s; m < dsize s; st_held (absf s) (unat m) = None;
        st_pinned (absf s) (unat m) \<or> card (in_use (absf s)) < NBUF\<rbrakk> \<Longrightarrow>
      \<exists>i s'. rd m s = Inr (i, s') \<and> ready s' \<and> keep s s' \<and>
        absf s' = (absf s)\<lparr>st_held := (st_held (absf s))(unat m \<mapsto> (i, pid s))\<rparr>"
    and wr_law: "\<lbrakk>ready s; st_held (absf s) n = Some (i, pid s); n < unat (dsize s)\<rbrakk> \<Longrightarrow>
      \<exists>s'. wr i s = Inr s' \<and> ready s' \<and> keep s s' \<and>
        absf s' = (absf s)\<lparr>st_disk := (st_disk (absf s))(n := st_cont (absf s) n),
          st_pinned := (st_pinned (absf s))(n := False), st_trace := st_trace (absf s) @ [(n, st_cont (absf s) n)]\<rparr>"
    and rl_law: "\<lbrakk>ready s; st_held (absf s) n = Some (i, pid s);
        st_pinned (absf s) n \<or> st_cont (absf s) n = st_disk (absf s) n\<rbrakk> \<Longrightarrow>
      \<exists>s'. rl i s = Inr s' \<and> ready s' \<and> keep s s' \<and> absf s' = (absf s)\<lparr>st_held := (st_held (absf s))(n := None)\<rparr>"
    and setd_law: "\<lbrakk>ready s; st_held (absf s) n = Some (i, p); length d = BSIZE\<rbrakk> \<Longrightarrow>
      ready (setd i d s) \<and> keep s (setd i d s) \<and> absf (setd i d s) = (absf s)\<lparr>st_cont := (st_cont (absf s))(n := d)\<rparr>"
    and getd_law: "\<lbrakk>ready s; st_held (absf s) n = Some (i, p)\<rbrakk> \<Longrightarrow>
      getd i s = st_cont (absf s) n \<and> length (getd i s) = BSIZE"
begin

text \<open>Copy the held block \<open>nf\<close> over the held block \<open>nt\<close>, write \<open>nt\<close> out and release both.\<close>

lemma copy_out:
  assumes r: "ready s" and hf: "st_held (absf s) nf = Some (f, pid s)" and ht: "st_held (absf s) nt = Some (t, pid s)"
    and ne: "nf \<noteq> nt" and d: "nt < unat (dsize s)" and cl: "st_pinned (absf s) nf \<or> st_cont (absf s) nf = st_disk (absf s) nf"
  shows "\<exists>s'. bindE (wr t (setd t (getd f s) s)) (\<lambda>s. bindE (rl f s) (rl t)) = Inr s' \<and> ready s' \<and> keep s s' \<and>
    absf s' = \<lparr>st_cont = (st_cont (absf s))(nt := st_cont (absf s) nf), st_disk = (st_disk (absf s))(nt := st_cont (absf s) nf),
      st_pinned = (st_pinned (absf s))(nt := False), st_held = (st_held (absf s))(nf := None, nt := None),
      st_trace = st_trace (absf s) @ [(nt, st_cont (absf s) nf)]\<rparr>"
proof -
  have g: "getd f s = st_cont (absf s) nf" "length (getd f s) = BSIZE" using getd_law [OF r hf] by blast+
  let ?s1 = "setd t (getd f s) s"
  have s1: "ready ?s1" "keep s ?s1" "absf ?s1 = (absf s)\<lparr>st_cont := (st_cont (absf s))(nt := st_cont (absf s) nf)\<rparr>"
    using setd_law [OF r ht g(2)] g(1) by simp_all
  obtain s2 where s2: "wr t ?s1 = Inr s2" "ready s2" "keep ?s1 s2" "absf s2 = (absf ?s1)\<lparr>st_disk := (st_disk (absf ?s1))(nt := st_cont (absf ?s1) nt),
      st_pinned := (st_pinned (absf ?s1))(nt := False), st_trace := st_trace (absf ?s1) @ [(nt, st_cont (absf ?s1) nt)]\<rparr>"
    using wr_law [OF s1(1), of nt t] ht d s1(3) keep_pid [OF s1(2)] keep_dsize [OF s1(2)] by auto
  have k2: "keep s s2" using keep_trans [OF s1(2) s2(3)] .
  obtain s3 where s3: "rl f s2 = Inr s3" "ready s3" "keep s2 s3" "absf s3 = (absf s2)\<lparr>st_held := (st_held (absf s2))(nf := None)\<rparr>"
    using rl_law [OF s2(2), of nf f] hf cl ne s2(4) s1(3) keep_pid [OF k2] by auto
  have k3: "keep s s3" using keep_trans [OF k2 s3(3)] .
  obtain s4 where s4: "rl t s3 = Inr s4" "ready s4" "keep s3 s4" "absf s4 = (absf s3)\<lparr>st_held := (st_held (absf s3))(nt := None)\<rparr>"
    using rl_law [OF s3(2), of nt t] ht ne s3(4) s2(4) s1(3) keep_pid [OF k3] by auto
  show ?thesis
    using s1 s2(1,4) s3(1,4) s4 keep_trans [OF k3 s4(3)] ne by simp
qed

text \<open>A block written through the cache is read back, whatever the cache did in between to keep room.\<close>

lemma write_read:
  assumes r: "ready s" and d: "n < dsize s" and h: "st_held (absf s) (unat n) = None" and u: "card (in_use (absf s)) < NBUF"
    and l: "length v = BSIZE" and p: "\<not> st_pinned (absf s) (unat n)"
  shows "\<exists>i s1 s2 s3 j s4. rd n s = Inr (i, s1) \<and> wr i (setd i v s1) = Inr s2 \<and> rl i s2 = Inr s3 \<and> rd n s3 = Inr (j, s4) \<and>
    getd j s4 = v \<and> st_disk (absf s3) = (st_disk (absf s))(unat n := v)"
proof -
  obtain i s1 where s1: "rd n s = Inr (i, s1)" "ready s1" "keep s s1"
      "absf s1 = (absf s)\<lparr>st_held := (st_held (absf s))(unat n \<mapsto> (i, pid s))\<rparr>"
    using rd_law [OF r d h] u by blast
  let ?t = "setd i v s1"
  have t: "ready ?t" "keep s1 ?t" "absf ?t = (absf s1)\<lparr>st_cont := (st_cont (absf s1))(unat n := v)\<rparr>"
    using setd_law [OF s1(2) _ l, of "unat n" i "pid s"] s1(4) by simp_all
  have kt: "keep s ?t" using keep_trans [OF s1(3) t(2)] .
  obtain s2 where s2: "wr i ?t = Inr s2" "ready s2" "keep ?t s2" "absf s2 = (absf ?t)\<lparr>st_disk := (st_disk (absf ?t))(unat n := v),
      st_pinned := (st_pinned (absf ?t))(unat n := False), st_trace := st_trace (absf ?t) @ [(unat n, v)]\<rparr>"
    using wr_law [OF t(1), of "unat n" i] t(3) s1(4) d keep_pid [OF kt] keep_dsize [OF kt]
    by (auto simp: word_less_nat_alt)
  have k2: "keep s s2" using keep_trans [OF kt s2(3)] .
  obtain s3 where s3: "rl i s2 = Inr s3" "ready s3" "keep s2 s3" "absf s3 = (absf s2)\<lparr>st_held := (st_held (absf s2))(unat n := None)\<rparr>"
    using rl_law [OF s2(2), of "unat n" i] s2(4) t(3) s1(4) keep_pid [OF k2] by auto
  have k3: "keep s s3" using keep_trans [OF k2 s3(3)] .
  have "in_use (absf s3) = in_use (absf s)" using s3(4) s2(4) t(3) s1(4) h p by (auto simp: in_use_def)
  then obtain j s4 where s4: "rd n s3 = Inr (j, s4)" "ready s4"
      "absf s4 = (absf s3)\<lparr>st_held := (st_held (absf s3))(unat n \<mapsto> (j, pid s3))\<rparr>"
    using rd_law [OF s3(2), of n] d keep_dsize [OF k3] s3(4) u by auto
  have "getd j s4 = v" using getd_law [OF s4(2), of "unat n" j] s4(3) s3(4) s2(4) t(3) by auto
  then show ?thesis using s1 s2 s3 s4 t(3) by auto
qed

end

definition bdata :: "nat \<Rightarrow> 'a bio_st_scheme \<Rightarrow> u8 list" where
  "bdata i s = b_data (bufs s ! i)"

interpretation bc: block_cache bready bkeep store_of mypid disksize "bread 1" bwrite brelse bdata_set bdata
proof
  fix s t u :: "'a bio_st_scheme" and n :: nat and i :: nat and p :: int and d :: "u8 list" and m :: u32
  show "bkeep s t \<Longrightarrow> bkeep t u \<Longrightarrow> bkeep s u" by (rule bkeep_trans)
  show "bkeep s t \<Longrightarrow> mypid t = mypid s" "bkeep s t \<Longrightarrow> disksize t = disksize s" by (simp_all add: bkeepD)
  show "\<lbrakk>bready s; m < disksize s; st_held (store_of s) (unat m) = None;
      st_pinned (store_of s) (unat m) \<or> card (in_use (store_of s)) < NBUF\<rbrakk> \<Longrightarrow>
    \<exists>i s'. bread 1 m s = Inr (i, s') \<and> bready s' \<and> bkeep s s' \<and>
      store_of s' = (store_of s)\<lparr>st_held := (st_held (store_of s))(unat m \<mapsto> (i, mypid s))\<rparr>"
    by (rule bread_ok)
  show "\<lbrakk>bready s; st_held (store_of s) n = Some (i, mypid s); n < unat (disksize s)\<rbrakk> \<Longrightarrow>
    \<exists>s'. bwrite i s = Inr s' \<and> bready s' \<and> bkeep s s' \<and>
      store_of s' = (store_of s)\<lparr>st_disk := (st_disk (store_of s))(n := st_cont (store_of s) n),
        st_pinned := (st_pinned (store_of s))(n := False), st_trace := st_trace (store_of s) @ [(n, st_cont (store_of s) n)]\<rparr>"
    by (rule bwrite_ok)
  show "\<lbrakk>bready s; st_held (store_of s) n = Some (i, mypid s);
      st_pinned (store_of s) n \<or> st_cont (store_of s) n = st_disk (store_of s) n\<rbrakk> \<Longrightarrow>
    \<exists>s'. brelse i s = Inr s' \<and> bready s' \<and> bkeep s s' \<and> store_of s' = (store_of s)\<lparr>st_held := (st_held (store_of s))(n := None)\<rparr>"
    using brelse_ok by blast
  show "\<lbrakk>bready s; st_held (store_of s) n = Some (i, p); length d = BSIZE\<rbrakk> \<Longrightarrow>
    bready (bdata_set i d s) \<and> bkeep s (bdata_set i d s) \<and>
    store_of (bdata_set i d s) = (store_of s)\<lparr>st_cont := (st_cont (store_of s))(n := d)\<rparr>"
    using bdata_set_ok by blast
  show "\<lbrakk>bready s; st_held (store_of s) n = Some (i, p)\<rbrakk> \<Longrightarrow> bdata i s = st_cont (store_of s) n \<and> length (bdata i s) = BSIZE"
    using heldD(7,9) [of s n i p] unfolding bdata_def by blast
qed

section \<open>Boot\<close>

lemma initlock_bio [simp]:
  fixes s :: "'a bio_st_scheme"
  shows "bufs (initlock lk nm s) = bufs s" "slocks (initlock lk nm s) = slocks s" "memdisk (initlock lk nm s) = memdisk s"
    "dwrites (initlock lk nm s) = dwrites s" "base_of (initlock lk nm s) = base_of s"
  by (simp_all add: initlock_def base_of_def curproc_def curcpu_def)

lemma initsleeplock_ok:
  fixes s :: "'a bio_st_scheme"
  assumes "crit [] s"
  shows "crit [] (initsleeplock lk nm s)" "base_of (initsleeplock lk nm s) = base_of s"
    "bufs (initsleeplock lk nm s) = bufs s" "memdisk (initsleeplock lk nm s) = memdisk s" "dwrites (initsleeplock lk nm s) = dwrites s"
    "slocks (initsleeplock lk nm s) lk' = (if lk' = lk then \<lparr>sl_locked = 0, sl_name = nm, sl_pid = 0\<rparr> else slocks s lk')"
  using crit_initlock [OF assms] by (simp_all add: initsleeplock_def sl_set_def)

lemma binit_loop_ok:
  fixes s :: "'a bio_st_scheme"
  assumes "crit [] s" "linked (bufs s) BHEAD xs BHEAD" "distinct (ds @ xs)" "set (ds @ xs) \<subseteq> {..<BHEAD}" "length (bufs s) = Suc BHEAD"
  shows "crit [] (binit_loop ds s) \<and> base_of (binit_loop ds s) = base_of s \<and>
    linked (bufs (binit_loop ds s)) BHEAD (rev ds @ xs) BHEAD \<and> map nolinks (bufs (binit_loop ds s)) = map nolinks (bufs s) \<and>
    memdisk (binit_loop ds s) = memdisk s \<and> dwrites (binit_loop ds s) = dwrites s \<and>
    (\<forall>b. if b \<in> set ds then sl_locked (slocks (binit_loop ds s) (BufLk b)) = 0
         else slocks (binit_loop ds s) (BufLk b) = slocks s (BufLk b))"
  using assms
proof (induction ds arbitrary: s xs)
  case Nil
  then show ?case by simp
next
  case (Cons d ds)
  let ?i = "initsleeplock (BufLk d) ''buffer'' s"
  let ?t = "?i\<lparr>bufs := link_front d (bufs s)\<rparr>"
  note i = initsleeplock_ok [OF Cons.prems(1), of "BufLk d" "''buffer''"]
  have P: "crit [] ?t" "linked (bufs ?t) BHEAD (d # xs) BHEAD" "distinct (ds @ d # xs)" "set (ds @ d # xs) \<subseteq> {..<BHEAD}"
    "length (bufs ?t) = Suc BHEAD" "base_of ?t = base_of s" "memdisk ?t = memdisk s" "dwrites ?t = dwrites s"
    using Cons.prems i link_front_linked [OF Cons.prems(2), of d] by (auto simp: link_front_def Let_def)
  have L: "binit_loop (d # ds) s = binit_loop ds ?t" using i(3) by (simp add: Let_def)
  have S: "slocks ?t (BufLk c) = (if c = d then \<lparr>sl_locked = 0, sl_name = ''buffer'', sl_pid = 0\<rparr> else slocks s (BufLk c))" for c
    using i(6) [of "BufLk c"] by simp
  note IH = Cons.IH [OF P(1-5)]
  have "if b \<in> set (d # ds) then sl_locked (slocks (binit_loop (d # ds) s) (BufLk b)) = 0
         else slocks (binit_loop (d # ds) s) (BufLk b) = slocks s (BufLk b)" for b
    using IH S [of b] unfolding L by (cases "b \<in> set ds") auto
  then show ?case using IH P(6-8) unfolding L by (simp add: relink_same)
qed

definition zbuf :: buf where
  "zbuf = \<lparr>b_flags = 0, b_dev = 0, b_blockno = 0, b_refcnt = 0, b_prev = 0, b_next = 0, b_data = replicate BSIZE 0\<rparr>"

lemma binit_ok:
  fixes s :: "'a bio_st_scheme"
  assumes "crit [] s" "live s" "bufs s = replicate 31 zbuf" "\<And>n. length (memdisk s n) = BSIZE"
  shows "bready (binit s)" "store_of (binit s) = \<lparr>st_cont = memdisk s, st_disk = memdisk s, st_pinned = (\<lambda>_. False),
    st_held = (\<lambda>_. None), st_trace = dwrites s\<rparr>"
    "ring (bufs (binit s)) (rev [0..<NBUF])" "j < NBUF \<Longrightarrow> b_dev (bufs (binit s) ! j) = 0 \<and> idleb (bufs (binit s) ! j)"
proof -
  let ?s = "b_set BHEAD (\<lambda>h. h\<lparr>b_prev := BHEAD, b_next := BHEAD\<rparr>) (initlock BcacheLock ''bcache'' s)"
  have p: "crit [] ?s" "linked (bufs ?s) BHEAD [] BHEAD" "distinct ([0..<NBUF] @ [])" "set ([0..<NBUF] @ []) \<subseteq> {..<BHEAD}"
    "length (bufs ?s) = Suc BHEAD"
    using crit_initlock [OF assms(1)] assms(3) by (auto simp: b_set_def)
  note l = binit_loop_ok [OF p]
  have nl: "map nolinks (bufs (binit_loop [0..<NBUF] ?s)) = map nolinks (bufs ?s)" using l by blast
  have e: "binit s = binit_loop [0..<NBUF] ?s" by (simp add: binit_def)
  have b: "base_of (binit s) = base_of s" using l e by (simp add: b_set_def)
  have len: "length (bufs (binit s)) = Suc NBUF" using l p(5) e by (metis length_map)
  have f: "b_dev (bufs (binit s) ! j) = 0 \<and> b_refcnt (bufs (binit s) ! j) = 0 \<and> b_flags (bufs (binit s) ! j) = 0 \<and>
     length (b_data (bufs (binit s) ! j)) = BSIZE" if "j < NBUF" for j
    using nolinksD(1,2,4,5) [OF nl, of j] p(5) that assms(3) e
    by (simp add: b_set_def nth_append zbuf_def)
  have nf: "find_block (bufs (binit s)) n = None" for n using f by (auto simp: find_block_None cachedb_def)
  show "j < NBUF \<Longrightarrow> b_dev (bufs (binit s) ! j) = 0 \<and> idleb (bufs (binit s) ! j)" using f by (simp add: idleb_def)
  show "ring (bufs (binit s)) (rev [0..<NBUF])" using l e len by (auto simp: ring_def)
  moreover have "sl_locked (slocks (binit s) (BufLk j)) = 0" if "j < NBUF" for j using l that e by simp
  ultimately show "bready (binit s)"
    using l e base_ofD(5) [OF b] assms(2,4) f
    by (auto simp: bready_def bcache_inv_def uniqb_def buf_ok_def dirtyb_def b_set_def)
  show "store_of (binit s) = \<lparr>st_cont = memdisk s, st_disk = memdisk s, st_pinned = (\<lambda>_. False),
    st_held = (\<lambda>_. None), st_trace = dwrites s\<rparr>"
    using nf l e by (simp add: store_of_def b_set_def)
qed

section \<open>Properties\<close>

lemma find_after: "find P as = None \<Longrightarrow> P b \<Longrightarrow> find P (as @ b # cs) = Some b"
  by (induction as) (auto split: if_splits)

text \<open>
  C21: A read of an uncached block recycles exactly the least recently used buffer that is neither
  referenced nor pinned by the log, and releasing it makes it the most recently used one; the read is
  invisible in the abstract store (contents, disk, pinned and held blocks).
\<close>

theorem bread_recycles_lru:
  assumes "bready s" "ring (bufs s) (xs @ i # ys)" "idleb (bufs s ! i)" "\<And>j. j \<in> set ys \<Longrightarrow> \<not> idleb (bufs s ! j)"
    "\<And>j. j < NBUF \<Longrightarrow> b_dev (bufs s ! j) = 1 \<Longrightarrow> b_blockno (bufs s ! j) \<noteq> n" "n < disksize s"
  shows "\<exists>s' s''. bread 1 n s = Inr (i, s') \<and> brelse i s' = Inr s'' \<and> bready s'' \<and>
    ring (bufs s'') (i # xs @ ys) \<and> store_of s'' = store_of s"
proof -
  have c: "find_block (bufs s) (unat n) = None"
    using assms(5) unsigned_word_eqI by (fastforce simp: find_block_None cachedb_def)
  have "find (\<lambda>i. idleb (bufs s ! i)) (rev ys) = None" using assms(4) by (auto simp: find_None_iff)
  then have "find (\<lambda>i. idleb (bufs s ! i)) (rev ys @ i # rev xs) = Some i"
    using assms(3) by (rule find_after)
  then have v: "find (\<lambda>i. idleb (bufs s ! i)) (rev (xs @ i # ys)) = Some i" by simp
  obtain s' where s': "bread 1 n s = Inr (i, s')" "bready s'" "bkeep s s'"
      "store_of s' = (store_of s)\<lparr>st_held := (st_held (store_of s))(unat n \<mapsto> (i, mypid s))\<rparr>" "ring (bufs s') (xs @ i # ys)"
    using bread_miss [OF assms(1) c assms(2) v assms(6)] by blast
  have h: "st_held (store_of s') (unat n) = Some (i, mypid s')" using s'(4) bkeepD(1) [OF s'(3)] by simp
  have f: "st_cont (store_of s) (unat n) = st_disk (store_of s) (unat n)" "st_held (store_of s) (unat n) = None"
    using c by (simp_all add: store_of_def)
  have f': "st_cont (store_of s') (unat n) = st_disk (store_of s') (unat n)" using f(1) by (simp only: s'(4)) simp
  obtain s'' where s'': "brelse i s' = Inr s''" "bready s''" "store_of s'' = (store_of s')\<lparr>st_held := (st_held (store_of s'))(unat n := None)\<rparr>"
    "ring (bufs s'') (i # xs @ ys)"
    using brelse_ok [OF s'(2) h disjI2 [OF f']] s'(5) by blast
  have "store_of s'' = store_of s" using s''(3) s'(4) f(2) by (simp add: fun_upd_idem)
  then show ?thesis using s'(1) s'' by blast
qed

text \<open>
  C20: Read-modify-write round trip of the buffer cache: after \<open>bread\<close>, a store of \<open>v\<close> into the buffer,
  \<open>bwrite\<close> and \<open>brelse\<close>, the disk has \<open>v\<close> at that block and nowhere else changed, and the next
  \<open>bread\<close> of the block returns a buffer holding \<open>v\<close>.
\<close>

theorem bcache_write_read:
  assumes "bready s" "n < disksize s" "st_held (store_of s) (unat n) = None" "card (in_use (store_of s)) < NBUF"
    "length v = BSIZE" "\<not> st_pinned (store_of s) (unat n)"
  shows "\<exists>i s1 s2 s3 j s4. bread 1 n s = Inr (i, s1) \<and> bwrite i (bdata_set i v s1) = Inr s2 \<and> brelse i s2 = Inr s3 \<and>
    bread 1 n s3 = Inr (j, s4) \<and> b_data (bufs s4 ! j) = v \<and> memdisk s3 = (memdisk s)(unat n := v)"
  using bc.write_read [OF assms] unfolding bdata_def store_of_simps .

definition ex_bio0 :: bio_st where
  "ex_bio0 = proc_st.extend ex_procs \<lparr>slocks = (\<lambda>_. \<lparr>sl_locked = 0, sl_name = [], sl_pid = 0\<rparr>), bufs = replicate 31 zbuf,
     memdisk = (\<lambda>n. replicate BSIZE (of_nat n)), disksize = 1000, dwrites = []\<rparr>"

definition ex_bio :: bio_st where
  "ex_bio = binit ex_bio0"

lemma ex_bio0_fields: "crit [] ex_bio0" "live ex_bio0" "bufs ex_bio0 = replicate 31 zbuf" "length (memdisk ex_bio0 n) = BSIZE"
  "dwrites ex_bio0 = []" "disksize ex_bio0 = 1000" "memdisk ex_bio0 n = replicate BSIZE (of_nat n)"
  using ex_procs_fields(1)
  by (simp_all add: ex_bio0_def proc_st.defs live_def curproc_def curcpu_def)
    (simp add: ex_procs_def ex_con_def ex_kmem_def ex_hw_def con_st.defs kmem_st.defs hw.defs)

lemma disksize_binit [simp]: "disksize (binit s) = disksize s"
proof -
  have "disksize (binit_loop ds t) = disksize t" for ds and t :: "'a bio_st_scheme"
    by (induction ds arbitrary: t) (simp_all add: initsleeplock_def sl_set_def initlock_def Let_def)
  then show ?thesis by (simp add: binit_def Let_def b_set_def initlock_def)
qed

lemma ex_bio_ready: "bready ex_bio" "store_of ex_bio = \<lparr>st_cont = memdisk ex_bio0, st_disk = memdisk ex_bio0,
    st_pinned = (\<lambda>_. False), st_held = (\<lambda>_. None), st_trace = []\<rparr>" "disksize ex_bio = 1000"
  using binit_ok [OF ex_bio0_fields(1-4)] ex_bio0_fields(5,6) by (simp_all add: ex_bio_def)

theorem bcache_write_read_witness:
  "\<exists>i s1 s2 s3 j s4. bread 1 7 ex_bio = Inr (i, s1) \<and> bwrite i (bdata_set i (replicate 512 9) s1) = Inr s2 \<and> brelse i s2 = Inr s3 \<and>
    bread 1 7 s3 = Inr (j, s4) \<and> b_data (bufs s4 ! j) = replicate 512 9"
  using bcache_write_read [OF ex_bio_ready(1), of 7 "replicate 512 9"] by (fastforce simp: ex_bio_ready in_use_def)

theorem bread_recycles_lru_witness:
  "\<exists>s' s''. bread 1 7 ex_bio = Inr (0, s') \<and> brelse 0 s' = Inr s'' \<and> ring (bufs s'') (0 # rev [1..<30])"
proof -
  have z: "b_dev (bufs ex_bio ! j) = 0 \<and> idleb (bufs ex_bio ! j)" if "j < NBUF" for j
    using binit_ok(4) [OF ex_bio0_fields(1-4) that] by (simp add: ex_bio_def)
  have e: "rev [0..<30] = rev [1..<30] @ 0 # []" by (simp add: upt_conv_Cons)
  have rg: "ring (bufs ex_bio) (rev [1..<30] @ 0 # [])"
    using binit_ok(3) [OF ex_bio0_fields(1-4)] unfolding ex_bio_def e .
  have d: "b_blockno (bufs ex_bio ! j) \<noteq> 7" if "j < NBUF" "b_dev (bufs ex_bio ! j) = 1" for j
    using z [OF that(1)] that(2) by simp
  have "\<exists>s' s''. bread 1 7 ex_bio = Inr (0, s') \<and> brelse 0 s' = Inr s'' \<and> bready s'' \<and>
      ring (bufs s'') (0 # rev [1..<30] @ []) \<and> store_of s'' = store_of ex_bio"
    by (rule bread_recycles_lru [OF ex_bio_ready(1) rg]) (use z [of 0] d ex_bio_ready(3) in simp_all)
  then show ?thesis unfolding append_Nil2 by blast
qed

end
