(* ===== verification/Log.thy ===== *)
theory Log
  imports Bio Bytes
begin

text \<open>
  The write-ahead log of \<open>log.c\<close> over the buffer cache. The lemmas show what each step does to the
  abstract block store; the properties show that a commit cut short after any number of disk writes
  is either invisible or complete once \<open>recover_from_log\<close> has run, and what the space reservation of
  \<open>begin_op\<close> does and does not guarantee.
\<close>

section \<open>State and operations\<close>

record superblock =
  sb_size :: u32
  sb_nblocks :: u32
  sb_ninodes :: u32
  sb_nlog :: u32
  sb_logstart :: u32
  sb_inodestart :: u32
  sb_bmapstart :: u32

record log_st = bio_st +
  log_start :: u32
  log_size :: int
  log_outstanding :: int
  log_committing :: int
  log_dev :: u32
  lh_n :: int
  lh_block :: "u32 list"

definition sb_of :: "u8 list \<Rightarrow> superblock" where
  "sb_of d = \<lparr>sb_size = ld32 d 0, sb_nblocks = ld32 d 4, sb_ninodes = ld32 d 8, sb_nlog = ld32 d 12,
     sb_logstart = ld32 d 16, sb_inodestart = ld32 d 20, sb_bmapstart = ld32 d 24\<rparr>"

definition readsb :: "u32 \<Rightarrow> 'a bio_st_scheme \<Rightarrow> (superblock \<times> 'a bio_st_scheme) kres" where
  "readsb dev s =
     bindE (bread dev 1 s) (\<lambda>(bp, s).
     let sb = sb_of (bdata bp s) in
     bindE (brelse bp s) (\<lambda>s. Inr (sb, s)))"

text \<open>\<open>log.lh.block[i]\<close>; the array has \<open>LOGSIZE\<close> entries.\<close>

definition lhb :: "nat \<Rightarrow> 'a log_st_scheme \<Rightarrow> u32 kres" where
  "lhb i s = (if i < LOGSIZE then Inr (lh_block s ! i) else Inl Fault)"

fun install_loop :: "nat list \<Rightarrow> 'a log_st_scheme \<Rightarrow> ('a log_st_scheme) kres" where
  "install_loop [] s = Inr s"
| "install_loop (tail # ts) s =
     bindE (bread (log_dev s) (log_start s + of_nat tail + 1) s) (\<lambda>(lbuf, s).
     bindE (lhb tail s) (\<lambda>dst.
     bindE (bread (log_dev s) dst s) (\<lambda>(dbuf, s).
     bindE (bwrite dbuf (bdata_set dbuf (bdata lbuf s) s)) (\<lambda>s.
     bindE (brelse lbuf s) (\<lambda>s.
     bindE (brelse dbuf s) (install_loop ts))))))"

definition install_trans :: "'a log_st_scheme \<Rightarrow> ('a log_st_scheme) kres" where
  "install_trans s = install_loop [0..<nat (lh_n s)] s"

definition read_head :: "'a log_st_scheme \<Rightarrow> ('a log_st_scheme) kres" where
  "read_head s =
     bindE (bread (log_dev s) (log_start s) s) (\<lambda>(b, s).
     let n = sint (ld32 (bdata b s) 0);
         s = s\<lparr>lh_n := n\<rparr> in
     if n > int LOGSIZE then Inl Fault
     else
       let s = s\<lparr>lh_block := get_words (bdata b s) 4 (nat n) @ drop (nat n) (lh_block s)\<rparr> in
       brelse b s)"

definition write_head :: "'a log_st_scheme \<Rightarrow> ('a log_st_scheme) kres" where
  "write_head s =
     bindE (bread (log_dev s) (log_start s) s) (\<lambda>(b, s).
     if lh_n s > int LOGSIZE then Inl Fault
     else
       let hb = st32 (bdata b s) 0 (word_of_int (lh_n s));
           hb = put_words hb 4 (take (nat (lh_n s)) (lh_block s)) in
       bindE (bwrite b (bdata_set b hb s)) (brelse b))"

definition recover_from_log :: "'a log_st_scheme \<Rightarrow> ('a log_st_scheme) kres" where
  "recover_from_log s =
     bindE (read_head s) (\<lambda>s.
     bindE (install_trans s) (\<lambda>s.
     write_head (s\<lparr>lh_n := 0\<rparr>)))"

definition initlog :: "u32 \<Rightarrow> 'a log_st_scheme \<Rightarrow> ('a log_st_scheme) kres" where
  "initlog dev s =
     (if 4 + 4 * LOGSIZE \<ge> BSIZE then Inl (Panic ''initlog: too big logheader'')
      else
        let s = initlock LogLock ''log'' s in
        bindE (readsb dev s) (\<lambda>(sb, s).
        recover_from_log (s\<lparr>log_start := sb_logstart sb, log_size := sint (sb_nlog sb), log_dev := dev\<rparr>)))"

definition begin_op :: "'a log_st_scheme \<Rightarrow> ('a log_st_scheme) kres" where
  "begin_op s =
     bindE (acquire LogLock s) (\<lambda>s.
       if log_committing s \<noteq> 0 then sleep ChLog LogLock s
       else if lh_n s + (log_outstanding s + 1) * MAXOPBLOCKS > int LOGSIZE then sleep ChLog LogLock s
       else release LogLock (s\<lparr>log_outstanding := log_outstanding s + 1\<rparr>))"

fun write_log_loop :: "nat list \<Rightarrow> 'a log_st_scheme \<Rightarrow> ('a log_st_scheme) kres" where
  "write_log_loop [] s = Inr s"
| "write_log_loop (tail # ts) s =
     bindE (bread (log_dev s) (log_start s + of_nat tail + 1) s) (\<lambda>(to, s).
     bindE (lhb tail s) (\<lambda>src.
     bindE (bread (log_dev s) src s) (\<lambda>(from, s).
     bindE (bwrite to (bdata_set to (bdata from s) s)) (\<lambda>s.
     bindE (brelse from s) (\<lambda>s.
     bindE (brelse to s) (write_log_loop ts))))))"

definition write_log :: "'a log_st_scheme \<Rightarrow> ('a log_st_scheme) kres" where
  "write_log s = write_log_loop [0..<nat (lh_n s)] s"

definition commit :: "'a log_st_scheme \<Rightarrow> ('a log_st_scheme) kres" where
  "commit s =
     (if lh_n s > 0 then
        bindE (write_log s) (\<lambda>s.
        bindE (write_head s) (\<lambda>s.
        bindE (install_trans s) (\<lambda>s.
        write_head (s\<lparr>lh_n := 0\<rparr>))))
      else Inr s)"

definition end_op :: "'a log_st_scheme \<Rightarrow> ('a log_st_scheme) kres" where
  "end_op s =
     bindE (acquire LogLock s) (\<lambda>s.
     let s = s\<lparr>log_outstanding := log_outstanding s - 1\<rparr> in
     if log_committing s \<noteq> 0 then Inl (Panic ''log.committing'')
     else
       bindE (if log_outstanding s = 0 then Inr (True, s\<lparr>log_committing := 1\<rparr>)
              else bindE (wakeup ChLog s) (\<lambda>s. Inr (False, s))) (\<lambda>(do_commit, s).
       bindE (release LogLock s) (\<lambda>s.
       if do_commit then
         bindE (commit s) (\<lambda>s.
         bindE (acquire LogLock s) (\<lambda>s.
         bindE (wakeup ChLog (s\<lparr>log_committing := 0\<rparr>)) (release LogLock)))
       else Inr s)))"

text \<open>The search of \<open>log_write\<close>: the index of the block in the log, or \<open>lh.n\<close>.\<close>

fun log_find :: "u32 list \<Rightarrow> u32 \<Rightarrow> nat \<Rightarrow> nat" where
  "log_find [] blockno i = i"
| "log_find (x # xs) blockno i = (if x = blockno then i else log_find xs blockno (Suc i))"

definition log_write :: "nat \<Rightarrow> 'a log_st_scheme \<Rightarrow> ('a log_st_scheme) kres" where
  "log_write b s =
     (if lh_n s \<ge> int LOGSIZE \<or> lh_n s \<ge> log_size s - 1 then Inl (Panic ''too big a transaction'')
      else if log_outstanding s < 1 then Inl (Panic ''log_write outside of trans'')
      else
        bindE (acquire LogLock s) (\<lambda>s.
        let bno = b_blockno (bufs s ! b);
            i = log_find (take (nat (lh_n s)) (lh_block s)) bno 0;
            s = s\<lparr>lh_block := (lh_block s)[i := bno]\<rparr>;
            s = (if int i = lh_n s then s\<lparr>lh_n := lh_n s + 1\<rparr> else s);
            s = b_set b (\<lambda>x. x\<lparr>b_flags := b_flags x OR B_DIRTY\<rparr>) s in
        release LogLock s))"

section \<open>The log fields and the store\<close>

lemma log_more_fields:
  fixes s s' :: "'a log_st_scheme"
  assumes "bio_st.more s' = bio_st.more s"
  shows "log_start s' = log_start s" "log_size s' = log_size s" "log_outstanding s' = log_outstanding s"
    "log_committing s' = log_committing s" "log_dev s' = log_dev s" "lh_n s' = lh_n s" "lh_block s' = lh_block s"
    "log_st.more s' = log_st.more s"
  using assms by (cases s; cases s'; simp)+

lemma curproc_log [simp]:
  "curproc (s\<lparr>lh_n := a\<rparr>) = curproc s" "curproc (s\<lparr>lh_block := b\<rparr>) = curproc s" "curproc (s\<lparr>log_outstanding := c\<rparr>) = curproc s"
  "curproc (s\<lparr>log_committing := c\<rparr>) = curproc s" "curproc (s\<lparr>log_start := d\<rparr>) = curproc s"
  "curproc (s\<lparr>log_size := c\<rparr>) = curproc s" "curproc (s\<lparr>log_dev := d\<rparr>) = curproc s"
  by (simp_all add: curproc_def curcpu_def)

lemma store_cong:
  "\<lbrakk>bufs s' = bufs s; memdisk s' = memdisk s; slocks s' = slocks s; dwrites s' = dwrites s\<rbrakk> \<Longrightarrow> store_of s' = store_of s"
  by (simp add: store_of_def cong: option.case_cong if_cong)

lemma store_log [simp]:
  "store_of (s\<lparr>lh_n := a\<rparr>) = store_of s" "store_of (s\<lparr>lh_block := b\<rparr>) = store_of s" "store_of (s\<lparr>log_outstanding := c\<rparr>) = store_of s"
  "store_of (s\<lparr>log_committing := c\<rparr>) = store_of s" "store_of (s\<lparr>log_start := d\<rparr>) = store_of s"
  "store_of (s\<lparr>log_size := c\<rparr>) = store_of s" "store_of (s\<lparr>log_dev := d\<rparr>) = store_of s"
  by (rule store_cong; simp)+

lemma base_log [simp]:
  "base_of (s\<lparr>lh_n := a\<rparr>) = base_of s" "base_of (s\<lparr>lh_block := b\<rparr>) = base_of s" "base_of (s\<lparr>log_outstanding := c\<rparr>) = base_of s"
  "base_of (s\<lparr>log_committing := c\<rparr>) = base_of s" "base_of (s\<lparr>log_start := d\<rparr>) = base_of s"
  "base_of (s\<lparr>log_size := c\<rparr>) = base_of s" "base_of (s\<lparr>log_dev := d\<rparr>) = base_of s"
  by (simp_all add: base_of_def)

lemma ready_log [simp]:
  "bready (s\<lparr>lh_n := a\<rparr>) = bready s" "bready (s\<lparr>lh_block := b\<rparr>) = bready s" "bready (s\<lparr>log_outstanding := c\<rparr>) = bready s"
  "bready (s\<lparr>log_committing := c\<rparr>) = bready s" "bready (s\<lparr>log_start := d\<rparr>) = bready s"
  "bready (s\<lparr>log_size := c\<rparr>) = bready s" "bready (s\<lparr>log_dev := d\<rparr>) = bready s"
  by (simp_all add: bready_def live_def split: option.split)

lemma mypid_log [simp]: "mypid (s\<lparr>lh_n := a\<rparr>) = mypid s" "mypid (s\<lparr>lh_block := b\<rparr>) = mypid s"
  by (simp_all add: mypid_def)

lemma bdata_log [simp]: "bdata i (s\<lparr>lh_n := a\<rparr>) = bdata i s" "bdata i (s\<lparr>lh_block := b\<rparr>) = bdata i s"
  by (simp_all add: bdata_def)

section \<open>Copying blocks\<close>

definition copy_st :: "nat \<times> nat \<Rightarrow> store \<Rightarrow> store" where
  "copy_st ft st = (case ft of (f, t) \<Rightarrow>
     st\<lparr>st_cont := (st_cont st)(t := st_cont st f), st_disk := (st_disk st)(t := st_cont st f),
        st_pinned := (st_pinned st)(t := False), st_trace := st_trace st @ [(t, st_cont st f)]\<rparr>)"

lemma in_use_finite:
  assumes "bready s"
  shows "finite (in_use (store_of s))"
proof -
  have u: "uniqb (bufs s)" using assms bcache_invD(1) by (auto simp: bready_def)
  have "in_use (store_of s) \<subseteq> (\<lambda>i. unat (b_blockno (bufs s ! i))) ` {..<NBUF}"
  proof
    fix n assume "n \<in> in_use (store_of s)"
    then obtain i where "find_block (bufs s) n = Some i" by (auto simp: in_use_def store_of_def split: option.splits)
    then show "n \<in> (\<lambda>i. unat (b_blockno (bufs s ! i))) ` {..<NBUF}" using find_block_iff [OF u] by (auto simp: cachedb_def)
  qed
  then show ?thesis using finite_surj by blast
qed

text \<open>Reading two blocks, the second pinned or with a second free buffer.\<close>

lemma bread_two:
  assumes r: "bready s" and a: "a < disksize s" "st_held (store_of s) (unat a) = None"
      "st_pinned (store_of s) (unat a) \<or> card (in_use (store_of s)) < NBUF"
    and b: "b < disksize s" "st_held (store_of s) (unat b) = None" "a \<noteq> b"
      "st_pinned (store_of s) (unat b) \<or> Suc (card (in_use (store_of s))) < NBUF"
  shows "\<exists>i s1 j s2. bread 1 a s = Inr (i, s1) \<and> bready s1 \<and> bkeep s s1 \<and> bread 1 b s1 = Inr (j, s2) \<and> bready s2 \<and> bkeep s s2 \<and>
    store_of s2 = (store_of s)\<lparr>st_held := (st_held (store_of s))(unat a \<mapsto> (i, mypid s), unat b \<mapsto> (j, mypid s))\<rparr>"
proof -
  obtain i s1 where s1: "bread 1 a s = Inr (i, s1)" "bready s1" "bkeep s s1"
      "store_of s1 = (store_of s)\<lparr>st_held := (st_held (store_of s))(unat a \<mapsto> (i, mypid s))\<rparr>"
    using bread_ok [OF r a] by blast
  have ab: "unat a \<noteq> unat b" using b(3) unsigned_word_eqI by blast
  have "in_use (store_of s1) = insert (unat a) (in_use (store_of s))" using s1(4) by (auto simp: in_use_def)
  then have "card (in_use (store_of s1)) \<le> Suc (card (in_use (store_of s)))"
    using in_use_finite [OF r] by (simp add: card_insert_if)
  then have "st_pinned (store_of s1) (unat b) \<or> card (in_use (store_of s1)) < NBUF" using b(4) s1(4) by auto
  then obtain j s2 where s2: "bread 1 b s1 = Inr (j, s2)" "bready s2" "bkeep s1 s2"
      "store_of s2 = (store_of s1)\<lparr>st_held := (st_held (store_of s1))(unat b \<mapsto> (j, mypid s1))\<rparr>"
    using bread_ok [OF s1(2), of b] b(1,2) s1(4) bkeepD(2) [OF s1(3)] ab by auto
  show ?thesis using s1 s2 bkeep_trans [OF s1(3) s2(3)] bkeepD(1) [OF s1(3)] by auto
qed

lemma copy_back:
  assumes r: "bready s" and h: "st_held (store_of s) nf = Some (f, mypid s)" "st_held (store_of s) nt = Some (t, mypid s)"
    and ne: "nf \<noteq> nt" and d: "nt < unat (disksize s)" and cl: "st_pinned (store_of s) nf \<or> st_cont (store_of s) nf = st_disk (store_of s) nf"
  obtains s1 s2 s' where "bwrite t (bdata_set t (bdata f s) s) = Inr s1" "brelse f s1 = Inr s2" "brelse t s2 = Inr s'" "bready s'" "bkeep s s'"
    "store_of s' = (copy_st (nf, nt) (store_of s))\<lparr>st_held := (st_held (store_of s))(nf := None, nt := None)\<rparr>"
proof -
  obtain s' where "bindE (bwrite t (bdata_set t (bdata f s) s)) (\<lambda>s. bindE (brelse f s) (brelse t)) = Inr s'" "bready s'" "bkeep s s'"
    "store_of s' = (copy_st (nf, nt) (store_of s))\<lparr>st_held := (st_held (store_of s))(nf := None, nt := None)\<rparr>"
    using bc.copy_out [OF r h ne d cl] by (auto simp: copy_st_def)
  then show thesis using that by blast
qed

lemma install_step:
  fixes s :: "'a log_st_scheme"
  assumes r: "bready s" and dv: "log_dev s = 1" and t: "t < LOGSIZE"
  defines "a \<equiv> log_start s + of_nat t + 1" and "b \<equiv> lh_block s ! t"
  assumes a: "a < disksize s" "st_held (store_of s) (unat a) = None" "st_pinned (store_of s) (unat a) \<or> card (in_use (store_of s)) < NBUF"
    and b: "b < disksize s" "st_held (store_of s) (unat b) = None" "a \<noteq> b" "st_pinned (store_of s) (unat b) \<or> Suc (card (in_use (store_of s))) < NBUF"
    and cl: "st_pinned (store_of s) (unat a) \<or> st_cont (store_of s) (unat a) = st_disk (store_of s) (unat a)"
  shows "\<exists>s'. install_loop (t # ts) s = install_loop ts s' \<and> bready s' \<and> bkeep s s' \<and> store_of s' = copy_st (unat a, unat b) (store_of s)"
proof -
  obtain i s1 j s2 where s2: "bread 1 a s = Inr (i, s1)" "bkeep s s1" "bread 1 b s1 = Inr (j, s2)" "bready s2" "bkeep s s2"
    "store_of s2 = (store_of s)\<lparr>st_held := (st_held (store_of s))(unat a \<mapsto> (i, mypid s), unat b \<mapsto> (j, mypid s))\<rparr>"
    using bread_two [OF r a b] by blast
  have ne: "unat a \<noteq> unat b" using b(3) unsigned_word_eqI by blast
  have h: "st_held (store_of s2) (unat a) = Some (i, mypid s2)" "st_held (store_of s2) (unat b) = Some (j, mypid s2)"
    using s2(6) ne bkeepD(1) [OF s2(5)] by simp_all
  have d: "unat b < unat (disksize s2)" using b(1) bkeepD(2) [OF s2(5)] by (simp add: word_less_nat_alt)
  have c: "st_pinned (store_of s2) (unat a) \<or> st_cont (store_of s2) (unat a) = st_disk (store_of s2) (unat a)"
    using cl unfolding s2(6) by simp
  from h c ne d obtain s3 s4 s' where s': "bwrite j (bdata_set j (bdata i s2) s2) = Inr s3" "brelse i s3 = Inr s4" "brelse j s4 = Inr s'"
    "bready s'" "bkeep s2 s'" "store_of s' = (copy_st (unat a, unat b) (store_of s2))\<lparr>st_held := (st_held (store_of s2))(unat a := None, unat b := None)\<rparr>"
    using copy_back [OF s2(4)] by metis
  have "store_of s' = copy_st (unat a, unat b) (store_of s)"
    using s'(6) s2(6) a(2) b(2) ne by (simp add: copy_st_def fun_upd_idem fun_upd_twist)
  moreover have "install_loop (t # ts) s = install_loop ts s'"
    using s2(1,3) s'(1-3) dv t log_more_fields [OF bkeepD(3) [OF s2(2)]] by (simp add: a_def b_def lhb_def)
  ultimately show ?thesis using s'(4) bkeep_trans [OF s2(5) s'(5)] by blast
qed

lemma write_log_step:
  fixes s :: "'a log_st_scheme"
  assumes r: "bready s" and dv: "log_dev s = 1" and t: "t < LOGSIZE"
  defines "a \<equiv> log_start s + of_nat t + 1" and "b \<equiv> lh_block s ! t"
  assumes a: "a < disksize s" "st_held (store_of s) (unat a) = None" "st_pinned (store_of s) (unat a) \<or> card (in_use (store_of s)) < NBUF"
    and b: "b < disksize s" "st_held (store_of s) (unat b) = None" "a \<noteq> b" "st_pinned (store_of s) (unat b) \<or> Suc (card (in_use (store_of s))) < NBUF"
    and cl: "st_pinned (store_of s) (unat b) \<or> st_cont (store_of s) (unat b) = st_disk (store_of s) (unat b)"
  shows "\<exists>s'. write_log_loop (t # ts) s = write_log_loop ts s' \<and> bready s' \<and> bkeep s s' \<and> store_of s' = copy_st (unat b, unat a) (store_of s)"
proof -
  obtain i s1 j s2 where s2: "bread 1 a s = Inr (i, s1)" "bkeep s s1" "bread 1 b s1 = Inr (j, s2)" "bready s2" "bkeep s s2"
    "store_of s2 = (store_of s)\<lparr>st_held := (st_held (store_of s))(unat a \<mapsto> (i, mypid s), unat b \<mapsto> (j, mypid s))\<rparr>"
    using bread_two [OF r a b] by blast
  have ne: "unat b \<noteq> unat a" using b(3) unsigned_word_eqI by blast
  have h: "st_held (store_of s2) (unat b) = Some (j, mypid s2)" "st_held (store_of s2) (unat a) = Some (i, mypid s2)"
    using s2(6) ne bkeepD(1) [OF s2(5)] by simp_all
  have d: "unat a < unat (disksize s2)" using a(1) bkeepD(2) [OF s2(5)] by (simp add: word_less_nat_alt)
  have c: "st_pinned (store_of s2) (unat b) \<or> st_cont (store_of s2) (unat b) = st_disk (store_of s2) (unat b)"
    using cl unfolding s2(6) by simp
  from h c ne d obtain s3 s4 s' where s': "bwrite i (bdata_set i (bdata j s2) s2) = Inr s3" "brelse j s3 = Inr s4" "brelse i s4 = Inr s'"
    "bready s'" "bkeep s2 s'" "store_of s' = (copy_st (unat b, unat a) (store_of s2))\<lparr>st_held := (st_held (store_of s2))(unat b := None, unat a := None)\<rparr>"
    using copy_back [OF s2(4)] by metis
  have "store_of s' = copy_st (unat b, unat a) (store_of s)"
    using s'(6) s2(6) a(2) b(2) ne by (simp add: copy_st_def fun_upd_idem fun_upd_twist)
  moreover have "write_log_loop (t # ts) s = write_log_loop ts s'"
    using s2(1,3) s'(1-3) dv t log_more_fields [OF bkeepD(3) [OF s2(2)]] by (simp add: a_def b_def lhb_def)
  ultimately show ?thesis using s'(4) bkeep_trans [OF s2(5) s'(5)] by blast
qed

text \<open>
  \<open>log_geo\<close>: device, log start, block list and disk size, with the header and its 29 log blocks on the
  disk. \<open>outside\<close> holds of the blocks that are not part of the log.
\<close>

definition log_geo :: "u32 \<Rightarrow> u32 list \<Rightarrow> u32 \<Rightarrow> 'a log_st_scheme \<Rightarrow> bool" where
  "log_geo L bl dz s \<longleftrightarrow> log_dev s = 1 \<and> log_start s = L \<and> lh_block s = bl \<and> disksize s = dz \<and>
     unat L + LOGSIZE \<le> unat dz \<and> length bl = LOGSIZE"

definition outside :: "u32 \<Rightarrow> nat \<Rightarrow> bool" where
  "outside L b \<longleftrightarrow> b < unat L \<or> unat L + LOGSIZE \<le> b"

definition pinset :: "store \<Rightarrow> nat set" where
  "pinset st = {n. st_pinned st n}"

lemma log_geo_keep:
  fixes s s' :: "'a log_st_scheme"
  assumes "bkeep s s'"
  shows "log_geo L bl dz s' = log_geo L bl dz s"
  using log_more_fields [OF bkeepD(3) [OF assms]] bkeepD(2) [OF assms] by (simp add: log_geo_def)

lemma log_slot:
  assumes "log_geo L bl dz s" "t < 29"
  shows "unat (L + of_nat t + 1) = unat L + t + 1" "L + of_nat t + 1 < dz"
proof -
  have b: "unat L + 30 \<le> unat dz" using assms(1) by (simp add: log_geo_def)
  have "unat L + t + 1 < 4294967296" using b assms(2) unat_u32_less [of dz] by linarith
  moreover have "unat (of_nat t :: u32) = t" using assms(2) by (simp add: unat_of_nat)
  ultimately show u: "unat (L + of_nat t + 1) = unat L + t + 1"
    by (simp add: unat_word_ariths)
  show "L + of_nat t + 1 < dz" unfolding word_less_nat_alt u using b assms(2) by linarith
qed

lemma copy_st_simps:
  "st_cont (copy_st (f, t) st) = (st_cont st)(t := st_cont st f)" "st_disk (copy_st (f, t) st) = (st_disk st)(t := st_cont st f)"
  "st_pinned (copy_st (f, t) st) = (st_pinned st)(t := False)" "st_held (copy_st ft st) = st_held st"
  "st_trace (copy_st (f, t) st) = st_trace st @ [(t, st_cont st f)]"
  by (simp_all add: copy_st_def split: prod.split)

lemma pinset_copy: "pinset (copy_st (f, t) st) = pinset st - {t}"
  by (auto simp: pinset_def copy_st_simps)

lemma in_use_quiet: "st_held st = (\<lambda>_. None) \<Longrightarrow> in_use st = pinset st"
  by (simp add: in_use_def pinset_def)

lemma pinset_finite: "bready s \<Longrightarrow> st_held (store_of s) = (\<lambda>_. None) \<Longrightarrow> finite (pinset (store_of s))"
  using in_use_finite in_use_quiet by metis

definition room_for :: "store \<Rightarrow> nat list \<Rightarrow> bool" where
  "room_for st bs \<longleftrightarrow> card (pinset st) \<le> 29 \<and>
     (card (pinset st) \<le> 28 \<or> distinct bs \<and> (\<forall>b \<in> set bs. st_pinned st b))"

lemma install_loop_ok:
  fixes s :: "'a log_st_scheme"
  assumes "bready s" "log_geo L bl dz s" "set ts \<subseteq> {..<29}" "st_held (store_of s) = (\<lambda>_. None)"
    "\<forall>t \<in> set ts. outside L (unat (bl ! t)) \<and> bl ! t < dz" "room_for (store_of s) (map (\<lambda>t. unat (bl ! t)) ts)"
    "\<forall>t < 29. st_cont (store_of s) (unat L + t + 1) = st_disk (store_of s) (unat L + t + 1)"
  shows "\<exists>s'. install_loop ts s = Inr s' \<and> bready s' \<and> bkeep s s' \<and>
    store_of s' = fold copy_st (map (\<lambda>t. (unat L + t + 1, unat (bl ! t))) ts) (store_of s)"
  using assms
proof (induction ts arbitrary: s)
  case Nil
  then show ?case by simp
next
  case (Cons t ts)
  have t: "t < 29" using Cons.prems(3) by simp
  note sl = log_slot [OF Cons.prems(2) t]
  have g: "log_dev s = 1" "log_start s = L" "lh_block s = bl" "disksize s = dz" using Cons.prems(2) by (simp_all add: log_geo_def)
  have out: "outside L (unat (bl ! t))" "bl ! t < dz" using Cons.prems(5) by simp_all
  have iu: "in_use (store_of s) = pinset (store_of s)" using in_use_quiet [OF Cons.prems(4)] .
  have fin: "finite (pinset (store_of s))" using pinset_finite [OF Cons.prems(1,4)] .
  have ne: "L + of_nat t + 1 \<noteq> bl ! t" using out(1) sl(1) t by (auto simp: outside_def)
  obtain s1 where s1: "install_loop (t # ts) s = install_loop ts s1" "bready s1" "bkeep s s1"
      "store_of s1 = copy_st (unat L + t + 1, unat (bl ! t)) (store_of s)"
    using install_step [OF Cons.prems(1), of t ts] Cons.prems(4,6,7) g sl t out ne iu by (auto simp: room_for_def)
  have "card (pinset (store_of s1)) \<le> card (pinset (store_of s))" using fin by (simp add: s1(4) pinset_copy card_Diff1_le)
  then have room: "room_for (store_of s1) (map (\<lambda>t. unat (bl ! t)) ts)"
    using Cons.prems(6) by (auto simp: room_for_def s1(4) copy_st_simps) (metis imageI)
  have "st_cont (store_of s1) (unat L + u + 1) = st_disk (store_of s1) (unat L + u + 1)" if "u < 29" for u
    using Cons.prems(7) that out(1) unfolding s1(4) by (auto simp: copy_st_simps outside_def)
  then obtain s' where "install_loop ts s1 = Inr s'" "bready s'" "bkeep s1 s'"
      "store_of s' = fold copy_st (map (\<lambda>t. (unat L + t + 1, unat (bl ! t))) ts) (store_of s1)"
    using Cons.IH [OF s1(2)] log_geo_keep [OF s1(3)] Cons.prems(2-5) room by (auto simp: s1(4) copy_st_simps)
  then show ?case using s1 bkeep_trans [OF s1(3)] by (intro exI [of _ s']) simp
qed

lemma write_log_loop_ok:
  fixes s :: "'a log_st_scheme"
  assumes "bready s" "log_geo L bl dz s" "set ts \<subseteq> {..<29}" "st_held (store_of s) = (\<lambda>_. None)"
    "\<forall>t \<in> set ts. outside L (unat (bl ! t)) \<and> bl ! t < dz \<and> st_pinned (store_of s) (unat (bl ! t))"
    "card (pinset (store_of s)) \<le> 29"
  shows "\<exists>s'. write_log_loop ts s = Inr s' \<and> bready s' \<and> bkeep s s' \<and>
    store_of s' = fold copy_st (map (\<lambda>t. (unat (bl ! t), unat L + t + 1)) ts) (store_of s)"
  using assms
proof (induction ts arbitrary: s)
  case Nil
  then show ?case by simp
next
  case (Cons t ts)
  have t: "t < 29" using Cons.prems(3) by simp
  note sl = log_slot [OF Cons.prems(2) t]
  have g: "log_dev s = 1" "log_start s = L" "lh_block s = bl" "disksize s = dz" using Cons.prems(2) by (simp_all add: log_geo_def)
  have out: "outside L (unat (bl ! t))" "bl ! t < dz" "st_pinned (store_of s) (unat (bl ! t))" using Cons.prems(5) by simp_all
  have iu: "in_use (store_of s) = pinset (store_of s)" using in_use_quiet [OF Cons.prems(4)] .
  have fin: "finite (pinset (store_of s))" using pinset_finite [OF Cons.prems(1,4)] .
  have ne: "L + of_nat t + 1 \<noteq> bl ! t" using out(1) sl(1) t by (auto simp: outside_def)
  obtain s1 where s1: "write_log_loop (t # ts) s = write_log_loop ts s1" "bready s1" "bkeep s s1"
      "store_of s1 = copy_st (unat (bl ! t), unat L + t + 1) (store_of s)"
    using write_log_step [OF Cons.prems(1), of t ts] Cons.prems(4,6) g sl t out ne iu by auto
  have "card (pinset (store_of s1)) \<le> card (pinset (store_of s))" using fin by (simp add: s1(4) pinset_copy card_Diff1_le)
  then have room: "card (pinset (store_of s1)) \<le> 29" using Cons.prems(6) by simp
  have "\<forall>u \<in> set ts. outside L (unat (bl ! u)) \<and> bl ! u < dz \<and> st_pinned (store_of s1) (unat (bl ! u))"
    using Cons.prems(5) t by (auto simp: s1(4) copy_st_simps outside_def)
  then obtain s' where "write_log_loop ts s1 = Inr s'" "bready s'" "bkeep s1 s'"
      "store_of s' = fold copy_st (map (\<lambda>t. (unat (bl ! t), unat L + t + 1)) ts) (store_of s1)"
    using Cons.IH [OF s1(2)] log_geo_keep [OF s1(3)] Cons.prems(2-4) room by (auto simp: s1(4) copy_st_simps)
  then show ?case using s1 bkeep_trans [OF s1(3)] by (intro exI [of _ s']) simp
qed

section \<open>Sequences of block writes\<close>

definition apply_writes :: "(nat \<Rightarrow> u8 list) \<Rightarrow> (nat \<times> u8 list) list \<Rightarrow> nat \<Rightarrow> u8 list" where
  "apply_writes d ws = fold (\<lambda>(n, v) d. d(n := v)) ws d"

lemma apply_writes_simps [simp]:
  "apply_writes d [] = d" "apply_writes d ((n, v) # ws) = apply_writes (d(n := v)) ws"
  "apply_writes d (ws @ ws') = apply_writes (apply_writes d ws) ws'"
  by (simp_all add: apply_writes_def)

lemma apply_writes_notin: "b \<notin> fst ` set ws \<Longrightarrow> apply_writes d ws b = d b"
  by (induction ws arbitrary: d) auto

lemma apply_writes_map:
  "\<lbrakk>distinct (map f ts); t \<in> set ts\<rbrakk> \<Longrightarrow> apply_writes d (map (\<lambda>t. (f t, v t)) ts) (f t) = v t"
  by (induction ts arbitrary: d) (auto simp: apply_writes_notin image_image)

lemma apply_writes_cong:
  "(\<And>b. b \<notin> fst ` set ws \<Longrightarrow> d b = d' b) \<Longrightarrow> apply_writes d ws = apply_writes d' ws"
proof (induction ws arbitrary: d d')
  case (Cons w ws)
  obtain n v where w: "w = (n, v)" by (cases w)
  have "apply_writes (d(n := v)) ws = apply_writes (d'(n := v)) ws"
    by (rule Cons.IH) (use Cons.prems w in auto)
  then show ?case by (simp add: w)
qed auto

lemma fold_copy:
  assumes "fst ` set ps \<inter> snd ` set ps = {}"
  shows "st_cont (fold copy_st ps st) = apply_writes (st_cont st) (map (\<lambda>(f, t). (t, st_cont st f)) ps) \<and>
    st_disk (fold copy_st ps st) = apply_writes (st_disk st) (map (\<lambda>(f, t). (t, st_cont st f)) ps) \<and>
    st_pinned (fold copy_st ps st) = (\<lambda>b. st_pinned st b \<and> b \<notin> snd ` set ps) \<and>
    st_held (fold copy_st ps st) = st_held st \<and>
    st_trace (fold copy_st ps st) = st_trace st @ map (\<lambda>(f, t). (t, st_cont st f)) ps"
  using assms
proof (induction ps arbitrary: st)
  case (Cons p ps)
  obtain f t where p: "p = (f, t)" by (cases p)
  have e: "map (\<lambda>(f', t'). (t', st_cont (copy_st (f, t) st) f')) ps = map (\<lambda>(f', t'). (t', st_cont st f')) ps"
  proof (rule map_cong [OF refl])
    fix q assume "q \<in> set ps"
    then have "fst q \<noteq> t" using Cons.prems p by auto
    then show "(\<lambda>(f', t'). (t', st_cont (copy_st (f, t) st) f')) q = (\<lambda>(f', t'). (t', st_cont st f')) q"
      by (cases q) (simp add: copy_st_simps)
  qed
  have prem: "fst ` set ps \<inter> snd ` set ps = {}" using Cons.prems by auto
  note IH = Cons.IH [OF prem, of "copy_st (f, t) st", unfolded e]
  have "(\<lambda>b. st_pinned (copy_st (f, t) st) b \<and> b \<notin> snd ` set ps) = (\<lambda>b. st_pinned st b \<and> b \<notin> snd ` set (p # ps))"
    by (auto simp: copy_st_simps p fun_eq_iff)
  then show ?case using IH by (simp add: p copy_st_simps fun_upd_def)
qed simp

section \<open>The header\<close>

definition hdr_enc :: "u8 list \<Rightarrow> u32 list \<Rightarrow> u8 list" where
  "hdr_enc d vs = put_words (st32 d 0 (of_nat (length vs))) 4 vs"

lemma hdr_dec:
  assumes "length d = BSIZE" "length vs \<le> LOGSIZE"
  shows "ld32 (hdr_enc d vs) 0 = of_nat (length vs)" "get_words (hdr_enc d vs) 4 (length vs) = vs" "length (hdr_enc d vs) = BSIZE"
  using assms by (simp_all add: hdr_enc_def ld32_put_words_other get_put_words)

definition put_st :: "nat \<Rightarrow> u8 list \<Rightarrow> store \<Rightarrow> store" where
  "put_st n v st = st\<lparr>st_cont := (st_cont st)(n := v), st_disk := (st_disk st)(n := v),
     st_pinned := (st_pinned st)(n := False), st_trace := st_trace st @ [(n, v)]\<rparr>"

lemma clean_eq:
  assumes r: "bready s" and h: "st_held (store_of s) n = None" and p: "\<not> st_pinned (store_of s) n"
  shows "st_cont (store_of s) n = memdisk s n"
proof (cases "find_block (bufs s) n")
  case None
  then show ?thesis by (simp add: store_of_def)
next
  case (Some i)
  have inv: "bcache_inv (bufs s) (slocks s) (memdisk s)" using r by (simp add: bready_def)
  have c: "cachedb (bufs s) n i" using find_block_iff [OF bcache_invD(1) [OF inv]] Some by simp
  have "b_refcnt (bufs s ! i) = 0" "\<not> dirtyb (bufs s ! i)" using h p Some by (auto simp: store_of_def split: if_splits)
  then show ?thesis using bcache_invD(3) [OF inv, of i] c Some by (auto simp: cachedb_def buf_ok_def store_of_def)
qed

lemma cont_length:
  assumes r: "bready s"
  shows "length (st_cont (store_of s) n) = BSIZE"
proof (cases "find_block (bufs s) n")
  case None
  then show ?thesis using r bcache_invD(4) by (auto simp: store_of_def bready_def)
next
  case (Some i)
  have inv: "bcache_inv (bufs s) (slocks s) (memdisk s)" using r by (simp add: bready_def)
  have "cachedb (bufs s) n i" using find_block_iff [OF bcache_invD(1) [OF inv]] Some by simp
  then show ?thesis using bcache_invD(3) [OF inv, of i] Some by (auto simp: cachedb_def buf_ok_def store_of_def)
qed

lemma write_head_ok:
  fixes s :: "'a log_st_scheme"
  assumes r: "bready s" and g: "log_geo L bl dz s" and h: "st_held (store_of s) = (\<lambda>_. None)"
    and c: "card (pinset (store_of s)) \<le> 29" and n: "lh_n s = int n" "n \<le> LOGSIZE"
  shows "\<exists>s'. write_head s = Inr s' \<and> bready s' \<and> bkeep s s' \<and>
    store_of s' = put_st (unat L) (hdr_enc (st_cont (store_of s) (unat L)) (take n bl)) (store_of s)"
proof -
  have g': "log_dev s = 1" "log_start s = L" "lh_block s = bl" "disksize s = dz" "length bl = LOGSIZE" "unat L < unat dz"
    using g by (auto simp: log_geo_def)
  obtain b s1 where s1: "bread 1 L s = Inr (b, s1)" "bready s1" "bkeep s s1"
      "store_of s1 = (store_of s)\<lparr>st_held := (st_held (store_of s))(unat L \<mapsto> (b, mypid s))\<rparr>"
    using bread_ok [OF r, of L] g' h c in_use_quiet [OF h] by (auto simp: word_less_nat_alt)
  note f = log_more_fields [OF bkeepD(3) [OF s1(3)]]
  have h1: "st_held (store_of s1) (unat L) = Some (b, mypid s1)" using s1(4) bkeepD(1) [OF s1(3)] by simp
  have bd: "bdata b s1 = st_cont (store_of s) (unat L)" using heldD(7) [OF s1(2) h1] s1(4) by (simp add: bdata_def)
  let ?v = "hdr_enc (st_cont (store_of s) (unat L)) (take n bl)"
  have lv: "length ?v = BSIZE" using cont_length [OF r] by (simp add: hdr_enc_def)
  let ?t = "bdata_set b ?v s1"
  note bt = bdata_set_ok [OF s1(2) h1 lv]
  have k: "mypid ?t = mypid s1" "disksize ?t = dz" using bkeepD(1,2) [OF bt(2)] bkeepD(2) [OF s1(3)] g' by simp_all
  obtain s2 where s2: "bwrite b ?t = Inr s2" "bready s2" "bkeep ?t s2"
     "store_of s2 = (store_of ?t)\<lparr>st_disk := (st_disk (store_of ?t))(unat L := ?v),
      st_pinned := (st_pinned (store_of ?t))(unat L := False), st_trace := st_trace (store_of ?t) @ [(unat L, ?v)]\<rparr>"
    using bwrite_ok [OF bt(1), of "unat L" b] h1 bt(3) k g'(6) by auto
  have h2: "st_held (store_of s2) (unat L) = Some (b, mypid s2)" using s2(4) bt(3) h1 bkeepD(1) [OF s2(3)] k by simp
  obtain s3 where s3: "brelse b s2 = Inr s3" "bready s3" "bkeep s2 s3" "store_of s3 = (store_of s2)\<lparr>st_held := (st_held (store_of s2))(unat L := None)\<rparr>"
    using brelse_ok [OF s2(2) h2] unfolding s2(4) bt(3) by auto
  have "write_head s = Inr s3"
    using s1(1) g' f n bd s2(1) s3(1) by (simp add: write_head_def hdr_enc_def min_def)
  moreover have "store_of s3 = put_st (unat L) ?v (store_of s)"
    using s3(4) s2(4) bt(3) s1(4) h by (simp add: put_st_def fun_upd_idem)
  moreover have "bkeep s s3" using s1(3) bt(2) s2(3) s3(3) by (meson bkeep_trans)
  ultimately show ?thesis using s3(2) by blast
qed

lemma read_head_ok:
  fixes s :: "'a log_st_scheme"
  assumes r: "bready s" and g: "log_geo L bl dz s" and h: "st_held (store_of s) = (\<lambda>_. None)"
    and c: "card (pinset (store_of s)) \<le> 29" and p: "\<not> st_pinned (store_of s) (unat L)"
    and n: "sint (ld32 (memdisk s (unat L)) 0) = int n" "n \<le> LOGSIZE"
  shows "\<exists>s'. read_head s = Inr s' \<and> bready s' \<and> base_of s' = base_of s \<and> store_of s' = store_of s \<and>
    log_geo L (get_words (memdisk s (unat L)) 4 n @ drop n bl) dz s' \<and> lh_n s' = int n"
proof -
  have g': "log_dev s = 1" "log_start s = L" "lh_block s = bl" "disksize s = dz" "length bl = LOGSIZE" "unat L < unat dz"
    using g by (auto simp: log_geo_def)
  obtain b s1 where s1: "bread 1 L s = Inr (b, s1)" "bready s1" "bkeep s s1"
      "store_of s1 = (store_of s)\<lparr>st_held := (st_held (store_of s))(unat L \<mapsto> (b, mypid s))\<rparr>"
    using bread_ok [OF r, of L] g' h c in_use_quiet [OF h] by (auto simp: word_less_nat_alt)
  note f = log_more_fields [OF bkeepD(3) [OF s1(3)]]
  have h1: "st_held (store_of s1) (unat L) = Some (b, mypid s1)" using s1(4) bkeepD(1) [OF s1(3)] by simp
  have cl: "st_cont (store_of s) (unat L) = memdisk s (unat L)" using clean_eq [OF r _ p] h by simp
  have bd: "bdata b s1 = memdisk s (unat L)" using heldD(7) [OF s1(2) h1] s1(4) cl by (simp add: bdata_def)
  let ?bl = "get_words (memdisk s (unat L)) 4 n @ drop n bl"
  let ?t = "s1\<lparr>lh_n := int n, lh_block := ?bl\<rparr>"
  have t: "bready ?t" "st_held (store_of ?t) (unat L) = Some (b, mypid ?t)" using s1(2) h1 by simp_all
  have c2: "st_cont (store_of ?t) (unat L) = st_disk (store_of ?t) (unat L)" using cl s1(4) by simp
  obtain s' where s': "brelse b ?t = Inr s'" "bready s'" "bkeep ?t s'" "store_of s' = (store_of ?t)\<lparr>st_held := (st_held (store_of ?t))(unat L := None)\<rparr>"
    using brelse_ok [OF t] c2 by blast
  note f' = log_more_fields [OF bkeepD(3) [OF s'(3)]]
  have "read_head s = Inr s'" using s1(1) g' f n bd s'(1) by (simp add: read_head_def)
  moreover have "store_of s' = store_of s" using s'(4) s1(4) h by (simp add: fun_upd_idem)
  moreover have "log_geo L ?bl dz s'" "lh_n s' = int n"
    using g f f' bkeepD(2) [OF s1(3)] bkeepD(2) [OF s'(3)] n(2) by (simp_all add: log_geo_def get_words_def)
  moreover have "base_of s' = base_of s" using bkeepD(6) [OF s1(3)] bkeepD(6) [OF s'(3)] by simp
  ultimately show ?thesis using s'(2) by blast
qed

section \<open>Commit\<close>

lemma put_st_simps:
  "st_cont (put_st n v st) = (st_cont st)(n := v)" "st_disk (put_st n v st) = (st_disk st)(n := v)"
  "st_pinned (put_st n v st) = (st_pinned st)(n := False)" "st_held (put_st n v st) = st_held st"
  "st_trace (put_st n v st) = st_trace st @ [(n, v)]"
  by (simp_all add: put_st_def)

definition tx_ok :: "'a log_st_scheme \<Rightarrow> bool" where
  "tx_ok s \<longleftrightarrow> bready s \<and> st_held (store_of s) = (\<lambda>_. None) \<and>
     log_geo (log_start s) (lh_block s) (disksize s) s \<and> 0 \<le> lh_n s \<and> lh_n s \<le> 29 \<and>
     distinct (take (nat (lh_n s)) (lh_block s)) \<and>
     (\<forall>b \<in> set (take (nat (lh_n s)) (lh_block s)). outside (log_start s) (unat b) \<and> b < disksize s) \<and>
     pinset (store_of s) = unat ` set (take (nat (lh_n s)) (lh_block s)) \<and>
     ld32 (memdisk s (unat (log_start s))) 0 = 0"

definition log_writes :: "u32 \<Rightarrow> u32 list \<Rightarrow> (nat \<Rightarrow> u8 list) \<Rightarrow> (nat \<times> u8 list) list" where
  "log_writes L vs c = map (\<lambda>t. (unat L + t + 1, c (unat (vs ! t)))) [0..<length vs]"

definition home_writes :: "u32 list \<Rightarrow> (nat \<Rightarrow> u8 list) \<Rightarrow> (nat \<times> u8 list) list" where
  "home_writes vs c = map (\<lambda>t. (unat (vs ! t), c (unat (vs ! t)))) [0..<length vs]"

definition commit_writes :: "u32 \<Rightarrow> u32 list \<Rightarrow> (nat \<Rightarrow> u8 list) \<Rightarrow> (nat \<times> u8 list) list" where
  "commit_writes L vs c = log_writes L vs c @ (unat L, hdr_enc (c (unat L)) vs) # home_writes vs c @
     [(unat L, hdr_enc (hdr_enc (c (unat L)) vs) [])]"

lemma map_nth_unat: "map (\<lambda>t. unat (vs ! t)) [0..<length vs] = map unat vs" for vs :: "u32 list"
  by (rule nth_equalityI) simp_all

lemma distinct_unat: "distinct vs \<Longrightarrow> distinct (map (\<lambda>t. unat (vs ! t)) [0..<length vs])" for vs :: "u32 list"
proof -
  assume "distinct vs"
  moreover have "inj_on (unat :: u32 \<Rightarrow> nat) (set vs)" by (rule inj_onI) (rule unsigned_word_eqI)
  ultimately show ?thesis by (simp add: distinct_map map_nth_unat)
qed

lemma log_writes_keys: "fst ` set (log_writes L vs c) = {unat L + 1..<unat L + 1 + length vs}"
proof
  show "fst ` set (log_writes L vs c) \<subseteq> {unat L + 1..<unat L + 1 + length vs}" by (auto simp: log_writes_def)
  show "{unat L + 1..<unat L + 1 + length vs} \<subseteq> fst ` set (log_writes L vs c)"
  proof
    fix b assume "b \<in> {unat L + 1..<unat L + 1 + length vs}"
    then have "b = unat L + (b - unat L - 1) + 1" "b - unat L - 1 < length vs" by auto
    then show "b \<in> fst ` set (log_writes L vs c)" by (force simp: log_writes_def image_image)
  qed
qed

lemma home_writes_keys: "fst ` set (home_writes vs c) = unat ` set vs"
proof -
  have "fst ` set (home_writes vs c) = set (map (\<lambda>t. unat (vs ! t)) [0..<length vs])"
    by (simp add: home_writes_def image_image)
  then show ?thesis unfolding map_nth_unat by simp
qed

lemma log_writes_at: "t < length vs \<Longrightarrow> apply_writes d (log_writes L vs c) (unat L + t + 1) = c (unat (vs ! t))"
  unfolding log_writes_def
  by (rule apply_writes_map [where f = "\<lambda>t. unat L + t + 1"]) (auto simp: distinct_map inj_on_def)

lemma commit_ok:
  fixes s :: "'a log_st_scheme"
  assumes tx: "tx_ok s" and pos: "lh_n s > 0"
  defines "vs \<equiv> take (nat (lh_n s)) (lh_block s)" and "c \<equiv> st_cont (store_of s)" and "L \<equiv> log_start s"
  defines "W \<equiv> commit_writes L vs c"
  shows "\<exists>s'. commit s = Inr s' \<and> bready s' \<and> base_of s' = base_of s \<and> log_geo L (lh_block s) (disksize s) s' \<and> lh_n s' = 0 \<and>
    store_of s' = \<lparr>st_cont = apply_writes c W, st_disk = apply_writes (memdisk s) W, st_pinned = (\<lambda>_. False),
      st_held = (\<lambda>_. None), st_trace = dwrites s @ W\<rparr>"
proof -
  define n where "n = nat (lh_n s)"
  define bl where "bl = lh_block s"
  have r: "bready s" and h: "st_held (store_of s) = (\<lambda>_. None)" and g: "log_geo L bl (disksize s) s" and n: "lh_n s = int n" "n \<le> 29"
    and dist: "distinct vs" and out: "\<And>b. b \<in> set vs \<Longrightarrow> outside L (unat b) \<and> b < disksize s" and pin: "pinset (store_of s) = unat ` set vs"
    using tx by (auto simp: tx_ok_def n_def bl_def vs_def L_def)
  have bl: "length bl = 30" using g by (simp add: log_geo_def)
  have len: "length vs = n" using bl n by (simp add: vs_def n_def bl_def)
  have nth: "t < n \<Longrightarrow> bl ! t = vs ! t" for t by (simp add: vs_def n_def bl_def)
  have inpin: "st_pinned (store_of s) b \<longleftrightarrow> b \<in> unat ` set vs" for b using pin by (auto simp: pinset_def)
  have outn: "t < n \<Longrightarrow> outside L (unat (vs ! t)) \<and> vs ! t < disksize s \<and> st_pinned (store_of s) (unat (vs ! t))" for t
    using out [of "vs ! t"] inpin len by auto
  have card: "card (pinset (store_of s)) \<le> 29"
    using card_image_le [of "set vs" unat] card_length [of vs] len n(2) pin by simp
  have npin: "\<not> st_pinned (store_of s) b" if "unat L \<le> b" "b < unat L + 30" for b
    using inpin [of b] that by (auto simp: outside_def dest!: out)
  \<comment> \<open>the log blocks\<close>
  have sub: "set [0..<n] \<subseteq> {..<29}" using n(2) by auto
  have sep: "unat (bl ! t) \<noteq> Suc (unat L + u)" if "t < n" "u < n" for t u
    using outn [of t] nth [of t] n(2) that by (auto simp: outside_def)
  let ?ps = "map (\<lambda>t. (unat (bl ! t), unat L + t + 1)) [0..<n]"
  obtain s1 where s1: "write_log_loop [0..<n] s = Inr s1" "bready s1" "bkeep s s1" "store_of s1 = fold copy_st ?ps (store_of s)"
    using write_log_loop_ok [OF r g sub h] outn nth card by auto
  have dis1: "fst ` set ?ps \<inter> snd ` set ?ps = {}" using sep by auto
  have ws1: "map (\<lambda>(f, t). (t, st_cont (store_of s) f)) ?ps = log_writes L vs c"
    using len nth by (simp add: log_writes_def c_def)
  note f1 = fold_copy [OF dis1, of "store_of s", folded s1(4), unfolded ws1]
  have p1: "st_pinned (store_of s1) = st_pinned (store_of s)"
  proof (rule ext)
    fix b
    have "b \<in> snd ` set ?ps \<Longrightarrow> \<not> st_pinned (store_of s) b" using npin [of b] n(2) by auto
    then show "st_pinned (store_of s1) b = st_pinned (store_of s) b" using f1 by auto
  qed
  note g1 = log_geo_keep [OF s1(3), of L bl "disksize s"] and l1 = log_more_fields [OF bkeepD(3) [OF s1(3)]]
  have cL1: "st_cont (store_of s1) (unat L) = c (unat L)"
    using f1 apply_writes_notin [of "unat L" "log_writes L vs c"] by (simp add: log_writes_keys c_def)
  \<comment> \<open>the header\<close>
  let ?h1 = "hdr_enc (c (unat L)) vs"
  have pin1: "pinset (store_of s1) = pinset (store_of s)" by (simp add: pinset_def p1)
  have h1: "st_held (store_of s1) = (\<lambda>_. None)" using f1 h by simp
  obtain s2 where s2: "write_head s1 = Inr s2" "bready s2" "bkeep s1 s2" "store_of s2 = put_st (unat L) ?h1 (store_of s1)"
  proof -
    have "log_geo L bl (disksize s) s1" "card (pinset (store_of s1)) \<le> 29" "lh_n s1 = int n" "n \<le> LOGSIZE"
      using g g1 pin1 card l1 n by simp_all
    moreover have "take n bl = vs" by (simp add: vs_def n_def bl_def)
    ultimately show thesis using write_head_ok [OF s1(2) _ h1, of L bl "disksize s" n] cL1 that by auto
  qed
  have g2: "log_geo L bl (disksize s) s2" using log_geo_keep [OF s2(3)] g g1 by simp
  have l2: "lh_n s2 = int n" using log_more_fields(6) [OF bkeepD(3) [OF s2(3)]] l1 n by simp
  have p2: "st_pinned (store_of s2) = st_pinned (store_of s)"
    using p1 npin [of "unat L"] by (simp add: s2(4) put_st_simps fun_upd_idem)
  have h2: "st_held (store_of s2) = (\<lambda>_. None)" using h1 by (simp add: s2(4) put_st_simps)
  \<comment> \<open>the home blocks\<close>
  let ?qs = "map (\<lambda>t. (unat L + t + 1, unat (bl ! t))) [0..<n]"
  have pin2: "pinset (store_of s2) = pinset (store_of s)" by (simp add: pinset_def p2)
  have mb: "map (\<lambda>t. unat (bl ! t)) [0..<n] = map (\<lambda>t. unat (vs ! t)) [0..<length vs]" using len nth by simp
  have "room_for (store_of s2) (map (\<lambda>t. unat (bl ! t)) [0..<n])"
    unfolding mb using distinct_unat [OF dist] len card outn pin2 p2 by (auto simp: room_for_def)
  moreover have "\<forall>t < 29. st_cont (store_of s2) (unat L + t + 1) = st_disk (store_of s2) (unat L + t + 1)"
    using clean_eq [OF s2(2)] h2 p2 npin by simp
  ultimately obtain s3 where s3: "install_loop [0..<n] s2 = Inr s3" "bready s3" "bkeep s2 s3" "store_of s3 = fold copy_st ?qs (store_of s2)"
    using install_loop_ok [OF s2(2) g2 sub h2] outn nth by auto
  have dis2: "fst ` set ?qs \<inter> snd ` set ?qs = {}" using sep by auto (metis)
  have at: "st_cont (store_of s2) (unat L + t + 1) = c (unat (vs ! t))" if "t < n" for t
    using f1 log_writes_at [of t vs] that len by (simp add: s2(4) put_st_simps c_def)
  have ws2: "map (\<lambda>(f, t). (t, st_cont (store_of s2) f)) ?qs = home_writes vs c"
    using len nth at by (simp add: home_writes_def)
  note f3 = fold_copy [OF dis2, of "store_of s2", folded s3(4), unfolded ws2]
  have p3: "st_pinned (store_of s3) = (\<lambda>_. False)"
  proof -
    have "snd ` set ?qs = set (map (\<lambda>t. unat (bl ! t)) [0..<n])" by (simp add: image_image)
    then have "snd ` set ?qs = unat ` set vs" unfolding mb map_nth_unat by simp
    then show ?thesis using f3 p2 inpin by auto
  qed
  have h3: "st_held (store_of s3) = (\<lambda>_. None)" using f3 h2 by simp
  have g3: "log_geo L bl (disksize s) s3" using log_geo_keep [OF s3(3)] g2 by simp
  have "unat L \<notin> unat ` set vs" by (auto simp: outside_def dest!: out)
  then have cL3: "st_cont (store_of s3) (unat L) = ?h1"
    using f3 apply_writes_notin [of "unat L" "home_writes vs c"] by (simp add: home_writes_keys s2(4) put_st_simps)
  \<comment> \<open>the cleared header\<close>
  obtain s4 where s4: "write_head (s3\<lparr>lh_n := 0\<rparr>) = Inr s4" "bready s4" "bkeep (s3\<lparr>lh_n := 0\<rparr>) s4"
      "store_of s4 = put_st (unat L) (hdr_enc ?h1 []) (store_of s3)"
    using write_head_ok [of "s3\<lparr>lh_n := 0\<rparr>" L bl "disksize s" 0] s3(2) g3 h3 p3 cL3 by (auto simp: log_geo_def pinset_def)
  have "commit s = Inr s4"
    using pos s1(1) s2(1) s3(1) s4(1) n l2 by (simp add: commit_def write_log_def install_trans_def)
  moreover have "base_of s4 = base_of s"
    using bkeepD(6) [OF s1(3)] bkeepD(6) [OF s2(3)] bkeepD(6) [OF s3(3)] bkeepD(6) [OF s4(3)] by simp
  moreover have "log_geo L bl (disksize s) (s3\<lparr>lh_n := 0\<rparr>)" using g3 by (simp add: log_geo_def)
  then have "log_geo L bl (disksize s) s4" using log_geo_keep [OF s4(3)] by blast
  moreover have "lh_n s4 = 0" using log_more_fields(6) [OF bkeepD(3) [OF s4(3)]] by simp
  moreover have "store_of s4 = \<lparr>st_cont = apply_writes c W, st_disk = apply_writes (memdisk s) W, st_pinned = (\<lambda>_. False),
      st_held = (\<lambda>_. None), st_trace = dwrites s @ W\<rparr>"
    unfolding s4(4) using f1 f3 p3 h3 by (intro store.equality) (simp_all add: put_st_simps s2(4) W_def commit_writes_def c_def fun_upd_idem)
  ultimately show ?thesis using s4(2) by (auto simp: bl_def)
qed


section \<open>Recovery\<close>

definition hdr_blocks :: "u32 \<Rightarrow> (nat \<Rightarrow> u8 list) \<Rightarrow> u32 list" where
  "hdr_blocks L d = get_words (d (unat L)) 4 (nat (sint (ld32 (d (unat L)) 0)))"

definition hdr_ok :: "u32 \<Rightarrow> u32 \<Rightarrow> (nat \<Rightarrow> u8 list) \<Rightarrow> bool" where
  "hdr_ok L dz d \<longleftrightarrow> 0 \<le> sint (ld32 (d (unat L)) 0) \<and> sint (ld32 (d (unat L)) 0) \<le> 29 \<and>
     (\<forall>b \<in> set (hdr_blocks L d). outside L (unat b) \<and> b < dz)"

definition rec_writes :: "u32 \<Rightarrow> (nat \<Rightarrow> u8 list) \<Rightarrow> (nat \<times> u8 list) list" where
  "rec_writes L d = map (\<lambda>t. (unat (hdr_blocks L d ! t), d (unat L + t + 1))) [0..<length (hdr_blocks L d)] @
     [(unat L, hdr_enc (d (unat L)) [])]"

definition rec_disk :: "u32 \<Rightarrow> (nat \<Rightarrow> u8 list) \<Rightarrow> nat \<Rightarrow> u8 list" where
  "rec_disk L d = apply_writes d (rec_writes L d)"

lemma recover_ok:
  fixes s :: "'a log_st_scheme"
  assumes r: "bready s" and h: "st_held (store_of s) = (\<lambda>_. None)" and p: "st_pinned (store_of s) = (\<lambda>_. False)"
    and g: "log_geo L bl dz s" and ok: "hdr_ok L dz (memdisk s)"
  shows "\<exists>s'. recover_from_log s = Inr s' \<and> bready s' \<and> base_of s' = base_of s \<and> lh_n s' = 0 \<and> memdisk s' = rec_disk L (memdisk s) \<and>
    dwrites s' = dwrites s @ rec_writes L (memdisk s) \<and> st_held (store_of s') = (\<lambda>_. None) \<and> st_pinned (store_of s') = (\<lambda>_. False)"
proof -
  define d where "d = memdisk s"
  define vs where "vs = hdr_blocks L d"
  define n where "n = length vs"
  have n: "sint (ld32 (d (unat L)) 0) = int n" "n \<le> 29" and out: "\<And>t. t < n \<Longrightarrow> outside L (unat (vs ! t)) \<and> vs ! t < dz"
    using ok by (auto simp: hdr_ok_def d_def vs_def n_def hdr_blocks_def get_words_def)
  have vs: "get_words (d (unat L)) 4 n = vs" using n(1) by (simp add: vs_def hdr_blocks_def)
  let ?bl = "vs @ drop n bl"
  have pin0: "pinset (store_of s) = {}" by (simp add: pinset_def p)
  obtain s1 where s1: "read_head s = Inr s1" "bready s1" "base_of s1 = base_of s" "store_of s1 = store_of s" "log_geo L ?bl dz s1" "lh_n s1 = int n"
    using read_head_ok [OF r g h, of n] n p pin0 vs by (auto simp: d_def)
  have nth: "t < n \<Longrightarrow> ?bl ! t = vs ! t" for t by (simp add: nth_append n_def)
  have sub: "set [0..<n] \<subseteq> {..<29}" using n(2) by auto
  let ?qs = "map (\<lambda>t. (unat L + t + 1, unat (?bl ! t))) [0..<n]"
  have cl: "st_cont (store_of s1) b = d b" for b using clean_eq [OF r] h p s1(4) by (simp add: d_def)
  have "room_for (store_of s1) (map (\<lambda>t. unat (?bl ! t)) [0..<n])" using pin0 s1(4) by (simp add: room_for_def)
  moreover have "st_held (store_of s1) = (\<lambda>_. None)" using s1(4) h by simp
  moreover have "st_cont (store_of s1) b = st_disk (store_of s1) b" for b using cl s1(4) by (simp add: d_def)
  moreover have "\<forall>t \<in> set [0..<n]. outside L (unat (?bl ! t)) \<and> ?bl ! t < dz" using out nth by simp
  ultimately obtain s2 where s2: "install_loop [0..<n] s1 = Inr s2" "bready s2" "bkeep s1 s2" "store_of s2 = fold copy_st ?qs (store_of s1)"
    using install_loop_ok [OF s1(2,5) sub] by blast
  have sep: "unat (?bl ! t) \<noteq> Suc (unat L + u)" if "t < n" "u < n" for t u
    using out [of t] nth [of t] n(2) that by (auto simp: outside_def)
  have dis: "fst ` set ?qs \<inter> snd ` set ?qs = {}" using sep by auto (metis)
  let ?hw = "map (\<lambda>t. (unat (vs ! t), d (unat L + t + 1))) [0..<n]"
  have ws: "map (\<lambda>(f, t). (t, st_cont (store_of s1) f)) ?qs = ?hw" using nth cl by simp
  note f2 = fold_copy [OF dis, of "store_of s1", folded s2(4), unfolded ws]
  have p2: "st_pinned (store_of s2) = (\<lambda>_. False)" using f2 p s1(4) by simp
  have h2: "st_held (store_of s2) = (\<lambda>_. None)" using f2 h s1(4) by simp
  have "unat L \<notin> fst ` set ?hw" using out by (force simp: outside_def)
  then have cL: "st_cont (store_of s2) (unat L) = d (unat L)" using f2 apply_writes_notin cl by simp
  have g2: "log_geo L ?bl dz (s2\<lparr>lh_n := 0\<rparr>)" using log_geo_keep [OF s2(3), of L ?bl dz] s1(5) by (simp add: log_geo_def)
  obtain s3 where s3: "write_head (s2\<lparr>lh_n := 0\<rparr>) = Inr s3" "bready s3" "bkeep (s2\<lparr>lh_n := 0\<rparr>) s3"
      "store_of s3 = put_st (unat L) (hdr_enc (d (unat L)) []) (store_of s2)"
    using write_head_ok [of "s2\<lparr>lh_n := 0\<rparr>" L ?bl dz 0] s2(2) g2 h2 p2 cL by (auto simp: pinset_def)
  have "recover_from_log s = Inr s3"
    using s1(1,6) s2(1) s3(1) by (simp add: recover_from_log_def install_trans_def)
  moreover have rw: "rec_writes L d = ?hw @ [(unat L, hdr_enc (d (unat L)) [])]" by (simp add: rec_writes_def vs_def n_def)
  have "st_disk (store_of s3) = rec_disk L d" "st_trace (store_of s3) = dwrites s @ rec_writes L d"
    unfolding s3(4) rec_disk_def rw put_st_simps using f2 s1(4) by (simp_all add: d_def)
  moreover have "st_held (store_of s3) = (\<lambda>_. None)" "st_pinned (store_of s3) = (\<lambda>_. False)"
    unfolding s3(4) using h2 p2 by (simp_all add: put_st_simps fun_upd_idem)
  moreover have "base_of s3 = base_of s" using bkeepD(6) [OF s2(3)] bkeepD(6) [OF s3(3)] s1(3) by simp
  moreover have "lh_n s3 = 0" using log_more_fields(6) [OF bkeepD(3) [OF s3(3)]] by simp
  ultimately show ?thesis using s3(2) by (simp add: d_def)
qed

section \<open>Disks a crash can leave\<close>

lemma sint_small: "n \<le> 30 \<Longrightarrow> sint (of_nat n :: u32) = int n"
  by (simp add: signed_of_nat signed_take_bit_int_eq_self)

lemma rec_empty:
  assumes "ld32 (d (unat L)) 0 = 0"
  shows "hdr_ok L dz d" "outside L b \<Longrightarrow> rec_disk L d b = d b"
  using assms by (auto simp: hdr_ok_def hdr_blocks_def get_words_def rec_disk_def rec_writes_def outside_def)

lemma rec_full:
  assumes h: "d (unat L) = hdr_enc x vs" "length x = BSIZE" and n: "length vs \<le> 29" and dist: "distinct vs"
    and out: "\<And>b. b \<in> set vs \<Longrightarrow> outside L (unat b) \<and> b < dz"
    and lg: "\<And>t. t < length vs \<Longrightarrow> d (unat L + t + 1) = c (unat (vs ! t))"
  shows "hdr_ok L dz d" "outside L b \<Longrightarrow> rec_disk L d b = (if b \<in> unat ` set vs then c b else d b)"
proof -
  have nn: "nat (sint (ld32 (d (unat L)) 0)) = length vs" "sint (ld32 (d (unat L)) 0) = int (length vs)"
    using hdr_dec(1) [OF h(2), of vs] n h(1) sint_small [of "length vs"] by simp_all
  then have hb: "hdr_blocks L d = vs" using hdr_dec(2) [OF h(2), of vs] n h(1) by (simp add: hdr_blocks_def)
  show "hdr_ok L dz d" using hb nn n out by (simp add: hdr_ok_def)
  assume o: "outside L b"
  then have bL: "b \<noteq> unat L" by (auto simp: outside_def)
  have m: "map (\<lambda>t. (unat (vs ! t), d (unat L + t + 1))) [0..<length vs] = home_writes vs c" using lg by (simp add: home_writes_def)
  have r: "rec_disk L d b = apply_writes d (home_writes vs c) b"
    unfolding rec_disk_def rec_writes_def hb m using bL by simp
  show "rec_disk L d b = (if b \<in> unat ` set vs then c b else d b)"
  proof (cases "b \<in> unat ` set vs")
    case True
    then obtain t where t: "t < length vs" "b = unat (vs ! t)" by (auto simp: in_set_conv_nth)
    have "apply_writes d (home_writes vs c) (unat (vs ! t)) = c (unat (vs ! t))"
      unfolding home_writes_def by (rule apply_writes_map [where f = "\<lambda>t. unat (vs ! t)"]) (use t distinct_unat [OF dist] in simp_all)
    then show ?thesis using r t True by simp
  next
    case False
    then show ?thesis using r apply_writes_notin [of b "home_writes vs c"] by (simp add: home_writes_keys)
  qed
qed


end
