(* ===== verification/Log_Crash.thy ===== *)
theory Log_Crash
  imports Log
begin

text \<open>
  Crash safety of the log: what \<open>recover_from_log\<close> makes of the disk when a commit, or an earlier
  recovery, was cut short after any number of its block writes; the bookkeeping of \<open>log_write\<close>; and
  the space reservation of \<open>begin_op\<close>.
\<close>

section \<open>Prefixes of a commit and of a recovery\<close>

lemma home_writes_at:
  assumes "distinct vs" "b \<in> unat ` set vs"
  shows "apply_writes d (home_writes vs c) b = c b"
proof -
  obtain t where t: "t < length vs" "b = unat (vs ! t)" using assms(2) by (auto simp: in_set_conv_nth)
  have "apply_writes d (home_writes vs c) (unat (vs ! t)) = c (unat (vs ! t))"
    unfolding home_writes_def
    by (rule apply_writes_map [where f = "\<lambda>t. unat (vs ! t)"]) (use t distinct_unat [OF assms(1)] in simp_all)
  then show ?thesis using t by simp
qed

lemma commit_writes_at:
  assumes "distinct vs" "length vs \<le> 29" "outside L b" "b \<notin> unat ` set vs \<Longrightarrow> d b = c b"
  shows "apply_writes d (commit_writes L vs c) b = c b"
proof -
  have n: "b \<noteq> unat L" "b \<notin> fst ` set (log_writes L vs c)" using assms(2,3) by (auto simp: log_writes_keys outside_def)
  show ?thesis
    using n assms(4) home_writes_at [OF assms(1), of b]
    by (cases "b \<in> unat ` set vs") (simp_all add: commit_writes_def apply_writes_notin home_writes_keys)
qed

lemma commit_prefix:
  fixes k :: nat
  assumes h0: "ld32 (d0 (unat L)) 0 = 0" "length (d0 (unat L)) = BSIZE" "c (unat L) = d0 (unat L)"
    and n: "length vs \<le> 29" and dist: "distinct vs" and out: "\<And>b. b \<in> set vs \<Longrightarrow> outside L (unat b) \<and> b < dz"
    and c: "\<And>b. b \<notin> unat ` set vs \<Longrightarrow> c b = d0 b"
  defines "d \<equiv> apply_writes d0 (take k (commit_writes L vs c))"
  shows "hdr_ok L dz d \<and> ((\<forall>b. outside L b \<longrightarrow> rec_disk L d b = d0 b) \<or> (\<forall>b. outside L b \<longrightarrow> rec_disk L d b = c b))"
proof -
  let ?n = "length vs"
  let ?A = "log_writes L vs c" and ?B = "home_writes vs c"
  let ?h1 = "hdr_enc (c (unat L)) vs"
  have lA: "length ?A = ?n" "length ?B = ?n" by (simp_all add: log_writes_def home_writes_def)
  have kA: "fst ` set (take j ?A) \<subseteq> {unat L + 1..<unat L + 1 + ?n}" for j
    using log_writes_keys [of L vs c] set_take_subset [of j ?A] by blast
  have kB: "fst ` set (take j ?B) \<subseteq> unat ` set vs" for j
    using home_writes_keys [of vs c] set_take_subset [of j ?B] by blast
  have oA: "outside L b \<or> b = unat L \<Longrightarrow> b \<notin> fst ` set (take j ?A)" for b j using kA [of j] n by (auto simp: outside_def)
  have oB: "unat L \<le> b \<Longrightarrow> b < unat L + 30 \<Longrightarrow> b \<notin> fst ` set (take j ?B)" for b j using kB [of j] by (auto simp: outside_def dest!: out)
  consider (pre) "k \<le> ?n" | (mid) j where "k = ?n + 1 + j" "j \<le> ?n" | (post) "k \<ge> 2 * ?n + 2"
  proof -
    have "k \<le> ?n \<or> k = ?n + 1 + (k - ?n - 1) \<and> k - ?n - 1 \<le> ?n \<or> k \<ge> 2 * ?n + 2" by linarith
    then show thesis using pre mid post by blast
  qed
  then show ?thesis
  proof cases
    case pre
    then have d: "d = apply_writes d0 (take k ?A)" using lA by (simp add: d_def commit_writes_def)
    then have "d (unat L) = d0 (unat L)" using apply_writes_notin [OF oA] by simp
    then have "ld32 (d (unat L)) 0 = 0" using h0 by simp
    moreover have "outside L b \<Longrightarrow> d b = d0 b" for b unfolding d using apply_writes_notin [OF oA] by simp
    ultimately show ?thesis using rec_empty by simp
  next
    case mid
    then have d: "d = apply_writes ((apply_writes d0 ?A)(unat L := ?h1)) (take j ?B)"
      using lA by (simp add: d_def commit_writes_def)
    have dL: "d (unat L) = ?h1" unfolding d using apply_writes_notin [OF oB] by simp
    have lg: "d (unat L + t + 1) = c (unat (vs ! t))" if "t < ?n" for t
    proof -
      have "d (unat L + t + 1) = apply_writes d0 ?A (unat L + t + 1)"
        unfolding d using apply_writes_notin [OF oB [of "unat L + t + 1"]] that n by simp
      then show ?thesis using log_writes_at [OF that] by simp
    qed
    have lc: "length (c (unat L)) = BSIZE" using h0 by simp
    note rf = rec_full [OF dL lc n dist out lg]
    have "d b = d0 b" if "outside L b" "b \<notin> unat ` set vs" for b
    proof -
      have "b \<notin> fst ` set (take j ?B)" "b \<noteq> unat L" "b \<notin> fst ` set ?A"
        using kB [of j] that oA [of b ?n] lA by (auto simp: outside_def)
      then show ?thesis unfolding d by (simp add: apply_writes_notin)
    qed
    then show ?thesis using rf c by auto
  next
    case post
    then have d: "d = (apply_writes ((apply_writes d0 ?A)(unat L := ?h1)) ?B)(unat L := hdr_enc ?h1 [])"
      using lA by (simp add: d_def commit_writes_def)
    have lh: "length ?h1 = BSIZE" using hdr_dec(3) [of "c (unat L)" vs] h0 n by simp
    have "ld32 (d (unat L)) 0 = 0" unfolding d using hdr_dec(1) [OF lh, of "[]"] by simp
    moreover have "d b = c b" if "outside L b" for b
    proof -
      have "d = apply_writes d0 (commit_writes L vs c)" by (simp add: d commit_writes_def)
      then show ?thesis using commit_writes_at [OF dist n that, of d0 c] c by simp
    qed
    ultimately show ?thesis using rec_empty by simp
  qed
qed

lemma rec_prefix:
  fixes k :: nat
  assumes ok: "hdr_ok L dz d" and l: "length (d (unat L)) = BSIZE"
  defines "d' \<equiv> apply_writes d (take k (rec_writes L d))"
  shows "hdr_ok L dz d' \<and> (\<forall>b. outside L b \<longrightarrow> rec_disk L d' b = rec_disk L d b)"
proof -
  let ?vs = "hdr_blocks L d"
  let ?W = "map (\<lambda>t. (unat (?vs ! t), d (unat L + t + 1))) [0..<length ?vs]"
  have out: "\<And>b. b \<in> set ?vs \<Longrightarrow> outside L (unat b) \<and> b < dz" and n: "length ?vs \<le> 29"
    using ok by (auto simp: hdr_ok_def hdr_blocks_def get_words_def)
  have kW: "fst ` set (take j ?W) \<subseteq> unat ` set ?vs" for j
    using set_take_subset [of j ?W] by fastforce
  show ?thesis
  proof (cases "k \<le> length ?vs")
    case True
    then have d': "d' = apply_writes d (take k ?W)" by (simp add: d'_def rec_writes_def)
    have same: "d' b = d b" if "unat L \<le> b" "b < unat L + 30" for b
    proof -
      have "b \<notin> fst ` set (take k ?W)" using kW [of k] that by (auto simp: outside_def dest!: out)
      then show ?thesis unfolding d' by (rule apply_writes_notin)
    qed
    have hb: "hdr_blocks L d' = ?vs" using same [of "unat L"] by (simp add: hdr_blocks_def)
    have "map (\<lambda>t. (unat (?vs ! t), d' (unat L + t + 1))) [0..<length ?vs] = ?W" using same n by simp
    then have rw: "rec_writes L d' = rec_writes L d" using hb same [of "unat L"] by (simp add: rec_writes_def)
    have "rec_disk L d' = rec_disk L d"
      unfolding rec_disk_def rw
    proof (rule apply_writes_cong)
      fix b assume "b \<notin> fst ` set (rec_writes L d)"
      then have "b \<notin> fst ` set (take k ?W)" using set_take_subset [of k ?W] by (auto simp: rec_writes_def)
      then show "d' b = d b" unfolding d' by (rule apply_writes_notin)
    qed
    moreover have "hdr_ok L dz d'" using ok hb same [of "unat L"] by (simp add: hdr_ok_def)
    ultimately show ?thesis by simp
  next
    case False
    then have d': "d' = rec_disk L d" by (simp add: d'_def rec_disk_def rec_writes_def)
    then have "d' (unat L) = hdr_enc (d (unat L)) []" by (simp add: rec_disk_def rec_writes_def)
    then have "ld32 (d' (unat L)) 0 = 0" using hdr_dec(1) [OF l, of "[]"] by simp
    then show ?thesis using rec_empty d' by simp
  qed
qed

section \<open>Filling the log\<close>

lemma log_acq_rel [simp]:
  fixes s :: "'a log_st_scheme"
  shows "log_start (acq lk s) = log_start s" "log_size (acq lk s) = log_size s" "log_outstanding (acq lk s) = log_outstanding s"
    "log_committing (acq lk s) = log_committing s" "log_dev (acq lk s) = log_dev s" "lh_n (acq lk s) = lh_n s" "lh_block (acq lk s) = lh_block s"
    "log_st.more (acq lk s) = log_st.more s"
    "log_start (rel lk s) = log_start s" "log_size (rel lk s) = log_size s" "log_outstanding (rel lk s) = log_outstanding s"
    "log_committing (rel lk s) = log_committing s" "log_dev (rel lk s) = log_dev s" "lh_n (rel lk s) = lh_n s" "lh_block (rel lk s) = lh_block s"
    "log_st.more (rel lk s) = log_st.more s"
  by (simp_all add: acq_def pushed_def cli_def rel_def popped_def sti_def Let_def)

definition logged :: "'a log_st_scheme \<Rightarrow> u32 list" where
  "logged s = take (nat (lh_n s)) (lh_block s)"

lemma log_find_notin: "b \<notin> set xs \<Longrightarrow> log_find xs b i = i + length xs"
  by (induction xs arbitrary: i) auto

lemma log_find_in: "b \<in> set xs \<Longrightarrow> \<exists>j < length xs. log_find xs b i = i + j \<and> xs ! j = b"
proof (induction xs arbitrary: i)
  case (Cons x xs)
  show ?case
  proof (cases "x = b")
    case True
    then show ?thesis by (intro exI [of _ 0]) simp
  next
    case False
    then have "b \<in> set xs" using Cons.prems by simp
    then obtain j where "j < length xs" "log_find xs b (Suc i) = Suc i + j" "xs ! j = b" using Cons.IH [of "Suc i"] by blast
    then show ?thesis using False by (intro exI [of _ "Suc j"]) simp
  qed
qed simp

text \<open>\<open>log_write\<close> records the block once (absorbing repeats) and pins its buffer.\<close>

lemma log_write_ok:
  fixes s :: "'a log_st_scheme" and b :: nat
  assumes c: "crit [] s" and n: "0 \<le> lh_n s" "lh_n s < 30" "lh_n s < log_size s - 1" "length (lh_block s) = 30" and o: "log_outstanding s \<ge> 1"
  defines "x \<equiv> b_blockno (bufs s ! b)"
  shows "\<exists>s'. log_write b s = Inr s' \<and> crit [] s' \<and> base_of s' = base_of s \<and> slocks s' = slocks s \<and> memdisk s' = memdisk s \<and>
    disksize s' = disksize s \<and> dwrites s' = dwrites s \<and>
    bufs s' = (bufs s)[b := (bufs s ! b)\<lparr>b_flags := b_flags (bufs s ! b) OR B_DIRTY\<rparr>] \<and>
    logged s' = (if x \<in> set (logged s) then logged s else logged s @ [x]) \<and>
    lh_n s' = (if x \<in> set (logged s) then lh_n s else lh_n s + 1) \<and> length (lh_block s') = 30 \<and>
    log_start s' = log_start s \<and> log_size s' = log_size s \<and> log_dev s' = log_dev s \<and> log_outstanding s' = log_outstanding s \<and>
    log_committing s' = log_committing s \<and> log_st.more s' = log_st.more s"
proof -
  let ?i = "log_find (logged s) x 0"
  let ?bl = "(lh_block s)[?i := x]"
  let ?u = "(acq LogLock s)\<lparr>lh_block := ?bl\<rparr>"
  let ?t = "b_set b (\<lambda>x. x\<lparr>b_flags := b_flags x OR B_DIRTY\<rparr>) (if int ?i = lh_n s then ?u\<lparr>lh_n := lh_n s + 1\<rparr> else ?u)"
  have ca: "crit [LogLock] (acq LogLock s)" using crit_acq [OF c, of LogLock] by simp
  then have ct: "crit [LogLock] ?t" by (simp add: b_set_def Let_def)
  have w: "log_write b s = Inr (rel LogLock ?t)"
  proof -
    have "log_write b s = release LogLock ?t"
      using n o acquire_ok [OF c, of LogLock] by (simp add: log_write_def logged_def x_def Let_def)
    then show ?thesis using release_ok [OF ct, of LogLock] by simp
  qed
  have ln: "length (logged s) = nat (lh_n s)" using n by (simp add: logged_def)
  have lb: "logged (rel LogLock ?t) = (if x \<in> set (logged s) then logged s else logged s @ [x]) \<and>
      lh_n (rel LogLock ?t) = (if x \<in> set (logged s) then lh_n s else lh_n s + 1)"
  proof (cases "x \<in> set (logged s)")
    case True
    then obtain j where j: "j < nat (lh_n s)" "?i = j" "logged s ! j = x" using log_find_in [OF True, of 0] ln by auto
    then have "lh_block s ! j = x" by (simp add: logged_def)
    then have "?bl = lh_block s" using j(2) list_update_id [of "lh_block s" j] by simp
    then show ?thesis using True j n by (simp add: b_set_def Let_def logged_def)
  next
    case False
    then have i: "?i = nat (lh_n s)" using log_find_notin [OF False, of 0] ln by simp
    have "take (nat (lh_n s + 1)) ?bl = logged s @ [x]"
      using n i by (simp add: logged_def nat_add_distrib take_Suc_conv_app_nth)
    then show ?thesis using False i n by (simp add: b_set_def Let_def logged_def)
  qed
  have ba: "base_of (rel LogLock ?t) = base_of s"
    using base_of_acq_rel(2) [OF ct] base_of_acq_rel(1) [OF c] by (simp add: b_set_def Let_def)
  show ?thesis
    using w lb ba crit_rel [OF ct, of LogLock] n(4)
    by (intro exI [of _ "rel LogLock ?t"]) (simp add: b_set_def Let_def)
qed

lemma begin_op_ok:
  fixes s :: "'a log_st_scheme"
  assumes c: "crit [] s" and o: "log_committing s = 0" "lh_n s + (log_outstanding s + 1) * 10 \<le> 30"
  shows "\<exists>s'. begin_op s = Inr s' \<and> crit [] s' \<and> base_of s' = base_of s \<and> slocks s' = slocks s \<and> bufs s' = bufs s \<and> memdisk s' = memdisk s \<and>
    disksize s' = disksize s \<and> dwrites s' = dwrites s \<and> log_outstanding s' = log_outstanding s + 1 \<and> lh_n s' = lh_n s \<and> lh_block s' = lh_block s \<and>
    log_start s' = log_start s \<and> log_size s' = log_size s \<and> log_dev s' = log_dev s \<and> log_committing s' = log_committing s \<and>
    log_st.more s' = log_st.more s"
proof -
  let ?t = "(acq LogLock s)\<lparr>log_outstanding := log_outstanding s + 1\<rparr>"
  have ct: "crit [LogLock] ?t" using crit_acq [OF c, of LogLock] by simp
  have "begin_op s = Inr (rel LogLock ?t)"
    using o acquire_ok [OF c, of LogLock] release_ok [OF ct, of LogLock] by (simp add: begin_op_def)
  then show ?thesis
    using crit_rel [OF ct, of LogLock] base_of_acq_rel(2) [OF ct] base_of_acq_rel(1) [OF c] by simp
qed

fun log_write_all :: "nat list \<Rightarrow> 'a log_st_scheme \<Rightarrow> ('a log_st_scheme) kres" where
  "log_write_all [] s = Inr s"
| "log_write_all (b # bs) s = bindE (log_write b s) (log_write_all bs)"

lemma log_write_all_append: "log_write_all (as @ bs) = (\<lambda>s. bindE (log_write_all as s) (log_write_all bs))"
proof (induction as)
  case (Cons a as)
  show ?case by (rule ext) (simp add: Cons.IH bindE_assoc)
qed simp

lemma log_write_all_ok:
  fixes s :: "'a log_st_scheme"
  assumes "crit [] s" "lh_n s = int n" "n + length bs \<le> 29" "log_size s = 30" "length (lh_block s) = 30" "log_outstanding s \<ge> 1"
    "distinct (logged s @ map (\<lambda>b. b_blockno (bufs s ! b)) bs)"
  shows "\<exists>s'. log_write_all bs s = Inr s' \<and> crit [] s' \<and> lh_n s' = int (n + length bs) \<and> log_size s' = 30"
  using assms
proof (induction bs arbitrary: s n)
  case Nil
  then show ?case by simp
next
  case (Cons b bs)
  obtain s1 where s1: "log_write b s = Inr s1" "crit [] s1" "bufs s1 = (bufs s)[b := (bufs s ! b)\<lparr>b_flags := b_flags (bufs s ! b) OR B_DIRTY\<rparr>]"
    "logged s1 = logged s @ [b_blockno (bufs s ! b)]" "lh_n s1 = int (Suc n)" "length (lh_block s1) = 30" "log_size s1 = 30" "log_outstanding s1 \<ge> 1"
    using log_write_ok [OF Cons.prems(1), of b] Cons.prems by auto
  have "b_blockno (bufs s1 ! j) = b_blockno (bufs s ! j)" for j
    by (cases "j = b"; cases "b < length (bufs s)") (simp_all add: s1(3) list_update_beyond)
  then obtain s' where "log_write_all bs s1 = Inr s'" "crit [] s'" "lh_n s' = int (Suc n + length bs)" "log_size s' = 30"
    using Cons.IH [OF s1(2,5)] Cons.prems s1(4,6-8) by auto
  then show ?case using s1(1) by simp
qed

lemma commit_atomic:
  fixes s :: "'a log_st_scheme"
  assumes "tx_ok s"
  shows "\<exists>s'. commit s = Inr s' \<and> (\<forall>b. outside (log_start s) b \<longrightarrow> memdisk s' b = st_cont (store_of s) b) \<and>
    (\<forall>k bl (s0 :: 'a log_st_scheme). bready s0 \<and> st_held (store_of s0) = (\<lambda>_. None) \<and> st_pinned (store_of s0) = (\<lambda>_. False) \<and>
        log_geo (log_start s) bl (disksize s) s0 \<and>
        memdisk s0 = apply_writes (memdisk s) (take k (drop (length (dwrites s)) (dwrites s'))) \<longrightarrow>
      (\<exists>s1. recover_from_log s0 = Inr s1 \<and> lh_n s1 = 0 \<and>
        ((\<forall>b. outside (log_start s) b \<longrightarrow> memdisk s1 b = memdisk s b) \<or>
         (\<forall>b. outside (log_start s) b \<longrightarrow> memdisk s1 b = st_cont (store_of s) b))))"
proof -
  let ?L = "log_start s" and ?vs = "take (nat (lh_n s)) (lh_block s)" and ?c = "st_cont (store_of s)"
  have r: "bready s" and h: "st_held (store_of s) = (\<lambda>_. None)" and g: "log_geo ?L (lh_block s) (disksize s) s"
    and n: "0 \<le> lh_n s" "lh_n s \<le> 29" and dist: "distinct ?vs" and out: "\<And>b. b \<in> set ?vs \<Longrightarrow> outside ?L (unat b) \<and> b < disksize s"
    and pin: "pinset (store_of s) = unat ` set ?vs" and h0: "ld32 (memdisk s (unat ?L)) 0 = 0"
    using assms by (auto simp: tx_ok_def)
  have clean: "?c b = memdisk s b" if "b \<notin> unat ` set ?vs" for b
    using clean_eq [OF r, of b] h pin that by (auto simp: pinset_def)
  have "unat ?L \<notin> unat ` set ?vs" by (auto simp: outside_def dest!: out)
  then have cL: "?c (unat ?L) = memdisk s (unat ?L)" using clean by simp
  have lL: "length (memdisk s (unat ?L)) = BSIZE" using cont_length [OF r, of "unat ?L"] cL by simp
  have lv: "length ?vs \<le> 29" using n by simp
  have pre: "hdr_ok ?L (disksize s) (apply_writes (memdisk s) (take k W)) \<and>
      ((\<forall>b. outside ?L b \<longrightarrow> rec_disk ?L (apply_writes (memdisk s) (take k W)) b = memdisk s b) \<or>
       (\<forall>b. outside ?L b \<longrightarrow> rec_disk ?L (apply_writes (memdisk s) (take k W)) b = ?c b))"
    if "W = commit_writes ?L ?vs ?c \<or> W = [] \<and> lh_n s = 0" for W k
    using commit_prefix [where ?d0.0 = "memdisk s" and L = ?L and c = ?c and vs = ?vs and dz = "disksize s" and k = k,
        OF h0 lL cL lv dist out clean] rec_empty [where d = "memdisk s" and L = ?L, OF h0] that by auto
  have ex: "\<exists>s' W. commit s = Inr s' \<and> (W = commit_writes ?L ?vs ?c \<or> W = [] \<and> lh_n s = 0) \<and> dwrites s' = dwrites s @ W \<and>
      (\<forall>b. outside ?L b \<longrightarrow> memdisk s' b = ?c b)"
  proof (cases "lh_n s > 0")
    case True
    obtain s' where s': "commit s = Inr s'" "bready s'" "store_of s' = \<lparr>st_cont = apply_writes ?c (commit_writes ?L ?vs ?c),
        st_disk = apply_writes (memdisk s) (commit_writes ?L ?vs ?c), st_pinned = (\<lambda>_. False),
        st_held = (\<lambda>_. None), st_trace = dwrites s @ commit_writes ?L ?vs ?c\<rparr>"
      using commit_ok [OF assms True] by blast
    have "memdisk s' b = ?c b" if "outside ?L b" for b
    proof -
      have "memdisk s' b = st_cont (store_of s') b" using clean_eq [OF s'(2), of b] s'(3) by simp
      also have "\<dots> = apply_writes ?c (commit_writes ?L ?vs ?c) b" using s'(3) by simp
      also have "\<dots> = ?c b" by (rule commit_writes_at [OF dist lv that]) simp
      finally show ?thesis .
    qed
    moreover have "dwrites s' = dwrites s @ commit_writes ?L ?vs ?c" using store_of_simps(2) [of s'] unfolding s'(3) by simp
    ultimately show ?thesis using s'(1) by blast
  next
    case False
    then have "lh_n s = 0" "commit s = Inr s" using n by (simp_all add: commit_def)
    moreover have "memdisk s b = ?c b" for b using clean [of b] \<open>lh_n s = 0\<close> by simp
    ultimately show ?thesis by (intro exI [of _ s] exI [of _ "[]"]) simp
  qed
  then obtain s' W where s': "commit s = Inr s'" "W = commit_writes ?L ?vs ?c \<or> W = [] \<and> lh_n s = 0" "dwrites s' = dwrites s @ W"
      "\<forall>b. outside ?L b \<longrightarrow> memdisk s' b = ?c b" by blast
  have "\<exists>s1. recover_from_log s0 = Inr s1 \<and> lh_n s1 = 0 \<and>
        ((\<forall>b. outside ?L b \<longrightarrow> memdisk s1 b = memdisk s b) \<or> (\<forall>b. outside ?L b \<longrightarrow> memdisk s1 b = ?c b))"
    if a: "bready s0 \<and> st_held (store_of s0) = (\<lambda>_. None) \<and> st_pinned (store_of s0) = (\<lambda>_. False) \<and> log_geo ?L bl (disksize s) s0 \<and>
        memdisk s0 = apply_writes (memdisk s) (take k (drop (length (dwrites s)) (dwrites s')))"
    for k bl and s0 :: "'a log_st_scheme"
  proof -
    have m: "memdisk s0 = apply_writes (memdisk s) (take k W)" using a s'(3) by simp
    then obtain s1 where "recover_from_log s0 = Inr s1" "lh_n s1 = 0" "memdisk s1 = rec_disk ?L (memdisk s0)"
      using recover_ok [of s0 ?L bl "disksize s"] a pre [OF s'(2), of k] by auto
    then show ?thesis using pre [OF s'(2), of k] m by auto
  qed
  then show ?thesis using s'(1,4) by blast
qed

section \<open>Properties\<close>

text \<open>
  C14: Atomicity of a transaction. From a state whose log holds a well-formed transaction, \<open>commit\<close>
  succeeds and leaves every block outside the log with the contents the cache had for it. If the
  machine stops after any number \<open>k\<close> of the block writes the commit issues, then booting on that disk
  and running \<open>recover_from_log\<close> succeeds, and every block outside the log either has its contents of
  before the transaction, all of them, or its contents of after it, all of them.
\<close>

theorem commit_crash_atomic:
  fixes s :: "'a log_st_scheme"
  assumes "tx_ok s"
  shows "\<exists>s'. commit s = Inr s' \<and> (\<forall>b. outside (log_start s) b \<longrightarrow> memdisk s' b = st_cont (store_of s) b) \<and>
    (\<forall>k bl (s0 :: 'a log_st_scheme). bready s0 \<and> st_held (store_of s0) = (\<lambda>_. None) \<and> st_pinned (store_of s0) = (\<lambda>_. False) \<and>
        log_geo (log_start s) bl (disksize s) s0 \<and>
        memdisk s0 = apply_writes (memdisk s) (take k (drop (length (dwrites s)) (dwrites s'))) \<longrightarrow>
      (\<exists>s1. recover_from_log s0 = Inr s1 \<and> lh_n s1 = 0 \<and>
        ((\<forall>b. outside (log_start s) b \<longrightarrow> memdisk s1 b = memdisk s b) \<or>
         (\<forall>b. outside (log_start s) b \<longrightarrow> memdisk s1 b = st_cont (store_of s) b))))"
  by (rule commit_atomic [OF assms])

text \<open>
  C19: Recovery may itself be interrupted. On a disk with a well-formed log header \<open>recover_from_log\<close>
  succeeds, and stopping it after any number \<open>k\<close> of its block writes and recovering again gives the
  same contents in every block outside the log.
\<close>

theorem recovery_crash_safe:
  fixes s :: "'a log_st_scheme"
  assumes "bready s" "st_held (store_of s) = (\<lambda>_. None)" "st_pinned (store_of s) = (\<lambda>_. False)"
    "log_geo L bl dz s" "hdr_ok L dz (memdisk s)"
  shows "\<exists>s'. recover_from_log s = Inr s' \<and>
    (\<forall>k bl' (s0 :: 'a log_st_scheme). bready s0 \<and> st_held (store_of s0) = (\<lambda>_. None) \<and> st_pinned (store_of s0) = (\<lambda>_. False) \<and>
        log_geo L bl' dz s0 \<and> memdisk s0 = apply_writes (memdisk s) (take k (drop (length (dwrites s)) (dwrites s'))) \<longrightarrow>
      (\<exists>s1. recover_from_log s0 = Inr s1 \<and> (\<forall>b. outside L b \<longrightarrow> memdisk s1 b = memdisk s' b)))"
proof -
  obtain s' where s': "recover_from_log s = Inr s'" "memdisk s' = rec_disk L (memdisk s)" "dwrites s' = dwrites s @ rec_writes L (memdisk s)"
    using recover_ok [OF assms] by blast
  have l: "length (memdisk s (unat L)) = BSIZE" using assms(1) bcache_invD(4) by (auto simp: bready_def)
  note rp = rec_prefix [OF assms(5) l]
  have "\<exists>s1. recover_from_log s0 = Inr s1 \<and> (\<forall>b. outside L b \<longrightarrow> memdisk s1 b = memdisk s' b)"
    if a: "bready s0 \<and> st_held (store_of s0) = (\<lambda>_. None) \<and> st_pinned (store_of s0) = (\<lambda>_. False) \<and>
        log_geo L bl' dz s0 \<and> memdisk s0 = apply_writes (memdisk s) (take k (drop (length (dwrites s)) (dwrites s')))"
    for k bl' and s0 :: "'a log_st_scheme"
  proof -
    have m: "memdisk s0 = apply_writes (memdisk s) (take k (rec_writes L (memdisk s)))" using a s'(3) by simp
    then obtain s1 where "recover_from_log s0 = Inr s1" "memdisk s1 = rec_disk L (memdisk s0)"
      using recover_ok [of s0 L bl' dz] a rp [of k] by auto
    then show ?thesis using rp [of k] m s'(2) by auto
  qed
  then show ?thesis using s'(1) by blast
qed

text \<open>
  C22: The reservation of \<open>begin_op\<close> is one block too generous. With an empty log of the size
  \<open>mkfs\<close> writes (\<open>LOGSIZE\<close> blocks, one of them the header) three operations are admitted, each entitled
  to \<open>MAXOPBLOCKS\<close> blocks. Their first 29 distinct blocks are logged, and the thirtieth
  \<open>log_write\<close> panics.
\<close>

theorem begin_op_overcommits:
  fixes s :: "'a log_st_scheme"
  assumes "crit [] s" "log_committing s = 0" "log_outstanding s = 0" "lh_n s = 0" "log_size s = 30" "length (lh_block s) = 30"
    "distinct (map (\<lambda>b. b_blockno (bufs s ! b)) (bs @ [b]))" "length bs = 29"
  shows "\<exists>s3 s4. bindE (begin_op s) (\<lambda>s. bindE (begin_op s) begin_op) = Inr s3 \<and>
    log_write_all bs s3 = Inr s4 \<and> lh_n s4 = 29 \<and> log_write_all (bs @ [b]) s3 = Inl (Panic ''too big a transaction'')"
proof -
  obtain s1 where s1: "begin_op s = Inr s1" "crit [] s1" "bufs s1 = bufs s" "log_outstanding s1 = 1" "lh_n s1 = 0" "lh_block s1 = lh_block s"
      "log_size s1 = 30" "log_committing s1 = 0"
    using begin_op_ok [OF assms(1,2)] assms by auto
  obtain s2 where s2: "begin_op s1 = Inr s2" "crit [] s2" "bufs s2 = bufs s" "log_outstanding s2 = 2" "lh_n s2 = 0" "lh_block s2 = lh_block s"
      "log_size s2 = 30" "log_committing s2 = 0"
    using begin_op_ok [OF s1(2,8)] s1 by auto
  obtain s3 where s3: "begin_op s2 = Inr s3" "crit [] s3" "bufs s3 = bufs s" "log_outstanding s3 = 3" "lh_n s3 = 0" "lh_block s3 = lh_block s"
      "log_size s3 = 30"
    using begin_op_ok [OF s2(2,8)] s2 by auto
  obtain s4 where s4: "log_write_all bs s3 = Inr s4" "lh_n s4 = 29" "log_size s4 = 30"
    using log_write_all_ok [OF s3(2), of 0 bs] s3 assms(6-8) by (auto simp: logged_def)
  have "log_write_all (bs @ [b]) s3 = Inl (Panic ''too big a transaction'')"
    using s4 by (simp add: log_write_all_append log_write_def)
  then show ?thesis using s1(1) s2(1) s3(1) s4 by auto
qed

section \<open>Witnesses\<close>

lemma ready_cong:
  fixes s s' :: "'a bio_st_scheme"
  assumes "bready s" "crit [] s'" "base_of s' = base_of s" "bufs s' = bufs s" "slocks s' = slocks s" "memdisk s' = memdisk s"
  shows "bready s'"
  using assms base_ofD(5) [OF assms(3)] by (simp add: bready_def)

definition ex_log_on :: "(nat \<Rightarrow> u8 list) \<Rightarrow> log_st" where
  "ex_log_on d = bio_st.extend (binit (ex_bio0\<lparr>memdisk := d\<rparr>)) \<lparr>log_start = 256, log_size = 30, log_outstanding = 0,
     log_committing = 0, log_dev = 1, lh_n = 0, lh_block = replicate 30 0\<rparr>"

lemma ex_log_on_fields:
  "disksize (ex_log_on d) = 1000" "log_start (ex_log_on d) = 256" "log_size (ex_log_on d) = 30"
  "log_outstanding (ex_log_on d) = 0" "log_committing (ex_log_on d) = 0" "log_dev (ex_log_on d) = 1" "lh_n (ex_log_on d) = 0"
  "lh_block (ex_log_on d) = replicate 30 0"
  using ex_bio0_fields(6) by (simp_all add: ex_log_on_def bio_st.defs)

lemma ex_log_on_ready:
  assumes "\<And>n. length (d n) = 512"
  shows "bready (ex_log_on d)" "store_of (ex_log_on d) = \<lparr>st_cont = d, st_disk = d, st_pinned = (\<lambda>_. False), st_held = (\<lambda>_. None), st_trace = []\<rparr>"
    "crit [] (ex_log_on d)"
proof -
  let ?b = "binit (ex_bio0\<lparr>memdisk := d\<rparr>)"
  have p: "crit [] (ex_bio0\<lparr>memdisk := d\<rparr>)" "live (ex_bio0\<lparr>memdisk := d\<rparr>)" "bufs (ex_bio0\<lparr>memdisk := d\<rparr>) = replicate 31 zbuf"
    using ex_bio0_fields by (simp_all add: live_def split: option.splits)
  have bk: "bready ?b" "store_of ?b = \<lparr>st_cont = d, st_disk = d, st_pinned = (\<lambda>_. False), st_held = (\<lambda>_. None), st_trace = []\<rparr>"
    using binit_ok(1,2) [OF p] assms ex_bio0_fields(5) by simp_all
  have e: "bufs (ex_log_on d) = bufs ?b" "memdisk (ex_log_on d) = memdisk ?b" "slocks (ex_log_on d) = slocks ?b" "dwrites (ex_log_on d) = dwrites ?b"
    by (simp_all add: ex_log_on_def bio_st.defs)
  then show "store_of (ex_log_on d) = \<lparr>st_cont = d, st_disk = d, st_pinned = (\<lambda>_. False), st_held = (\<lambda>_. None), st_trace = []\<rparr>"
    using store_cong [OF e(1,2,3,4)] bk(2) by simp
  have "curproc (ex_log_on d) = curproc ?b" "ptable (ex_log_on d) = ptable ?b" by (simp_all add: ex_log_on_def bio_st.defs curproc_def curcpu_def)
  then have "live (ex_log_on d) = live ?b" by (simp add: live_def split: option.split)
  moreover show "crit [] (ex_log_on d)" using bk(1) by (simp add: bready_def ex_log_on_def bio_st.defs)
  ultimately show "bready (ex_log_on d)" using bk(1) e by (simp add: bready_def)
qed

abbreviation ex_log :: log_st where
  "ex_log \<equiv> ex_log_on (memdisk ex_bio0)"

lemmas ex_log_ready = ex_log_on_ready [where d = "memdisk ex_bio0", OF ex_bio0_fields(4)]

text \<open>A transaction that has logged block 7.\<close>

lemma ex_tx:
  "\<exists>s :: log_st. tx_ok s \<and> lh_n s = 1 \<and> log_start s = 256 \<and> disksize s = 1000 \<and> st_cont (store_of s) 7 = replicate 512 9 \<and>
    memdisk s 7 = replicate 512 7 \<and> dwrites s = []"
proof -
  obtain s1 where s1: "begin_op ex_log = Inr s1" "crit [] s1" "base_of s1 = base_of ex_log" "slocks s1 = slocks ex_log" "bufs s1 = bufs ex_log"
    "memdisk s1 = memdisk ex_log" "disksize s1 = 1000" "dwrites s1 = dwrites ex_log" "log_outstanding s1 = 1" "lh_n s1 = 0"
    "lh_block s1 = replicate 30 0" "log_start s1 = 256" "log_size s1 = 30" "log_dev s1 = 1"
    using begin_op_ok [OF ex_log_ready(3)] ex_log_on_fields by auto
  have r1: "bready s1" using ready_cong [OF ex_log_ready(1) s1(2,3,5,4,6)] .
  have st1: "store_of s1 = \<lparr>st_cont = memdisk ex_bio0, st_disk = memdisk ex_bio0, st_pinned = (\<lambda>_. False), st_held = (\<lambda>_. None), st_trace = []\<rparr>"
    using store_cong [OF s1(5,6,4,8)] ex_log_ready(2) by simp
  obtain i s2 where s2: "bread 1 7 s1 = Inr (i, s2)" "bready s2" "bkeep s1 s2" "store_of s2 = (store_of s1)\<lparr>st_held := (st_held (store_of s1))(7 \<mapsto> (i, mypid s1))\<rparr>"
    using bread_ok [OF r1, of 7] s1(7) st1 by (auto simp: in_use_def)
  note f2 = log_more_fields [OF bkeepD(3) [OF s2(3)]]
  have h2: "st_held (store_of s2) 7 = Some (i, mypid s1)" using s2(4) by simp
  let ?s3 = "bdata_set i (replicate 512 9) s2"
  note b3 = bdata_set_ok [OF s2(2) h2, of "replicate 512 9", simplified]
  note f3 = log_more_fields [OF bkeepD(3) [OF b3(2)]]
  have h3: "st_held (store_of ?s3) 7 = Some (i, mypid s1)" using h2 b3(3) by simp
  have bn: "b_blockno (bufs ?s3 ! i) = 7" using heldD(3) [OF b3(1) h3] unsigned_word_eqI [of _ "7 :: u32"] by simp
  have c3: "crit [] ?s3" using b3(1) by (simp add: bready_def)
  obtain s4 where s4: "log_write i ?s3 = Inr s4" "crit [] s4" "base_of s4 = base_of ?s3" "slocks s4 = slocks ?s3" "memdisk s4 = memdisk ?s3"
    "disksize s4 = 1000" "dwrites s4 = dwrites ?s3" "logged s4 = [7]" "lh_n s4 = 1" "length (lh_block s4) = 30"
    "bufs s4 = (bufs ?s3)[i := (bufs ?s3 ! i)\<lparr>b_flags := b_flags (bufs ?s3 ! i) OR B_DIRTY\<rparr>]" "log_start s4 = 256" "log_dev s4 = 1"
    using log_write_ok [OF c3, of i] bn s1 f2 f3 bkeepD(2) [OF s2(3)] bkeepD(2) [OF b3(2)] by (auto simp: logged_def)
  let ?p = "b_set i (\<lambda>x. x\<lparr>b_flags := b_flags x OR B_DIRTY\<rparr>) ?s3"
  note bp = bpin_ok [OF b3(1) h3]
  have p: "bufs s4 = bufs ?p" "slocks s4 = slocks ?p" "memdisk s4 = memdisk ?p" "dwrites s4 = dwrites ?p" "base_of s4 = base_of ?p"
    using s4 by (simp_all add: b_set_def)
  have r4: "bready s4" using ready_cong [OF bp(1) s4(2) p(5,1,2,3)] .
  have st4: "store_of s4 = (store_of ?s3)\<lparr>st_pinned := (st_pinned (store_of ?s3))(7 := True)\<rparr>"
    using store_cong [OF p(1,3,2,4)] bp(3) by simp
  have "mypid s4 = mypid s1" using base_ofD(4) [OF s4(3)] bkeepD(1) [OF b3(2)] bkeepD(1) [OF s2(3)] by simp
  then have h4: "st_held (store_of s4) 7 = Some (i, mypid s4)" using st4 h3 by simp
  obtain s5 where s5: "brelse i s4 = Inr s5" "bready s5" "bkeep s4 s5" "store_of s5 = (store_of s4)\<lparr>st_held := (st_held (store_of s4))(7 := None)\<rparr>"
    using brelse_ok [OF r4 h4] st4 by auto
  note f5 = log_more_fields [OF bkeepD(3) [OF s5(3)]]
  have st5: "store_of s5 = \<lparr>st_cont = (memdisk ex_bio0)(7 := replicate 512 9), st_disk = memdisk ex_bio0, st_pinned = (\<lambda>_. False)(7 := True),
      st_held = (\<lambda>_. None), st_trace = []\<rparr>"
    using s5(4) st4 b3(3) s2(4) st1 by (simp add: fun_upd_idem)
  have m5: "memdisk s5 = memdisk ex_bio0" "dwrites s5 = []" using store_of_simps [of s5] unfolding st5 by simp_all
  have lg: "take 1 (lh_block s5) = [7]" using s4(8,9) f5 by (simp add: logged_def)
  have "ld32 (memdisk ex_bio0 256) 0 = 0" by (simp add: ex_bio0_fields(7) ld32_def)
  then have "tx_ok s5"
    using s5(2) st5 m5 lg s4 f5 bkeepD(2) [OF s5(3)]
    by (simp add: tx_ok_def log_geo_def pinset_def outside_def fun_upd_def)
  then show ?thesis using st5 m5 s4(9,12,6) f5 bkeepD(2) [OF s5(3)] ex_bio0_fields(7) [of 7] by (intro exI [of _ s5]) simp
qed

theorem commit_crash_atomic_witness:
  "\<exists>s s' :: log_st. tx_ok s \<and> memdisk s 7 = replicate 512 7 \<and> commit s = Inr s' \<and> memdisk s' 7 = replicate 512 9"
proof -
  obtain s :: log_st where s: "tx_ok s" "log_start s = 256" "st_cont (store_of s) 7 = replicate 512 9" "memdisk s 7 = replicate 512 7"
    using ex_tx by blast
  then obtain s' where "commit s = Inr s'" "\<forall>b. outside 256 b \<longrightarrow> memdisk s' b = st_cont (store_of s) b"
    using commit_crash_atomic [OF s(1)] by auto
  then show ?thesis using s by (intro exI [of _ s] exI [of _ s']) (simp add: outside_def)
qed

definition ex_crashed :: "nat \<Rightarrow> u8 list" where
  "ex_crashed = (memdisk ex_bio0)(256 := hdr_enc (replicate 512 0) [7], 257 := replicate 512 9)"

lemma ex_crashed_ok: "length (ex_crashed n) = 512" "hdr_ok 256 1000 ex_crashed"
proof -
  show l: "length (ex_crashed n) = 512" for n using ex_bio0_fields(4) hdr_dec(3) [of "replicate 512 0" "[7]"] by (simp add: ex_crashed_def)
  have h: "ex_crashed (unat (256 :: u32)) = hdr_enc (replicate 512 0) [7]" by (simp add: ex_crashed_def)
  show "hdr_ok 256 1000 ex_crashed"
    by (rule rec_full(1) [where d = ex_crashed and L = 256 and c = "\<lambda>_. replicate 512 9", OF h]) (auto simp: outside_def ex_crashed_def)
qed

theorem recovery_crash_safe_witness: "\<exists>s'. recover_from_log (ex_log_on ex_crashed) = Inr s'"
proof -
  note r = ex_log_on_ready [where d = ex_crashed, OF ex_crashed_ok(1)]
  have "log_geo 256 (replicate 30 0) 1000 (ex_log_on ex_crashed)" by (simp add: log_geo_def ex_log_on_fields)
  moreover have "memdisk (ex_log_on ex_crashed) = ex_crashed" using store_of_simps(1) [of "ex_log_on ex_crashed"] r(2) by simp
  ultimately show ?thesis using recovery_crash_safe [OF r(1), of 256 "replicate 30 0" 1000] r(2) ex_crashed_ok(2) by auto
qed

theorem begin_op_overcommits_witness:
  "\<exists>s s3 :: log_st. bindE (begin_op s) (\<lambda>s. bindE (begin_op s) begin_op) = Inr s3 \<and>
    log_write_all [0..<30] s3 = Inl (Panic ''too big a transaction'')"
proof -
  let ?s = "ex_log\<lparr>bufs := map (\<lambda>i. zbuf\<lparr>b_blockno := of_nat i\<rparr>) [0..<31]\<rparr>"
  have u: "[0..<29] @ [29] = [0..<30]" using upt_Suc_append [of 0 29] by (simp del: upt_rec_numeral upt.simps)
  have m: "map (\<lambda>b. b_blockno (bufs ?s ! b)) ([0..<29] @ [29]) = map of_nat [0..<30]"
    unfolding u by (rule map_cong [OF refl]) (simp del: upt_rec_numeral)
  have "inj_on (of_nat :: nat \<Rightarrow> u32) {0..<30}"
  proof (rule inj_onI)
    fix x y :: nat assume a: "x \<in> {0..<30}" "y \<in> {0..<30}" and e: "(of_nat x :: u32) = of_nat y"
    have "unat (of_nat x :: u32) = x" "unat (of_nat y :: u32) = y" by (rule unat_of_nat_u32, use a in simp)+
    then show "x = y" using e by metis
  qed
  then have "distinct (map (\<lambda>b. b_blockno (bufs ?s ! b)) ([0..<29] @ [29]))" unfolding m distinct_map set_upt by (simp del: upt_rec_numeral)
  then have "\<exists>s3 s4. bindE (begin_op ?s) (\<lambda>s. bindE (begin_op s) begin_op) = Inr s3 \<and>
      log_write_all [0..<29] s3 = Inr s4 \<and> lh_n s4 = 29 \<and> log_write_all ([0..<29] @ [29]) s3 = Inl (Panic ''too big a transaction'')"
    by (intro begin_op_overcommits) (use ex_log_ready(3) in \<open>simp_all add: ex_log_on_fields\<close>)
  then show ?thesis unfolding u by metis
qed

end
