(* ===== verification/Userlib.thy ===== *)
theory Userlib
  imports CString
begin

text \<open>
  User programs as trees of system calls, and the user library: \<open>ulib.c\<close> and \<open>printf.c\<close>. A program is
  the tree of the calls it makes, branching on what each call returns; \<open>urun\<close> runs the tree of a
  single process against the bytes its descriptors deliver. C strings are lists of characters, the
  terminating NUL left out; the routines that work on raw memory are over \<open>memory\<close>.
\<close>

section \<open>System calls as a program sees them (user.h)\<close>

record ustat =
  us_type :: int
  us_dev :: int
  us_ino :: u32
  us_nlink :: int
  us_size :: u32

datatype uprog =
    UExit
  | UFault
  | UNoFuel
  | UFork "int \<Rightarrow> uprog"
  | UWait "int \<Rightarrow> uprog"
  | UPipe "(int \<times> int) option \<Rightarrow> uprog"
  | UWrite int string "int \<Rightarrow> uprog"
  | URead int nat "string option \<Rightarrow> uprog"
  | UClose int uprog
  | UKill int uprog
  | UExec string "string list" uprog
  | UOpen string int "int \<Rightarrow> uprog"
  | UMknod string int int uprog
  | UUnlink string "int \<Rightarrow> uprog"
  | UFstat int "ustat option \<Rightarrow> uprog"
  | ULink string string "int \<Rightarrow> uprog"
  | UMkdir string "int \<Rightarrow> uprog"
  | UChdir string "int \<Rightarrow> uprog"
  | UDup int uprog
  | USleep int uprog
  | UCps uprog
  | UShm_alloc int "u32 \<Rightarrow> uprog"
  | UDescribe uprog

definition O_RDONLY :: int where "O_RDONLY = 0x000"
definition O_WRONLY :: int where "O_WRONLY = 0x001"
definition O_RDWR :: int where "O_RDWR = 0x002"
definition O_CREATE :: int where "O_CREATE = 0x200"

abbreviation (input) NUL :: char where "NUL \<equiv> CHR 0x00"
abbreviation (input) NL :: char where "NL \<equiv> CHR 0x0A"
abbreviation (input) CR :: char where "CR \<equiv> CHR 0x0D"

section \<open>ulib.c: raw memory\<close>

partial_function (option) u_strcpy :: "memory \<Rightarrow> u32 \<Rightarrow> u32 \<Rightarrow> memory option" where
  "u_strcpy m s t =
     (let m' = m(s := m t) in if m t = 0 then Some m' else u_strcpy m' (s + 1) (t + 1))"

partial_function (option) u_strcmp :: "memory \<Rightarrow> u32 \<Rightarrow> u32 \<Rightarrow> int option" where
  "u_strcmp m p q =
     (if m p \<noteq> 0 \<and> m p = m q then u_strcmp m (p + 1) (q + 1) else Some (uint (m p) - uint (m q)))"

definition u_strlen :: "memory \<Rightarrow> u32 \<Rightarrow> nat option" where
  "u_strlen m s = strlen_from m s 0"

definition u_memset :: "memory \<Rightarrow> u32 \<Rightarrow> u32 \<Rightarrow> u32 \<Rightarrow> memory" where
  "u_memset m dst c n = stosb m dst c n"

partial_function (option) u_strchr :: "memory \<Rightarrow> u32 \<Rightarrow> u8 \<Rightarrow> u32 option" where
  "u_strchr m s c = (if m s = 0 then Some 0 else if m s = c then Some s else u_strchr m (s + 1) c)"

definition u_memmove :: "memory \<Rightarrow> u32 \<Rightarrow> u32 \<Rightarrow> int \<Rightarrow> memory" where
  "u_memmove m vdst vsrc n = copy_up m vdst vsrc (nat n)"

section \<open>ulib.c: strings, numbers and calls\<close>

text \<open>\<open>strchr\<close> as the programs use it: is the (non-NUL) character in the string literal.\<close>

fun in_str :: "string \<Rightarrow> char \<Rightarrow> bool" where
  "in_str [] c = False"
| "in_str (x # xs) c = (if x = c then True else in_str xs c)"

definition isdigit :: "char \<Rightarrow> bool" where
  "isdigit c \<longleftrightarrow> of_char CHR ''0'' \<le> (of_char c :: nat) \<and> (of_char c :: nat) \<le> of_char CHR ''9''"

text \<open>\<open>n*10 + *s++ - '0'\<close> in C's 32-bit arithmetic (a too large number wraps).\<close>

fun atoi_loop :: "string \<Rightarrow> u32 \<Rightarrow> u32" where
  "atoi_loop [] n = n"
| "atoi_loop (c # s) n = (if isdigit c then atoi_loop s (n * 10 + of_char c - 48) else n)"

definition atoi :: "string \<Rightarrow> int" where
  "atoi s = sint (atoi_loop s 0)"

text \<open>\<open>gets_loop n acc k\<close>: room for \<open>n\<close> more characters, \<open>acc\<close> already in the buffer.\<close>

fun gets_loop :: "nat \<Rightarrow> string \<Rightarrow> (string \<Rightarrow> uprog) \<Rightarrow> uprog" where
  "gets_loop 0 acc k = k acc"
| "gets_loop (Suc n) acc k =
     URead 0 1 (\<lambda>r. case r of
        Some (c # cs) \<Rightarrow> if c = NL \<or> c = CR then k (acc @ [c]) else gets_loop n (acc @ [c]) k
      | _ \<Rightarrow> k acc)"

definition gets :: "nat \<Rightarrow> (string \<Rightarrow> uprog) \<Rightarrow> uprog" where
  "gets nmax k = gets_loop (nmax - 1) [] k"

definition stat :: "string \<Rightarrow> (ustat option \<Rightarrow> uprog) \<Rightarrow> uprog" where
  "stat n k =
     UOpen n O_RDONLY (\<lambda>fd.
       if fd < 0 then k None
       else UFstat fd (\<lambda>r. UClose fd (k r)))"

section \<open>printf.c\<close>

definition uputc :: "int \<Rightarrow> char \<Rightarrow> uprog \<Rightarrow> uprog" where
  "uputc fd c k = UWrite fd [c] (\<lambda>_. k)"

fun uputs :: "int \<Rightarrow> string \<Rightarrow> uprog \<Rightarrow> uprog" where
  "uputs fd [] k = k"
| "uputs fd (c # s) k = uputc fd c (uputs fd s k)"

definition udigits :: string where
  "udigits = ''0123456789ABCDEF''"

text \<open>The buffer the division loop fills, least significant digit first.\<close>

function udigit_buf :: "nat \<Rightarrow> nat \<Rightarrow> string" where
  "udigit_buf x base =
     (udigits ! (x mod base)) # (if x div base = 0 \<or> base < 2 then [] else udigit_buf (x div base) base)"
  by pat_completeness auto
termination
proof (relation "measure fst", goal_cases)
  case (2 x base)
  then have "0 < x" "1 < base" by (auto intro: Nat.gr0I)
  then show ?case by (simp add: div_less_dividend)
qed simp

declare udigit_buf.simps [simp del]

definition uprintint_buf :: "u32 \<Rightarrow> nat \<Rightarrow> bool \<Rightarrow> string" where
  "uprintint_buf xx base sg =
     (let neg = (sg \<and> sint xx < 0);
          x = (if neg then - xx else xx) in
      udigit_buf (unat x) base @ (if neg then ''-'' else []))"

definition uprintint :: "int \<Rightarrow> u32 \<Rightarrow> nat \<Rightarrow> bool \<Rightarrow> uprog \<Rightarrow> uprog" where
  "uprintint fd xx base sg k = uputs fd (rev (uprintint_buf xx base sg)) k"

text \<open>Arguments of \<open>uprintf\<close>: a word, a string or a null string pointer. A missing one is a fault.\<close>

datatype uarg = AInt u32 | AStr string | ANull

fun uprintf_loop :: "int \<Rightarrow> string \<Rightarrow> bool \<Rightarrow> uarg list \<Rightarrow> uprog \<Rightarrow> uprog" where
  "uprintf_loop fd [] pct ap k = k"
| "uprintf_loop fd (c # fmt) False ap k =
     (if c = CHR ''%'' then uprintf_loop fd fmt True ap k else uputc fd c (uprintf_loop fd fmt False ap k))"
| "uprintf_loop fd (c # fmt) True ap k =
     (if c = CHR ''d'' then
        (case ap of AInt w # ap \<Rightarrow> uprintint fd w 10 True (uprintf_loop fd fmt False ap k) | _ \<Rightarrow> UFault)
      else if c = CHR ''x'' \<or> c = CHR ''p'' then
        (case ap of AInt w # ap \<Rightarrow> uprintint fd w 16 False (uprintf_loop fd fmt False ap k) | _ \<Rightarrow> UFault)
      else if c = CHR ''s'' then
        (case ap of AStr s # ap \<Rightarrow> uputs fd s (uprintf_loop fd fmt False ap k)
         | ANull # ap \<Rightarrow> uputs fd ''(null)'' (uprintf_loop fd fmt False ap k) | _ \<Rightarrow> UFault)
      else if c = CHR ''c'' then
        (case ap of AInt w # ap \<Rightarrow> uputc fd (char_of (unat w)) (uprintf_loop fd fmt False ap k) | _ \<Rightarrow> UFault)
      else if c = CHR ''%'' then uputc fd c (uprintf_loop fd fmt False ap k)
      else uputc fd CHR ''%'' (uputc fd c (uprintf_loop fd fmt False ap k)))"

definition uprintf :: "int \<Rightarrow> string \<Rightarrow> uarg list \<Rightarrow> uprog \<Rightarrow> uprog" where
  "uprintf fd fmt ap k = uprintf_loop fd fmt False ap k"

section \<open>Copying upwards only\<close>

lemma copy_up_outside: "(\<And>i. i < n \<Longrightarrow> x \<noteq> d + of_nat i) \<Longrightarrow> copy_up m d s n x = m x"
proof (induction n arbitrary: m d s)
  case (Suc n)
  have "x \<noteq> d + 1 + of_nat i" if "i < n" for i
    using Suc.prems [of "Suc i"] that by (simp add: algebra_simps)
  then have "copy_up (m(d := m s)) (d + 1) (s + 1) n x = (m(d := m s)) x" by (rule Suc.IH)
  then show ?case using Suc.prems [of 0] by simp
qed simp

lemma copy_up_next: "\<lbrakk>k \<le> n; n < 2 ^ 32\<rbrakk> \<Longrightarrow> copy_up m (s + 1) s n (s + of_nat k) = m s"
proof (induction n arbitrary: m s k)
  case (Suc n)
  show ?case
  proof (cases k)
    case 0
    have "s \<noteq> s + 1 + of_nat i" if "i < Suc n" for i
    proof
      assume "s = s + 1 + of_nat i"
      then have "(of_nat (Suc i) :: u32) = 0" by (simp add: add.assoc)
      moreover have "unat (of_nat (Suc i) :: u32) = Suc i" using that Suc.prems(2) by (intro unat_of_nat_u32) simp
      ultimately show False by simp
    qed
    then show ?thesis using 0 copy_up_outside [of "Suc n" s "s + 1" m s] by simp
  next
    case (Suc j)
    then have "copy_up (m(s + 1 := m s)) (s + 1 + 1) (s + 1) n (s + 1 + of_nat j) = (m(s + 1 := m s)) (s + 1)"
      using Suc.prems by (intro Suc.IH) simp_all
    then show ?thesis using Suc by (simp add: algebra_simps)
  qed
qed simp

text \<open>
  C26: The user library's \<open>memmove\<close> copies upwards whatever the overlap, unlike the kernel's: moving
  \<open>n\<close> bytes one place up overwrites all of them with the first byte.
\<close>

theorem u_memmove_smears:
  assumes "0 \<le> n" "n < 2 ^ 32" "int k \<le> n"
  shows "u_memmove m (s + 1) s n (s + of_nat k) = m s"
  using copy_up_next [of k "nat n" m s] assms by (simp add: u_memmove_def)

theorem u_memmove_smears_witness: "u_memmove (\<lambda>a. ucast a) 0x101 0x100 3 0x103 = (0 :: u8)"
  using u_memmove_smears [where n = 3 and k = 3 and m = "\<lambda>a. ucast a" and s = "0x100"] by simp

section \<open>Numbers\<close>

lemma udigit_buf_length: "\<lbrakk>2 \<le> base; x < base ^ Suc k\<rbrakk> \<Longrightarrow> length (udigit_buf x base) \<le> Suc k"
proof (induction k arbitrary: x)
  case 0
  then show ?case by (subst udigit_buf.simps) simp
next
  case (Suc k)
  have "x div base < base ^ Suc k" using Suc.prems by (simp add: div_less_iff_less_mult mult.commute)
  then have "length (udigit_buf (x div base) base) \<le> Suc k" using Suc.IH Suc.prems(1) by blast
  then show ?case by (subst udigit_buf.simps) simp
qed

text \<open>
  C27: The sixteen-byte buffer of \<open>printf\<close>'s number printing is never overrun: a decimal number takes
  at most eleven characters, sign included, and a hexadecimal one at most eight.
\<close>

theorem uprintint_fits: "length (uprintint_buf xx 10 sg) \<le> 11 \<and> length (uprintint_buf xx 16 False) \<le> 8"
proof -
  have "unat y < 10 ^ Suc 9" "unat y < 16 ^ Suc 7" for y :: u32 using unat_u32_less [of y] by simp_all
  then have "length (udigit_buf (unat y) 10) \<le> Suc 9" "length (udigit_buf (unat y) 16) \<le> Suc 7" for y :: u32
    by (intro udigit_buf_length; simp)+
  then show ?thesis by (simp add: uprintint_buf_def Let_def le_SucI [of _ 10, simplified])
qed

lemma udigit_value:
  assumes "n < 10"
  shows "isdigit (udigits ! n)" "(of_char (udigits ! n) :: u32) = 48 + of_nat n"
proof -
  have "n \<in> {0, 1, 2, 3, 4, 5, 6, 7, 8, 9}" using assms by auto
  then show "isdigit (udigits ! n)" "(of_char (udigits ! n) :: u32) = 48 + of_nat n"
    by (auto simp: udigits_def isdigit_def)
qed

lemma atoi_digits: "atoi_loop (rev (udigit_buf x 10) @ r) 0 = atoi_loop r (of_nat x)"
proof (induction x arbitrary: r rule: less_induct)
  case (less x)
  let ?d = "udigits ! (x mod 10)"
  have d: "isdigit ?d" "(of_char ?d :: u32) = 48 + of_nat (x mod 10)" using udigit_value [of "x mod 10"] by simp_all
  have x: "(of_nat (x div 10) :: u32) * 10 + of_nat (x mod 10) = of_nat x"
    by (metis div_mult_mod_eq of_nat_add of_nat_mult of_nat_numeral)
  show ?case
  proof (cases "x div 10 = 0")
    case True
    then show ?thesis using d by (subst udigit_buf.simps) simp
  next
    case False
    then have "atoi_loop (rev (udigit_buf (x div 10) 10) @ ?d # r) 0 = atoi_loop (?d # r) (of_nat (x div 10))"
      by (intro less.IH) simp
    then show ?thesis using False d x by (subst udigit_buf.simps) (simp add: algebra_simps)
  qed
qed

text \<open>
  C28: \<open>atoi\<close> reads back what \<open>printf(%d)\<close> prints for every number that is not negative; of a
  negative number it reads 0, because the sign ends the digits.
\<close>

theorem atoi_reads_printf: "atoi (rev (uprintint_buf xx 10 True)) = (if sint xx < 0 then 0 else sint xx)"
proof (cases "sint xx < 0")
  case True
  then show ?thesis by (simp add: uprintint_buf_def Let_def atoi_def isdigit_def)
next
  case False
  then show ?thesis using atoi_digits [of "unat xx" "[]"] by (simp add: uprintint_buf_def Let_def atoi_def)
qed

end
