(* ===== verification/Grep.thy ===== *)
theory Grep
  imports Userlib
begin

text \<open>
  \<open>grep.c\<close>: the regular-expression matcher and the line loop. A C string is its list of characters
  before the terminating NUL. The matcher is shown to decide a declarative meaning of patterns, and
  the line loop to print exactly the matching lines as long as reads return whole lines.
\<close>

section \<open>The matcher\<close>


function matchhere :: "string \<Rightarrow> string \<Rightarrow> bool" and matchstar :: "char \<Rightarrow> string \<Rightarrow> string \<Rightarrow> bool" where
  "matchhere re tx =
     (case re of
        [] \<Rightarrow> True
      | c # re' \<Rightarrow>
          (case re' of
             d # re'' \<Rightarrow>
               if d = CHR ''*'' then matchstar c re'' tx
               else (case tx of [] \<Rightarrow> False | t # tx' \<Rightarrow> if c = CHR ''.'' \<or> c = t then matchhere re' tx' else False)
           | [] \<Rightarrow>
               if c = CHR ''$'' then tx = []
               else (case tx of [] \<Rightarrow> False | t # tx' \<Rightarrow> if c = CHR ''.'' \<or> c = t then matchhere re' tx' else False)))"
| "matchstar c re tx =
     (if matchhere re tx then True
      else (case tx of [] \<Rightarrow> False | t # tx' \<Rightarrow> if t = c \<or> c = CHR ''.'' then matchstar c re tx' else False))"
  by pat_completeness auto
termination
  by (relation "measure (\<lambda>x. case x of Inl (re, tx) \<Rightarrow> 2 * (length re + length tx)
       | Inr (c, re, tx) \<Rightarrow> 2 * (length re + length tx) + 1)") auto

declare matchhere.simps [simp del] matchstar.simps [simp del]

fun match_from :: "string \<Rightarrow> string \<Rightarrow> bool" where
  "match_from re [] = matchhere re []"
| "match_from re (t # tx) = (if matchhere re (t # tx) then True else match_from re tx)"

definition match :: "string \<Rightarrow> string \<Rightarrow> bool" where
  "match re tx = (case re of c # re' \<Rightarrow> if c = CHR ''^'' then matchhere re' tx else match_from re tx
                    | [] \<Rightarrow> match_from re tx)"

section \<open>The line loop\<close>

text \<open>\<open>strchr\<close> over a buffer that may hold NUL bytes: the search ends at the first one.\<close>

fun strchr :: "string \<Rightarrow> char \<Rightarrow> nat option" where
  "strchr [] c = None"
| "strchr (x # xs) c = (if x = NUL then None else if x = c then Some 0 else map_option Suc (strchr xs c))"

lemma strchr_less: "strchr p c = Some i \<Longrightarrow> i < length p"
  by (induction p arbitrary: i) (auto split: if_splits)

function grep_lines :: "string \<Rightarrow> string \<Rightarrow> string \<times> string" where
  "grep_lines pattern p =
     (case strchr p NL of
        None \<Rightarrow> (p, [])
      | Some q \<Rightarrow>
          let out = (if match pattern (take q p) then take (q + 1) p else []);
              (p', out') = grep_lines pattern (drop (q + 1) p) in
          (p', out @ out'))"
  by pat_completeness auto
termination
  by (relation "measure (\<lambda>(_, p). length p)") (auto dest: strchr_less)

declare grep_lines.simps [simp del]

text \<open>
  The loop over \<open>read\<close>. \<open>rd k s\<close> is what \<open>read(fd, _, k)\<close> gives in environment \<open>s\<close>: the bytes read, none at end
  of file or on an error. \<open>keep\<close> is the unfinished line in the buffer; the result is what is written,
  or None when the fuel runs out.
\<close>

fun grep :: "nat \<Rightarrow> (nat \<Rightarrow> 's \<Rightarrow> string \<times> 's) \<Rightarrow> string \<Rightarrow> string \<Rightarrow> 's \<Rightarrow> (string \<times> 's) option" where
  "grep 0 rd pattern keep s = None"
| "grep (Suc fuel) rd pattern keep s =
     (case rd (1024 - length keep - 1) s of (chunk, s) \<Rightarrow>
        if chunk = [] then Some ([], s)
        else
          let b = keep @ chunk;
              (p, out) = grep_lines pattern b;
              keep = (if length p = length b then [] else p) in
          map_option (\<lambda>(out', s). (out @ out', s)) (grep fuel rd pattern keep s))"

section \<open>What a pattern means\<close>

datatype item = One char | Many char

fun items :: "string \<Rightarrow> item list \<times> bool" where
  "items [] = ([], False)"
| "items [c] = (if c = CHR ''$'' then ([], True) else ([One c], False))"
| "items (c # d # re) =
     (if d = CHR ''*'' then (case items re of (is, a) \<Rightarrow> (Many c # is, a))
      else (case items (d # re) of (is, a) \<Rightarrow> (One c # is, a)))"

definition fits :: "char \<Rightarrow> char \<Rightarrow> bool" where
  "fits c t \<longleftrightarrow> c = CHR ''.'' \<or> c = t"

inductive lang :: "item list \<Rightarrow> string \<Rightarrow> bool" where
  lang_end: "lang [] []"
| lang_one: "fits c t \<Longrightarrow> lang is w \<Longrightarrow> lang (One c # is) (t # w)"
| lang_skip: "lang is w \<Longrightarrow> lang (Many c # is) w"
| lang_more: "fits c t \<Longrightarrow> lang (Many c # is) w \<Longrightarrow> lang (Many c # is) (t # w)"

inductive_simps lang_Nil: "lang [] w"
inductive_simps lang_One: "lang (One c # is) w"
inductive_simps lang_Many: "lang (Many c # is) w"

text \<open>A prefix of the text is in the language of the items, all of it when the pattern ends in \<open>$\<close>.\<close>

definition here :: "item list \<times> bool \<Rightarrow> string \<Rightarrow> bool" where
  "here p tx \<longleftrightarrow> (\<exists>v w. tx = v @ w \<and> lang (fst p) v \<and> (snd p \<longrightarrow> w = []))"

definition found :: "string \<Rightarrow> string \<Rightarrow> bool" where
  "found re tx \<longleftrightarrow>
     (if re \<noteq> [] \<and> hd re = CHR ''^'' then here (items (tl re)) tx else (\<exists>u t. tx = u @ t \<and> here (items re) t))"

lemma here_end: "here ([], a) tx \<longleftrightarrow> (a \<longrightarrow> tx = [])"
  by (auto simp: here_def lang_Nil)

lemma hereI: "lang is v \<Longrightarrow> (a \<longrightarrow> w = []) \<Longrightarrow> here (is, a) (v @ w)"
  by (auto simp: here_def)

lemma hereE:
  assumes "here (is, a) tx"
  obtains v w where "tx = v @ w" "lang is v" "a \<longrightarrow> w = []"
  using assms by (auto simp: here_def)

lemma here_One: "here (One c # is, a) tx \<longleftrightarrow> (\<exists>t tx'. tx = t # tx' \<and> fits c t \<and> here (is, a) tx')"
proof
  assume "here (One c # is, a) tx"
  then obtain v w where "tx = v @ w" "lang (One c # is) v" "a \<longrightarrow> w = []" by (rule hereE)
  then obtain t v' where "tx = t # v' @ w" "fits c t" "lang is v'" "a \<longrightarrow> w = []" by (auto simp: lang_One)
  then show "\<exists>t tx'. tx = t # tx' \<and> fits c t \<and> here (is, a) tx'" using hereI by blast
next
  assume "\<exists>t tx'. tx = t # tx' \<and> fits c t \<and> here (is, a) tx'"
  then obtain t v w where "tx = (t # v) @ w" "fits c t" "lang is v" "a \<longrightarrow> w = []" by (metis append_Cons hereE)
  then show "here (One c # is, a) tx" using hereI [OF lang_one, of c t "is" v a w] by simp
qed

lemma here_Many:
  "here (Many c # is, a) tx \<longleftrightarrow> here (is, a) tx \<or> (\<exists>t tx'. tx = t # tx' \<and> fits c t \<and> here (Many c # is, a) tx')"
proof
  assume "here (Many c # is, a) tx"
  then obtain v w where v: "tx = v @ w" "lang (Many c # is) v" "a \<longrightarrow> w = []" by (rule hereE)
  from v(2) consider "lang is v" | t v' where "v = t # v'" "fits c t" "lang (Many c # is) v'"
    unfolding lang_Many [of c "is" v] by blast
  then show "here (is, a) tx \<or> (\<exists>t tx'. tx = t # tx' \<and> fits c t \<and> here (Many c # is, a) tx')"
    using v hereI by cases (blast, metis append_Cons hereI)
next
  assume "here (is, a) tx \<or> (\<exists>t tx'. tx = t # tx' \<and> fits c t \<and> here (Many c # is, a) tx')"
  then show "here (Many c # is, a) tx"
  proof
    assume "here (is, a) tx"
    then obtain v w where "tx = v @ w" "lang is v" "a \<longrightarrow> w = []" by (rule hereE)
    then show ?thesis using hereI [OF lang_skip, of "is" v a w c] by simp
  next
    assume "\<exists>t tx'. tx = t # tx' \<and> fits c t \<and> here (Many c # is, a) tx'"
    then obtain t v w where "tx = (t # v) @ w" "fits c t" "lang (Many c # is) v" "a \<longrightarrow> w = []" by (metis append_Cons hereE)
    then show ?thesis using hereI [OF lang_more, of c t "is" v a w] by simp
  qed
qed

lemma matchhere_eqs:
  "matchhere [] tx"
  "matchhere [c] [] \<longleftrightarrow> c = CHR ''$''"
  "matchhere [c] (t # tx) \<longleftrightarrow> c \<noteq> CHR ''$'' \<and> fits c t"
  "matchhere (c # d # re) tx \<longleftrightarrow>
     (if d = CHR ''*'' then matchstar c re tx else (\<exists>t tx'. tx = t # tx' \<and> fits c t \<and> matchhere (d # re) tx'))"
  by (subst matchhere.simps; auto simp: fits_def matchhere.simps [of "[]"] split: list.splits)+

lemma matcher_correct:
  "matchhere re tx \<longleftrightarrow> here (items re) tx"
  "matchstar c re tx \<longleftrightarrow> here (Many c # fst (items re), snd (items re)) tx"
proof (induction re tx and c re tx rule: matchhere_matchstar.induct)
  case (1 re tx)
  consider "re = []" | c where "re = [c]" | c d re' where "re = c # d # re'"
    by (metis neq_Nil_conv)
  then show ?case
  proof cases
    case 1
    then show ?thesis by (simp add: matchhere_eqs here_end)
  next
    case 2
    then show ?thesis by (cases tx) (auto simp: matchhere_eqs here_end here_One)
  next
    case (3 c d re')
    show ?thesis
    proof (cases "d = CHR ''*''")
      case True
      then show ?thesis using 3 "1.IH"(2) [OF 3 refl True] by (auto simp: matchhere_eqs split: prod.splits)
    next
      case False
      have "matchhere (d # re') tx' \<longleftrightarrow> here (items (d # re')) tx'" if "tx = t # tx'" "fits c t" for t tx'
        using 3 False that "1.IH"(3) [OF 3 refl False] by (auto simp: fits_def)
      then show ?thesis using 3 False by (auto simp: matchhere_eqs here_One split: prod.splits)
    qed
  qed
next
  case (2 c re tx)
  have "matchstar c re tx' \<longleftrightarrow> here (Many c # fst (items re), snd (items re)) tx'" if "tx = t # tx'" "fits c t" "\<not> matchhere re tx" for t tx'
    using 2 that by (auto simp: fits_def)
  then show ?case
    using 2(1) here_Many [of c "fst (items re)" "snd (items re)" tx]
    by (cases tx) (auto simp: matchstar.simps [of c re] fits_def)
qed

lemma match_from_correct: "match_from re tx \<longleftrightarrow> (\<exists>u t. tx = u @ t \<and> here (items re) t)"
proof (induction tx)
  case (Cons t tx)
  show ?case
  proof
    assume "match_from re (t # tx)"
    then have "here (items re) (t # tx) \<or> (\<exists>u t. tx = u @ t \<and> here (items re) t)"
      using Cons by (auto simp: matcher_correct split: if_splits)
    then show "\<exists>u ta. t # tx = u @ ta \<and> here (items re) ta" by (metis append_Cons append_Nil)
  next
    assume "\<exists>u ta. t # tx = u @ ta \<and> here (items re) ta"
    then show "match_from re (t # tx)" using Cons by (auto simp: matcher_correct Cons_eq_append_conv)
  qed
qed (simp add: matcher_correct)

text \<open>
  C23: The matcher of \<open>grep\<close> terminates on every pattern and text and decides the meaning of the
  pattern: for \<open>^p\<close> that a prefix of the text is in the language of \<open>p\<close>, otherwise that some substring
  is, where \<open>.\<close> fits any character, \<open>c*\<close> any run of characters \<open>c\<close> fits, and a final \<open>$\<close> only the end.
\<close>

theorem match_correct: "match re tx \<longleftrightarrow> found re tx"
  by (cases re) (auto simp: match_def found_def matcher_correct match_from_correct)

section \<open>Whole lines and split lines\<close>

definition line_ok :: "string \<Rightarrow> bool" where
  "line_ok l \<longleftrightarrow> NL \<notin> set l \<and> NUL \<notin> set l"

definition joined :: "string list \<Rightarrow> string" where
  "joined ls = concat (map (\<lambda>l. l @ [NL]) ls)"

definition hits :: "string \<Rightarrow> string list \<Rightarrow> string" where
  "hits pattern ls = joined (filter (match pattern) ls)"

lemma joined_simps [simp]: "joined [] = []" "joined (l # ls) = l @ NL # joined ls"
  by (simp_all add: joined_def)

lemma hits_simps [simp]: "hits p [] = []" "hits p (l # ls) = (if match p l then l @ NL # hits p ls else hits p ls)"
  by (simp_all add: hits_def)

lemma hits_append: "hits p (ls @ ms) = hits p ls @ hits p ms"
  by (simp add: hits_def joined_def)

lemma strchr_line: "line_ok l \<Longrightarrow> strchr (l @ NL # r) NL = Some (length l)"
  by (induction l) (auto simp: line_ok_def)

lemma strchr_none: "line_ok l \<Longrightarrow> strchr l NL = None"
  by (induction l) (auto simp: line_ok_def)

lemma grep_lines_rest: "line_ok l \<Longrightarrow> grep_lines p l = (l, [])"
  by (simp add: grep_lines.simps strchr_none)

lemma grep_lines_joined:
  "\<forall>l \<in> set ls. line_ok l \<Longrightarrow> line_ok r \<Longrightarrow> grep_lines p (joined ls @ r) = (r, hits p ls)"
proof (induction ls)
  case Nil
  then show ?case by (simp add: grep_lines_rest)
next
  case (Cons l ls)
  then show ?case by (subst grep_lines.simps) (simp add: strchr_line)
qed

text \<open>A descriptor whose reads return the chunks of a list, cut to the size asked for.\<close>

fun rd_chunks :: "nat \<Rightarrow> string list \<Rightarrow> string \<times> string list" where
  "rd_chunks k [] = ([], [])"
| "rd_chunks k (c # cs) = (if length c \<le> k then (c, cs) else (take k c, drop k c # cs))"

text \<open>
  C24: When every read returns whole lines (as for a file of short lines read in one piece, or a
  terminal), the loop of \<open>grep\<close> ends and prints exactly the matching lines, in order.
\<close>

theorem grep_prints_matches:
  assumes "\<forall>ls \<in> set lss. ls \<noteq> [] \<and> (\<forall>l \<in> set ls. line_ok l) \<and> length (joined ls) \<le> 1023" "length lss < fuel"
  shows "grep fuel rd_chunks pattern [] (map joined lss) = Some (hits pattern (concat lss), [])"
  using assms
proof (induction lss arbitrary: fuel)
  case Nil
  then show ?case by (cases fuel) auto
next
  case (Cons ls lss)
  then obtain f where f: "fuel = Suc f" "length lss < f" by (cases fuel) auto
  have j: "joined ls \<noteq> []" using Cons.prems by (cases ls) auto
  have "grep_lines pattern (joined ls) = ([], hits pattern ls)"
    using grep_lines_joined [of ls "[]" pattern] Cons.prems by (auto simp: line_ok_def)
  then show ?case using Cons f j by (simp add: hits_append)
qed

text \<open>
  C25: A line that arrives in two reads is not matched as a line: when a read returns the beginning
  \<open>a\<close> of a line without its newline, the buffer is emptied, and only the rest \<open>b\<close> is matched and printed.
\<close>

theorem grep_loses_split_line:
  assumes "line_ok a" "line_ok b" "a \<noteq> []" "length a \<le> 1023" "length b \<le> 1022"
  shows "grep 3 rd_chunks pattern [] [a, b @ [NL]] = Some (hits pattern [b], [])"
proof -
  have "grep_lines pattern (b @ [NL]) = ([], hits pattern [b])"
    using grep_lines_joined [of "[b]" "[]" pattern] assms(2) by (auto simp: line_ok_def)
  then show ?thesis
    using assms grep_lines_rest [OF assms(1), of pattern] by (simp add: numeral_eq_Suc)
qed

theorem grep_prints_matches_witness:
  "grep 3 rd_chunks ''b'' [] [''ab'' @ [NL], ''c'' @ [NL]] = Some (''ab'' @ [NL], [])"
proof -
  have "grep 3 rd_chunks ''b'' [] (map joined [[''ab''], [''c'']]) = Some (hits ''b'' (concat [[''ab''], [''c'']]), [])"
    by (rule grep_prints_matches) (auto simp: line_ok_def)
  then show ?thesis by (simp add: match_def matchhere_eqs fits_def)
qed

theorem grep_loses_split_line_witness: "grep 3 rd_chunks ''a'' [] [''a'', ''b'' @ [NL]] = Some ([], [])"
  using grep_loses_split_line [of "''a''" "''b''" "''a''"] by (simp add: line_ok_def match_def matchhere_eqs fits_def)

end
