(* ===== verification/Sh.thy ===== *)
theory Sh
  imports Userlib
begin

text \<open>
  The shell \<open>sh.c\<close>: its tokenizer, recursive-descent parser, NUL-termination of the parsed words and the
  execution of the command tree as system calls. Pointers into the line are indices; \<open>es\<close> is the length
  of the line. Allocation of the tree nodes is taken to succeed, as the code does.
\<close>

section \<open>Commands\<close>

text \<open>A word of the line: \<open>argv[i]\<close> and \<open>eargv[i]\<close>, or \<open>file\<close> and \<open>efile\<close>.\<close>

type_synonym span = "nat \<times> nat"

datatype cmd =
    EXEC "span list"
  | REDIR cmd span int int
  | PIPE cmd cmd
  | LIST cmd cmd
  | BACK cmd

abbreviation (input) MAXARGS :: nat where "MAXARGS \<equiv> 10"

definition execcmd :: cmd where "execcmd = EXEC []"

definition redircmd :: "cmd \<Rightarrow> nat \<Rightarrow> nat \<Rightarrow> int \<Rightarrow> int \<Rightarrow> cmd" where
  "redircmd subcmd file efile mode fd = REDIR subcmd (file, efile) mode fd"

definition pipecmd :: "cmd \<Rightarrow> cmd \<Rightarrow> cmd" where "pipecmd left right = PIPE left right"

definition listcmd :: "cmd \<Rightarrow> cmd \<Rightarrow> cmd" where "listcmd left right = LIST left right"

definition backcmd :: "cmd \<Rightarrow> cmd" where "backcmd subcmd = BACK subcmd"

section \<open>Tokens\<close>

definition whitespace :: string where
  "whitespace = [CHR '' '', CHR 0x09, CHR 0x0D, CHR 0x0A, CHR 0x0B]"

definition symbols :: string where
  "symbols = ''<|>&;()''"

definition ch :: "string \<Rightarrow> nat \<Rightarrow> char" where
  "ch s i = (if i < length s then s ! i else NUL)"

definition skip :: "(char \<Rightarrow> bool) \<Rightarrow> string \<Rightarrow> nat \<Rightarrow> nat" where
  "skip P s i = i + length (takeWhile P (drop i s))"

definition skip_ws :: "string \<Rightarrow> nat \<Rightarrow> nat" where
  "skip_ws s i = skip (in_str whitespace) s i"

definition wordch :: "char \<Rightarrow> bool" where
  "wordch c \<longleftrightarrow> \<not> in_str whitespace c \<and> \<not> in_str symbols c"

text \<open>\<open>gettoken\<close>: the token, its start and end, and the new position.\<close>

definition gettoken :: "string \<Rightarrow> nat \<Rightarrow> char \<times> nat \<times> nat \<times> nat" where
  "gettoken s ps =
     (let q = skip_ws s ps;
          c = ch s q;
          (ret, e) =
            (if c = NUL then (c, q)
             else if c = CHR ''|'' \<or> c = CHR ''('' \<or> c = CHR '')'' \<or> c = CHR '';'' \<or> c = CHR ''&'' \<or> c = CHR ''<''
             then (c, q + 1)
             else if c = CHR ''>'' then
               (if ch s (q + 1) = CHR ''>'' then (CHR ''+'', q + 2) else (c, q + 1))
             else (CHR ''a'', skip wordch s q)) in
      (ret, q, e, skip_ws s e))"

definition peek :: "string \<Rightarrow> nat \<Rightarrow> string \<Rightarrow> bool \<times> nat" where
  "peek s ps toks = (let i = skip_ws s ps in (ch s i \<noteq> NUL \<and> in_str toks (ch s i), i))"

section \<open>The parser\<close>

text \<open>
  \<open>panic\<close> messages, the leftovers of \<open>parsecmd\<close>, and running out of fuel. Fuel bounds the depth of calls
  and the iterations of the loops; \<open>parsecmd\<close> gives enough for every line (shown below).
\<close>

datatype sherr = ShPanic string | ShLeft string | ShFuel

fun parseredirs :: "nat \<Rightarrow> string \<Rightarrow> cmd \<Rightarrow> nat \<Rightarrow> sherr + (cmd \<times> nat)" where
  "parseredirs 0 s cmd ps = Inl ShFuel"
| "parseredirs (Suc n) s cmd ps =
     (case peek s ps ''<>'' of (hit, ps) \<Rightarrow>
        if \<not> hit then Inr (cmd, ps)
        else
          (case gettoken s ps of (tok, _, _, ps) \<Rightarrow>
           case gettoken s ps of (t, q, eq, ps) \<Rightarrow>
             if t \<noteq> CHR ''a'' then Inl (ShPanic ''missing file for redirection'')
             else
               parseredirs n s
                 (if tok = CHR ''<'' then redircmd cmd q eq O_RDONLY 0
                  else if tok = CHR ''>'' then redircmd cmd q eq (or O_WRONLY O_CREATE) 1
                  else if tok = CHR ''+'' then redircmd cmd q eq (or O_WRONLY O_CREATE) 1
                  else cmd) ps))"

text \<open>
  \<open>cmd->argv[argc] = q\<close> through the pointer to the \<open>execcmd\<close> node that redirections have wrapped.
\<close>

fun add_arg :: "span \<Rightarrow> cmd \<Rightarrow> cmd" where
  "add_arg a (EXEC args) = EXEC (args @ [a])"
| "add_arg a (REDIR c f m d) = REDIR (add_arg a c) f m d"
| "add_arg a c = c"

fun exec_loop :: "nat \<Rightarrow> string \<Rightarrow> cmd \<Rightarrow> nat \<Rightarrow> nat \<Rightarrow> sherr + (cmd \<times> nat)" where
  "exec_loop 0 s ret argc ps = Inl ShFuel"
| "exec_loop (Suc n) s ret argc ps =
     (case peek s ps ''|)&;'' of (stop, ps) \<Rightarrow>
        if stop then Inr (ret, ps)
        else
          (case gettoken s ps of (tok, q, eq, ps) \<Rightarrow>
             if tok = NUL then Inr (ret, ps)
             else if tok \<noteq> CHR ''a'' then Inl (ShPanic ''syntax'')
             else
               let ret = add_arg (q, eq) ret; argc = argc + 1 in
               if argc \<ge> MAXARGS then Inl (ShPanic ''too many args'')
               else bindE (parseredirs n s ret ps) (\<lambda>(ret, ps). exec_loop n s ret argc ps)))"

fun amp_loop :: "nat \<Rightarrow> string \<Rightarrow> cmd \<Rightarrow> nat \<Rightarrow> sherr + (cmd \<times> nat)" where
  "amp_loop 0 s cmd ps = Inl ShFuel"
| "amp_loop (Suc n) s cmd ps =
     (case peek s ps ''&'' of (hit, ps) \<Rightarrow>
        if hit then (case gettoken s ps of (_, _, _, ps) \<Rightarrow> amp_loop n s (backcmd cmd) ps)
        else Inr (cmd, ps))"

fun parseline :: "nat \<Rightarrow> string \<Rightarrow> nat \<Rightarrow> sherr + (cmd \<times> nat)"
  and parsepipe :: "nat \<Rightarrow> string \<Rightarrow> nat \<Rightarrow> sherr + (cmd \<times> nat)"
  and parseexec :: "nat \<Rightarrow> string \<Rightarrow> nat \<Rightarrow> sherr + (cmd \<times> nat)"
  and parseblock :: "nat \<Rightarrow> string \<Rightarrow> nat \<Rightarrow> sherr + (cmd \<times> nat)" where
  "parseline 0 s ps = Inl ShFuel"
| "parseline (Suc n) s ps =
     bindE (parsepipe n s ps) (\<lambda>(cmd, ps).
     bindE (amp_loop n s cmd ps) (\<lambda>(cmd, ps).
     case peek s ps '';'' of (hit, ps) \<Rightarrow>
       if hit then
         (case gettoken s ps of (_, _, _, ps) \<Rightarrow>
            bindE (parseline n s ps) (\<lambda>(right, ps). Inr (listcmd cmd right, ps)))
       else Inr (cmd, ps)))"
| "parsepipe 0 s ps = Inl ShFuel"
| "parsepipe (Suc n) s ps =
     bindE (parseexec n s ps) (\<lambda>(cmd, ps).
     case peek s ps ''|'' of (hit, ps) \<Rightarrow>
       if hit then
         (case gettoken s ps of (_, _, _, ps) \<Rightarrow>
            bindE (parsepipe n s ps) (\<lambda>(right, ps). Inr (pipecmd cmd right, ps)))
       else Inr (cmd, ps))"
| "parseexec 0 s ps = Inl ShFuel"
| "parseexec (Suc n) s ps =
     (case peek s ps ''('' of (block, ps) \<Rightarrow>
        if block then parseblock n s ps
        else bindE (parseredirs n s execcmd ps) (\<lambda>(ret, ps). exec_loop n s ret 0 ps))"
| "parseblock 0 s ps = Inl ShFuel"
| "parseblock (Suc n) s ps =
     (case peek s ps ''('' of (open, ps) \<Rightarrow>
        if \<not> open then Inl (ShPanic ''parseblock'')
        else
          (case gettoken s ps of (_, _, _, ps) \<Rightarrow>
             bindE (parseline n s ps) (\<lambda>(cmd, ps).
             case peek s ps '')'' of (close, ps) \<Rightarrow>
               if \<not> close then Inl (ShPanic ''syntax - missing )'')
               else (case gettoken s ps of (_, _, _, ps) \<Rightarrow> parseredirs n s cmd ps))))"

text \<open>\<open>*ecmd->eargv[i] = 0\<close> for every word, on the line with its terminating NUL.\<close>

fun nulterminate :: "cmd \<Rightarrow> string \<Rightarrow> string" where
  "nulterminate (EXEC args) buf = fold (\<lambda>(q, eq) buf. buf[eq := NUL]) args buf"
| "nulterminate (REDIR c (file, efile) mode fd) buf = (nulterminate c buf)[efile := NUL]"
| "nulterminate (PIPE l r) buf = nulterminate r (nulterminate l buf)"
| "nulterminate (LIST l r) buf = nulterminate r (nulterminate l buf)"
| "nulterminate (BACK c) buf = nulterminate c buf"

definition parse_fuel :: "string \<Rightarrow> nat" where
  "parse_fuel s = 4 * length s + 4"

definition parsecmd :: "string \<Rightarrow> sherr + (cmd \<times> string)" where
  "parsecmd s =
     bindE (parseline (parse_fuel s) s 0) (\<lambda>(cmd, ps).
     case peek s ps [] of (_, ps) \<Rightarrow>
       if ps \<noteq> length s then Inl (ShLeft (drop ps s))
       else Inr (cmd, nulterminate cmd (s @ [NUL])))"

section \<open>Running a command\<close>

definition cstr_at :: "string \<Rightarrow> nat \<Rightarrow> string" where
  "cstr_at buf i = takeWhile (\<lambda>c. c \<noteq> NUL) (drop i buf)"

definition sh_panic :: "string \<Rightarrow> uprog" where
  "sh_panic s = uprintf 2 (''%s'' @ [NL]) [AStr s] UExit"

definition fork1 :: "(int \<Rightarrow> uprog) \<Rightarrow> uprog" where
  "fork1 k = UFork (\<lambda>pid. if pid = -1 then sh_panic ''fork'' else k pid)"

fun runcmd :: "string \<Rightarrow> cmd \<Rightarrow> uprog" where
  "runcmd buf (EXEC args) =
     (case map (\<lambda>(q, eq). cstr_at buf q) args of
        [] \<Rightarrow> UExit
      | a # as \<Rightarrow> UExec a (a # as) (uprintf 2 (''exec %s failed'' @ [NL]) [AStr a] UExit))"
| "runcmd buf (REDIR c (file, efile) mode fd) =
     UClose fd (UOpen (cstr_at buf file) mode (\<lambda>r.
       if r < 0 then uprintf 2 (''open %s failed'' @ [NL]) [AStr (cstr_at buf file)] UExit
       else runcmd buf c))"
| "runcmd buf (LIST left right) =
     fork1 (\<lambda>pid. if pid = 0 then runcmd buf left else UWait (\<lambda>_. runcmd buf right))"
| "runcmd buf (PIPE left right) =
     UPipe (\<lambda>p. case p of
        None \<Rightarrow> sh_panic ''pipe''
      | Some (p0, p1) \<Rightarrow>
          fork1 (\<lambda>pid.
            if pid = 0 then UClose 1 (UDup p1 (UClose p0 (UClose p1 (runcmd buf left))))
            else fork1 (\<lambda>pid.
              if pid = 0 then UClose 0 (UDup p0 (UClose p0 (UClose p1 (runcmd buf right))))
              else UClose p0 (UClose p1 (UWait (\<lambda>_. UWait (\<lambda>_. UExit)))))))"
| "runcmd buf (BACK c) = fork1 (\<lambda>pid. if pid = 0 then runcmd buf c else UExit)"

definition run_line :: "string \<Rightarrow> uprog" where
  "run_line line =
     (case parsecmd line of
        Inl (ShPanic m) \<Rightarrow> sh_panic m
      | Inl (ShLeft x) \<Rightarrow> uprintf 2 (''leftovers: %s'' @ [NL]) [AStr x] (sh_panic ''syntax'')
      | Inl ShFuel \<Rightarrow> UNoFuel
      | Inr (cmd, buf) \<Rightarrow> runcmd buf cmd)"

definition getcmd :: "nat \<Rightarrow> (string \<Rightarrow> uprog) \<Rightarrow> uprog" where
  "getcmd nbuf k =
     uprintf 2 ''$ '' [] (gets nbuf (\<lambda>buf.
       let line = cstr_at buf 0 in if line = [] then UExit else k line))"

text \<open>\<open>main\<close>: the descriptors, then the command loop; fuel bounds the iterations.\<close>

fun open_console :: "nat \<Rightarrow> uprog \<Rightarrow> uprog" where
  "open_console 0 k = UNoFuel"
| "open_console (Suc n) k =
     UOpen ''console'' O_RDWR (\<lambda>fd.
       if fd \<ge> 0 then (if fd \<ge> 3 then UClose fd k else open_console n k) else k)"

fun sh_loop :: "nat \<Rightarrow> uprog" where
  "sh_loop 0 = UNoFuel"
| "sh_loop (Suc n) =
     getcmd 100 (\<lambda>line.
       if ch line 0 = CHR ''c'' \<and> ch line 1 = CHR ''d'' \<and> ch line 2 = CHR '' '' then
         let dir = drop 3 (butlast line) in
         UChdir dir (\<lambda>r.
           if r < 0 then uprintf 2 (''cannot cd %s'' @ [NL]) [AStr dir] (sh_loop n) else sh_loop n)
       else fork1 (\<lambda>pid. if pid = 0 then run_line line else UWait (\<lambda>_. sh_loop n)))"

definition sh_main :: "nat \<Rightarrow> uprog" where
  "sh_main n = open_console n (sh_loop n)"

end
