(* ===== verification/Sh_Parse.thy ===== *)
theory Sh_Parse
  imports Sh
begin

text \<open>
  Correctness of the parser of \<open>sh.c\<close>: its fuel suffices for every line, the words it records are
  maximal runs of word characters that NUL-termination delimits, and it inverts a printer of command
  trees.
\<close>

section \<open>Tokens\<close>

lemma in_str_set [simp]: "in_str s c \<longleftrightarrow> c \<in> set s"
  by (induction s) auto

lemma skip_ge [simp]: "i \<le> skip P s i"
  by (simp add: skip_def)

lemma skip_le [simp]: "i \<le> length s \<Longrightarrow> skip P s i \<le> length s"
  using length_takeWhile_le [of P "drop i s"] by (simp add: skip_def)

lemma drop_skip: "drop (skip P s i) s = dropWhile P (drop i s)"
  by (simp add: skip_def dropWhile_eq_drop add.commute)

lemma skip_skip [simp]: "skip P s (skip P s i) = skip P s i"
proof -
  have "takeWhile P (dropWhile P xs) = []" for xs
    by (induction xs) auto
  then show ?thesis
    unfolding skip_def [of P s "skip P s i"] drop_skip by simp
qed

lemma skip_stop: "skip P s i < length s \<Longrightarrow> \<not> P (s ! skip P s i)"
  using nth_length_takeWhile [of P "drop i s"] by (simp add: skip_def)

lemma skip_run: "i \<le> k \<Longrightarrow> k < skip P s i \<Longrightarrow> P (s ! k)"
proof -
  assume k: "i \<le> k" "k < skip P s i"
  then have lt: "k - i < length (takeWhile P (drop i s))"
    by (auto simp: skip_def)
  then have "drop i s ! (k - i) \<in> set (takeWhile P (drop i s))"
    using takeWhile_nth [OF lt] nth_mem [OF lt] by simp
  moreover have "drop i s ! (k - i) = s ! k"
    using k length_takeWhile_le [of P "drop i s"] lt by simp
  ultimately show "P (s ! k)"
    by (auto dest: set_takeWhileD)
qed

lemma skip_step: "i < length s \<Longrightarrow> P (s ! i) \<Longrightarrow> i < skip P s i"
  by (simp add: skip_def Cons_nth_drop_Suc [symmetric])

lemma skip_ws_simps [simp]:
  "i \<le> skip_ws s i" "i \<le> length s \<Longrightarrow> skip_ws s i \<le> length s" "skip_ws s (skip_ws s i) = skip_ws s i"
  by (simp_all add: skip_ws_def)

text \<open>A maximal run of word characters.\<close>

definition span_ok :: "string \<Rightarrow> span \<Rightarrow> bool" where
  "span_ok s x \<longleftrightarrow>
     fst x < snd x \<and> snd x \<le> length s \<and> (\<forall>k. fst x \<le> k \<and> k < snd x \<longrightarrow> wordch (s ! k)) \<and>
     (snd x < length s \<longrightarrow> \<not> wordch (s ! snd x))"

lemma ch_notnul: "ch s i \<noteq> NUL \<Longrightarrow> i < length s \<and> ch s i = s ! i"
  by (auto simp: ch_def split: if_splits)

lemma span_word:
  assumes "ch s q \<noteq> NUL" "wordch (ch s q)"
  shows "span_ok s (q, skip wordch s q)"
  using ch_notnul [OF assms(1)] assms(2) skip_step [of q s wordch] skip_stop [of wordch s q]
    skip_run [of q _ wordch s]
  by (auto simp: span_ok_def)

lemma symbols_iff: "c \<in> set symbols \<longleftrightarrow>
  c = CHR ''<'' \<or> c = CHR ''|'' \<or> c = CHR ''>'' \<or> c = CHR ''&'' \<or> c = CHR '';'' \<or> c = CHR ''('' \<or> c = CHR '')''"
  by (simp add: symbols_def)

lemma gettokenD:
  assumes g: "gettoken s i = (t, q, e, j)" and i: "i \<le> length s"
  shows "i \<le> j" and "j \<le> length s" and "t \<noteq> NUL \<Longrightarrow> i < j" and "ch s (skip_ws s i) \<noteq> NUL \<Longrightarrow> i < j"
    and "t = CHR ''a'' \<Longrightarrow> span_ok s (q, e)"
proof -
  let ?q = "skip_ws s i"
  let ?c = "ch s ?q"
  have q: "i \<le> ?q" "?q \<le> length s"
    using i by auto
  have ws: "?q < length s \<Longrightarrow> s ! ?q \<notin> set whitespace"
    using skip_stop [of "in_str whitespace" s i] by (simp add: skip_ws_def)
  have word: "?c \<noteq> NUL \<Longrightarrow> ?c \<notin> set symbols \<Longrightarrow> wordch ?c"
    using ws ch_notnul [of s ?q] by (auto simp: wordch_def)
  have *: "i \<le> j \<and> j \<le> length s \<and> (t \<noteq> NUL \<longrightarrow> i < j) \<and> (?c \<noteq> NUL \<longrightarrow> i < j) \<and>
    (t = CHR ''a'' \<longrightarrow> span_ok s (q, e))"
  proof (cases "?c = NUL \<or> ?c \<in> set symbols")
    case True
    have le: "e \<le> j" "e \<le> length s \<Longrightarrow> j \<le> length s"
      using g by (auto simp: gettoken_def Let_def split: prod.splits)
    consider "?c = NUL" "t = NUL" "e = ?q" | "?c \<noteq> NUL" "t \<noteq> CHR ''a''" "e = ?q + 1"
      | "ch s (?q + 1) = CHR ''>''" "t \<noteq> CHR ''a''" "e = ?q + 2"
      using True g
      by (auto simp: gettoken_def Let_def symbols_iff split: if_splits) (drule sym [of "CHR ''>''"], simp)
    then show ?thesis
    proof cases
      case 1
      then show ?thesis using le q by (auto simp del: skip_ws_simps)
    next
      case 2
      then show ?thesis using le q ch_notnul [of s ?q] by (auto simp del: skip_ws_simps)
    next
      case 3
      then show ?thesis using le q ch_notnul [of s "?q + 1"] by (auto simp del: skip_ws_simps)
    qed
  next
    case False
    then have "t = CHR ''a''" "q = ?q" "e = skip wordch s ?q" "j = skip_ws s e"
      using g by (auto simp: gettoken_def Let_def symbols_iff)
    moreover from this have sp: "span_ok s (q, e)"
      using False word by (auto intro: span_word)
    moreover have "q < e" "e \<le> length s"
      using sp by (auto simp: span_ok_def)
    ultimately have "i < e" "e \<le> j" "j \<le> length s"
      using q(1) by (auto simp del: skip_ws_simps intro: skip_ws_simps)
    with sp \<open>t = CHR ''a''\<close> show ?thesis
      by auto
  qed
  then show "i \<le> j" and "j \<le> length s" and "t \<noteq> NUL \<Longrightarrow> i < j" and "?c \<noteq> NUL \<Longrightarrow> i < j"
    and "t = CHR ''a'' \<Longrightarrow> span_ok s (q, e)"
    by auto
qed

lemma peekD:
  assumes "peek s i toks = (b, j)" "i \<le> length s"
  shows "i \<le> j" "j \<le> length s" "skip_ws s j = j" "b \<Longrightarrow> ch s j \<noteq> NUL"
  using assms by (auto simp: peek_def Let_def)

section \<open>Every parse ends, on words\<close>

fun spans :: "cmd \<Rightarrow> span set" where
  "spans (EXEC args) = set args"
| "spans (REDIR c f m d) = insert f (spans c)"
| "spans (PIPE l r) = spans l \<union> spans r"
| "spans (LIST l r) = spans l \<union> spans r"
| "spans (BACK c) = spans c"

definition words_ok :: "string \<Rightarrow> cmd \<Rightarrow> bool" where
  "words_ok s c \<longleftrightarrow> (\<forall>x\<in>spans c. span_ok s x)"

lemma words_ok_simps [simp]:
  "words_ok s execcmd"
  "words_ok s (redircmd c q e m d) \<longleftrightarrow> span_ok s (q, e) \<and> words_ok s c"
  "words_ok s (pipecmd l r) \<longleftrightarrow> words_ok s l \<and> words_ok s r"
  "words_ok s (listcmd l r) \<longleftrightarrow> words_ok s l \<and> words_ok s r"
  "words_ok s (backcmd c) \<longleftrightarrow> words_ok s c"
  by (auto simp: words_ok_def execcmd_def redircmd_def pipecmd_def listcmd_def backcmd_def)

lemma words_ok_add_arg: "words_ok s c \<Longrightarrow> span_ok s x \<Longrightarrow> words_ok s (add_arg x c)"
proof -
  have "spans (add_arg x c) \<subseteq> insert x (spans c)" for c
    by (induction x c rule: add_arg.induct) auto
  then show "words_ok s c \<Longrightarrow> span_ok s x \<Longrightarrow> words_ok s (add_arg x c)"
    by (auto simp: words_ok_def)
qed

text \<open>What a parser started at \<open>i\<close> with fuel \<open>n\<close> gives, when \<open>b\<close> is enough fuel.\<close>

definition parse_ok :: "string \<Rightarrow> nat \<Rightarrow> nat \<Rightarrow> nat \<Rightarrow> sherr + (cmd \<times> nat) \<Rightarrow> bool" where
  "parse_ok s n i b r \<longleftrightarrow>
     (\<forall>c j. r = Inr (c, j) \<longrightarrow> i \<le> j \<and> j \<le> length s \<and> words_ok s c) \<and> (b \<le> n \<longrightarrow> r \<noteq> Inl ShFuel)"

lemma parse_okI_err: "e \<noteq> ShFuel \<Longrightarrow> parse_ok s n i b (Inl e)"
  by (simp add: parse_ok_def)

lemma parse_okI_fuel: "n < b \<Longrightarrow> parse_ok s n i b (Inl ShFuel)"
  by (simp add: parse_ok_def)

lemma parse_okI: "i \<le> j \<Longrightarrow> j \<le> length s \<Longrightarrow> words_ok s c \<Longrightarrow> parse_ok s n i b (Inr (c, j))"
  by (simp add: parse_ok_def)

lemma parse_ok_mono:
  assumes "parse_ok s n j b r" "i \<le> j" "b' \<le> n' \<Longrightarrow> b \<le> n"
  shows "parse_ok s n' i b' r"
  using assms by (fastforce simp: parse_ok_def)

lemma parse_ok_bind:
  assumes "parse_ok s n j b r" and "b' \<le> n' \<Longrightarrow> b \<le> n"
    and "\<And>c k. j \<le> k \<Longrightarrow> k \<le> length s \<Longrightarrow> words_ok s c \<Longrightarrow> parse_ok s n' i b' (f (c, k))"
  shows "parse_ok s n' i b' (bindE r f)"
  using assms by (cases r) (fastforce simp: parse_ok_def)+

lemmas parse_okIs = parse_okI_err parse_okI_fuel parse_okI

lemma parseredirs_ok:
  "i \<le> length s \<Longrightarrow> words_ok s c \<Longrightarrow> parse_ok s n i (length s - i + 1) (parseredirs n s c i)"
proof (induction n arbitrary: c i)
  case (Suc n)
  obtain b j where p: "peek s i ''<>'' = (b, j)" by fastforce
  note pd = peekD [OF p Suc.prems(1)]
  obtain t q e k where g: "gettoken s j = (t, q, e, k)" by (metis prod_cases4)
  note gd = gettokenD [OF g pd(2)]
  obtain t' q' e' k' where g': "gettoken s k = (t', q', e', k')" by (metis prod_cases4)
  note gd' = gettokenD [OF g' gd(2)]
  show ?case
  proof (cases "b \<and> t' = CHR ''a''")
    case True
    then have lt: "j < k" using gd(4) pd by simp
    show ?thesis
      unfolding parseredirs.simps p g g' prod.case
      using True Suc.prems pd(1) lt gd'(1,2,5)
      by (simp only: simp_thms if_True if_False not_True_eq_False)
        (rule parse_ok_mono [OF Suc.IH], auto)
  qed (use p g g' pd Suc.prems in \<open>auto intro!: parse_okIs\<close>)
qed (simp add: parse_okI_fuel)

lemma exec_loop_ok:
  "i \<le> length s \<Longrightarrow> words_ok s c \<Longrightarrow> parse_ok s n i (length s - i + 1) (exec_loop n s c argc i)"
proof (induction n arbitrary: c i argc)
  case (Suc n)
  obtain b j where p: "peek s i ''|)&;'' = (b, j)" by fastforce
  note pd = peekD [OF p Suc.prems(1)]
  obtain t q e k where g: "gettoken s j = (t, q, e, k)" by (metis prod_cases4)
  note gd = gettokenD [OF g pd(2)]
  show ?case
  proof (cases "\<not> b \<and> t = CHR ''a''")
    case True
    then have lt: "j < k" and w: "words_ok s (add_arg (q, e) c)"
      using gd Suc.prems by (auto intro: words_ok_add_arg)
    have "parse_ok s (Suc n) i (length s - i + 1)
        (bindE (parseredirs n s (add_arg (q, e) c) k) (\<lambda>(ret, ps). exec_loop n s ret (argc + 1) ps))"
    proof (rule parse_ok_bind [OF parseredirs_ok [OF gd(2) w]])
      fix c' k' assume "k \<le> k'" "k' \<le> length s" "words_ok s c'"
      then show "parse_ok s (Suc n) i (length s - i + 1)
          (case (c', k') of (ret, ps) \<Rightarrow> exec_loop n s ret (argc + 1) ps)"
        using lt pd(1) by simp (rule parse_ok_mono [OF Suc.IH], auto)
    qed (use lt pd gd(2) in auto)
    then show ?thesis
      using True by (auto simp: p g Let_def intro!: parse_okIs)
  qed (use p g pd gd Suc.prems in \<open>auto intro!: parse_okIs\<close>)
qed (simp add: parse_okI_fuel)

lemma amp_loop_ok:
  "i \<le> length s \<Longrightarrow> words_ok s c \<Longrightarrow> parse_ok s n i (length s - i + 1) (amp_loop n s c i)"
proof (induction n arbitrary: c i)
  case (Suc n)
  obtain b j where p: "peek s i ''&'' = (b, j)" by fastforce
  note pd = peekD [OF p Suc.prems(1)]
  obtain t q e k where g: "gettoken s j = (t, q, e, k)" by (metis prod_cases4)
  note gd = gettokenD [OF g pd(2)]
  show ?case
  proof (cases b)
    case True
    then have "j < k" using gd(4) pd by simp
    then have "parse_ok s (Suc n) i (length s - i + 1) (amp_loop n s (backcmd c) k)"
      using Suc.prems pd(1) gd(2) by (intro parse_ok_mono [OF Suc.IH]) auto
    then show ?thesis using True by (simp add: p g)
  qed (use p pd Suc.prems in \<open>auto intro!: parse_okIs\<close>)
qed (simp add: parse_okI_fuel)

lemma parsers_ok:
  assumes "i \<le> length s"
  shows "parse_ok s n i (4 * (length s - i) + 4) (parseline n s i)"
    and "parse_ok s n i (4 * (length s - i) + 3) (parsepipe n s i)"
    and "parse_ok s n i (4 * (length s - i) + 2) (parseexec n s i)"
    and "parse_ok s n i (4 * (length s - i) + 1) (parseblock n s i)"
  using assms
proof (induction n arbitrary: i)
  case (Suc n)
  {
    case 1
    show ?case
      unfolding parseline.simps
    proof (rule parse_ok_bind [OF Suc.IH(2) [OF 1]], simp, unfold prod.case, rule parse_ok_bind [OF amp_loop_ok])
      fix c1 k1 c2 k2
      assume k: "i \<le> k1" "k1 \<le> length s" "k1 \<le> k2" "k2 \<le> length s" and w: "words_ok s c2"
      obtain b j where p: "peek s k2 '';'' = (b, j)" by fastforce
      note pd = peekD [OF p k(4)]
      obtain t q e l where g: "gettoken s j = (t, q, e, l)" by (metis prod_cases4)
      note gd = gettokenD [OF g pd(2)]
      show "parse_ok s (Suc n) i (4 * (length s - i) + 4)
        (case (c2, k2) of (cmd, ps) \<Rightarrow> case peek s ps '';'' of (hit, ps) \<Rightarrow>
          if hit then case gettoken s ps of (_, _, _, ps) \<Rightarrow>
            bindE (parseline n s ps) (\<lambda>(right, ps). Inr (listcmd cmd right, ps)) else Inr (cmd, ps))"
      proof (cases b)
        case True
        then have "j < l" using gd(4) pd by simp
        then show ?thesis
          using True k pd(1) gd(2) w
          by (simp add: p g) (rule parse_ok_bind [OF Suc.IH(1)], auto intro!: parse_okI)
      qed (use p pd k w in \<open>auto intro!: parse_okI\<close>)
    qed (use 1 in auto)
  next
    case 2
    show ?case
      unfolding parsepipe.simps
    proof (rule parse_ok_bind [OF Suc.IH(3) [OF 2]], simp)
      fix c2 k2
      assume k: "i \<le> k2" "k2 \<le> length s" and w: "words_ok s c2"
      obtain b j where p: "peek s k2 ''|'' = (b, j)" by fastforce
      note pd = peekD [OF p k(2)]
      obtain t q e l where g: "gettoken s j = (t, q, e, l)" by (metis prod_cases4)
      note gd = gettokenD [OF g pd(2)]
      show "parse_ok s (Suc n) i (4 * (length s - i) + 3)
        (case (c2, k2) of (cmd, ps) \<Rightarrow> case peek s ps ''|'' of (hit, ps) \<Rightarrow>
          if hit then case gettoken s ps of (_, _, _, ps) \<Rightarrow>
            bindE (parsepipe n s ps) (\<lambda>(right, ps). Inr (pipecmd cmd right, ps)) else Inr (cmd, ps))"
      proof (cases b)
        case True
        then have "j < l" using gd(4) pd by simp
        then show ?thesis
          using True k pd(1) gd(2) w
          by (simp add: p g) (rule parse_ok_bind [OF Suc.IH(2)], auto intro!: parse_okI)
      qed (use p pd k w in \<open>auto intro!: parse_okI\<close>)
    qed
  next
    case 3
    obtain b j where p: "peek s i ''('' = (b, j)" by fastforce
    note pd = peekD [OF p 3]
    show ?case
    proof (cases b)
      case True
      have "parse_ok s (Suc n) i (4 * (length s - i) + 2) (parseblock n s j)"
        using pd by (intro parse_ok_mono [OF Suc.IH(4)]) auto
      then show ?thesis using True by (simp add: p)
    next
      case False
      have "parse_ok s (Suc n) i (4 * (length s - i) + 2)
          (bindE (parseredirs n s execcmd j) (\<lambda>(ret, ps). exec_loop n s ret 0 ps))"
        using pd by (intro parse_ok_bind [OF parseredirs_ok])
          (auto intro!: parse_ok_mono [OF exec_loop_ok])
      then show ?thesis using False by (simp add: p)
    qed
  next
    case 4
    obtain b j where p: "peek s i ''('' = (b, j)" by fastforce
    note pd = peekD [OF p 4]
    obtain t q e l where g: "gettoken s j = (t, q, e, l)" by (metis prod_cases4)
    note gd = gettokenD [OF g pd(2)]
    show ?case
    proof (cases b)
      case True
      then have lt: "j < l" using gd(4) pd by simp
      have "parse_ok s (Suc n) i (4 * (length s - i) + 1)
        (bindE (parseline n s l) (\<lambda>(cmd, ps). case peek s ps '')'' of (close, ps) \<Rightarrow>
           if \<not> close then Inl (ShPanic ''syntax - missing )'')
           else (case gettoken s ps of (_, _, _, ps) \<Rightarrow> parseredirs n s cmd ps)))"
      proof (rule parse_ok_bind [OF Suc.IH(1) [OF gd(2)]])
        fix c k assume k: "l \<le> k" "k \<le> length s" and w: "words_ok s c"
        obtain b' j' where p': "peek s k '')'' = (b', j')" by fastforce
        note pd' = peekD [OF p' k(2)]
        obtain t' q' e' l' where g': "gettoken s j' = (t', q', e', l')" by (metis prod_cases4)
        note gd' = gettokenD [OF g' pd'(2)]
        have "parse_ok s (Suc n) i (4 * (length s - i) + 1) (parseredirs n s c l')"
          using k lt pd pd'(1) gd' w by (intro parse_ok_mono [OF parseredirs_ok]) auto
        then show "parse_ok s (Suc n) i (4 * (length s - i) + 1)
          (case (c, k) of (cmd, ps) \<Rightarrow> case peek s ps '')'' of (close, ps) \<Rightarrow>
             if \<not> close then Inl (ShPanic ''syntax - missing )'')
             else (case gettoken s ps of (_, _, _, ps) \<Rightarrow> parseredirs n s cmd ps))"
          by (auto simp: p' g' intro!: parse_okIs)
      qed (use lt pd gd in auto)
      then show ?thesis using True by (simp add: p g)
    qed (use p in \<open>auto intro!: parse_okIs\<close>)
  }
qed (simp_all add: parse_okI_fuel)

section \<open>Printing and parsing\<close>

text \<open>A command tree with its words, and what a parsed command denotes over the NUL-terminated line.\<close>

datatype scmd =
    SExec "string list"
  | SRedir scmd string int int
  | SPipe scmd scmd
  | SList scmd scmd
  | SBack scmd

fun resolve :: "string \<Rightarrow> cmd \<Rightarrow> scmd" where
  "resolve buf (EXEC args) = SExec (map (\<lambda>x. cstr_at buf (fst x)) args)"
| "resolve buf (REDIR c x m d) = SRedir (resolve buf c) (cstr_at buf (fst x)) m d"
| "resolve buf (PIPE l r) = SPipe (resolve buf l) (resolve buf r)"
| "resolve buf (LIST l r) = SList (resolve buf l) (resolve buf r)"
| "resolve buf (BACK c) = SBack (resolve buf c)"

text \<open>The concrete syntax: a block is parenthesised where its level asks for a tighter construct.\<close>

definition paren :: "bool \<Rightarrow> string \<Rightarrow> string" where
  "paren b x = (if b then ''('' @ x @ '')'' else x)"

fun pr :: "nat \<Rightarrow> scmd \<Rightarrow> string" where
  "pr k (SExec ws) = concat (map (\<lambda>w. CHR '' '' # w) ws)"
| "pr k (SRedir a f m d) = pr 3 a @ (if d = 0 then CHR ''<'' else CHR ''>'') # CHR '' '' # f"
| "pr k (SPipe l r) = paren (2 < k) (pr 3 l @ ''|'' @ pr 2 r)"
| "pr k (SBack a) = paren (1 < k) (pr 1 a @ ''&'')"
| "pr k (SList l r) = paren (0 < k) (pr 1 l @ '';'' @ pr 0 r)"

definition word_ok :: "string \<Rightarrow> bool" where
  "word_ok w \<longleftrightarrow> w \<noteq> [] \<and> (\<forall>c\<in>set w. wordch c \<and> c \<noteq> NUL)"

fun scmd_ok :: "scmd \<Rightarrow> bool" where
  "scmd_ok (SExec ws) \<longleftrightarrow> length ws < MAXARGS \<and> list_all word_ok ws"
| "scmd_ok (SRedir a f m d) \<longleftrightarrow>
     scmd_ok a \<and> word_ok f \<and> (d = 0 \<and> m = O_RDONLY \<or> d = 1 \<and> m = or O_WRONLY O_CREATE)"
| "scmd_ok (SPipe l r) \<longleftrightarrow> scmd_ok l \<and> scmd_ok r"
| "scmd_ok (SList l r) \<longleftrightarrow> scmd_ok l \<and> scmd_ok r"
| "scmd_ok (SBack a) \<longleftrightarrow> scmd_ok a"

subsection \<open>NUL-termination delimits the words\<close>

definition slice_of :: "string \<Rightarrow> span \<Rightarrow> string" where
  "slice_of s x = take (snd x - fst x) (drop (fst x) s)"

fun tree :: "string \<Rightarrow> cmd \<Rightarrow> scmd" where
  "tree s (EXEC args) = SExec (map (slice_of s) args)"
| "tree s (REDIR c x m d) = SRedir (tree s c) (slice_of s x) m d"
| "tree s (PIPE l r) = SPipe (tree s l) (tree s r)"
| "tree s (LIST l r) = SList (tree s l) (tree s r)"
| "tree s (BACK c) = SBack (tree s c)"

lemma nulterminate_length [simp]: "length (nulterminate c buf) = length buf"
proof (induction c buf rule: nulterminate.induct)
  case (1 args buf)
  show ?case
    by (induction args arbitrary: buf) auto
qed auto

lemma nulterminate_nth:
  "k < length buf \<Longrightarrow> nulterminate c buf ! k = (if k \<in> snd ` spans c then NUL else buf ! k)"
proof (induction c buf rule: nulterminate.induct)
  case (1 args buf)
  have len: "length (fold (\<lambda>(q, eq) buf. buf[eq := NUL]) xs b) = length b" for xs :: "span list" and b
    by (induction xs arbitrary: b) auto
  have "fold (\<lambda>(q, eq) buf. buf[eq := NUL]) xs b ! k = (if k \<in> snd ` set xs then NUL else b ! k)"
    if "k < length b" for xs :: "span list" and b
    using that
  proof (induction xs rule: rev_induct)
    case (snoc x xs)
    then show ?case
      by (cases x; cases "snd x = k") (simp_all add: len)
  qed simp
  then show ?case
    using 1 by simp
next
  case (2 c f efile m d buf)
  then show ?case
    by (cases "efile = k") simp_all
qed (simp_all add: image_Un)

lemma cstr_at_span:
  assumes w: "words_ok s c" and x: "x \<in> spans c" and nul: "NUL \<notin> set s"
  shows "cstr_at (nulterminate c (s @ [NUL])) (fst x) = slice_of s x"
proof -
  define buf where "buf = nulterminate c (s @ [NUL])"
  have sx: "span_ok s x"
    using w x by (simp add: words_ok_def)
  have len: "length buf = length s + 1"
    by (simp add: buf_def)
  have stop: "buf ! snd x = NUL"
    using nulterminate_nth [of "snd x" "s @ [NUL]" c] x sx by (auto simp: buf_def span_ok_def)
  have keep: "buf ! k = s ! k \<and> s ! k \<noteq> NUL" if k: "fst x \<le> k" "k < snd x" for k
  proof -
    have kl: "k < length s" and "wordch (s ! k)"
      using sx k by (auto simp: span_ok_def)
    then have "k \<notin> snd ` spans c"
      using w by (auto simp: words_ok_def span_ok_def)
    moreover have "s ! k \<noteq> NUL"
      using nul nth_mem [OF kl] by metis
    ultimately show ?thesis
      using nulterminate_nth [of k "s @ [NUL]" c] kl by (simp add: buf_def nth_append)
  qed
  have "drop (fst x) buf = slice_of s x @ NUL # drop (Suc (snd x)) buf"
  proof -
    have "take (snd x - fst x) (drop (fst x) buf) = slice_of s x"
      using sx len keep by (intro nth_equalityI) (auto simp: slice_of_def span_ok_def)
    moreover have "drop (snd x - fst x) (drop (fst x) buf) = NUL # drop (Suc (snd x)) buf"
      using sx len stop Cons_nth_drop_Suc [of "snd x" buf] by (auto simp: span_ok_def)
    ultimately show ?thesis
      by (metis append_take_drop_id)
  qed
  moreover have "c \<noteq> NUL" if "c \<in> set (slice_of s x)" for c
    using nul that by (auto simp: slice_of_def dest: in_set_takeD in_set_dropD)
  ultimately show ?thesis
    by (simp add: cstr_at_def buf_def [symmetric] takeWhile_append2)
qed

lemma resolve_tree_aux:
  "(\<forall>x\<in>spans c. cstr_at buf (fst x) = slice_of s x) \<Longrightarrow> resolve buf c = tree s c"
  by (induction c) auto

lemma resolve_tree:
  "words_ok s c \<Longrightarrow> NUL \<notin> set s \<Longrightarrow> resolve (nulterminate c (s @ [NUL])) c = tree s c"
  by (rule resolve_tree_aux) (auto intro: cstr_at_span)

subsection \<open>Tokens at a known position\<close>

definition ends :: "string \<Rightarrow> string \<Rightarrow> bool" where
  "ends F post \<longleftrightarrow> set post \<subseteq> set whitespace \<or> post \<noteq> [] \<and> hd post \<in> set F"

lemma ends_mono: "ends F post \<Longrightarrow> set F \<subseteq> set G \<Longrightarrow> ends G post"
  by (auto simp: ends_def)

lemma ends_Cons [simp]: "c \<in> set F \<Longrightarrow> ends F (c # post)"
  by (simp add: ends_def)

lemma symbols_simps [simp]: "set symbols \<inter> set whitespace = {}" "NUL \<notin> set symbols" "NUL \<notin> set whitespace"
  "CHR '' '' \<in> set whitespace" "CHR '' '' \<notin> set symbols"
  by (auto simp: symbols_def whitespace_def)

lemma symbolD: "c \<in> set symbols \<Longrightarrow> c \<notin> set whitespace \<and> c \<noteq> NUL"
  by (auto simp: symbols_def whitespace_def)

lemma skip_ws_space: "drop i s = CHR '' '' # rest \<Longrightarrow> skip_ws s i = skip_ws s (i + 1)"
  using drop_Suc [of i s] by (simp add: skip_ws_def skip_def drop_Suc flip: tl_drop)

lemma skip_ws_at: "drop i s = c # rest \<Longrightarrow> c \<notin> set whitespace \<Longrightarrow> skip_ws s i = i"
  by (simp add: skip_ws_def skip_def)

lemma skip_ws_end:
  assumes "set (drop i s) \<subseteq> set whitespace" "i \<le> length s"
  shows "skip_ws s i = length s"
proof -
  have "takeWhile (in_str whitespace) (drop i s) = drop i s"
    using assms(1) by (auto simp: takeWhile_eq_all_conv)
  then show ?thesis
    using assms(2) by (simp add: skip_ws_def skip_def del: in_str_set takeWhile_eq_all_conv)
qed

lemma ch_at: "drop i s = c # rest \<Longrightarrow> ch s i = c"
  using hd_drop_conv_nth [of i s] by (cases "i < length s") (auto simp: ch_def)

lemma ch_end [simp]: "ch s (length s) = NUL"
  by (simp add: ch_def)

lemma drop_app: "drop i s = x @ post \<Longrightarrow> drop (i + length x) s = post"
  by (metis add.commute append_eq_conv_conj drop_drop)

lemma drop_1: "drop i s = c # post \<Longrightarrow> drop (i + 1) s = post"
  using drop_app [of i s "[c]" post] by simp

lemma drop_len: "drop i s = c # post \<Longrightarrow> i < length s"
  by (rule ccontr) simp

lemma peek_skip [simp]: "peek s (skip_ws s i) toks = peek s i toks"
  by (simp add: peek_def)

lemma gettoken_skip [simp]: "gettoken s (skip_ws s i) = gettoken s i"
  by (simp add: gettoken_def)

lemma peek_at: "drop i s = c # rest \<Longrightarrow> c \<in> set symbols \<Longrightarrow> peek s i toks = (c \<in> set toks, i)"
  using symbolD [of c] by (auto simp: peek_def skip_ws_at ch_at)

lemma peek_end: "set (drop i s) \<subseteq> set whitespace \<Longrightarrow> i \<le> length s \<Longrightarrow> peek s i toks = (False, length s)"
  by (simp add: peek_def skip_ws_end)

lemma peek_ends:
  assumes "ends F (drop i s)" "set F \<subseteq> set symbols" "set F \<inter> set toks = {}" "i \<le> length s"
  shows "peek s i toks = (False, skip_ws s i)"
proof (cases "set (drop i s) \<subseteq> set whitespace")
  case False
  then obtain c rest where c: "drop i s = c # rest" "c \<in> set F"
    using assms(1) by (cases "drop i s") (auto simp: ends_def)
  moreover have "c \<notin> set whitespace"
    using c(2) assms(2) by (auto dest: symbolD)
  moreover have "c \<in> set symbols" "c \<notin> set toks"
    using c(2) assms(2,3) by auto
  ultimately show ?thesis
    by (simp add: peek_at skip_ws_at)
qed (simp add: peek_end skip_ws_end assms(4))

lemma gettoken_sym:
  assumes "drop i s = c # rest" "c \<in> set symbols" "c = CHR ''>'' \<Longrightarrow> hd rest \<noteq> CHR ''>''"
    "c = CHR ''>'' \<Longrightarrow> rest \<noteq> []"
  shows "gettoken s i = (c, i, i + 1, skip_ws s (i + 1))"
proof -
  have "c \<notin> set whitespace"
    using assms(2) by (auto dest: symbolD)
  then have "skip_ws s i = i" "ch s i = c"
    using assms(1) by (auto simp: skip_ws_at ch_at)
  moreover have "c = CHR ''>'' \<Longrightarrow> ch s (i + 1) \<noteq> CHR ''>''"
    using assms(3,4) ch_at [of "i + 1" s "hd rest" "tl rest"] drop_1 [OF assms(1)] by auto
  ultimately show ?thesis
    using assms(2) by (auto simp: gettoken_def Let_def symbols_iff)
qed

lemma word_start:
  assumes "drop i s = CHR '' '' # w @ post" "word_ok w"
  shows "skip_ws s i = i + 1" and "ch s (i + 1) = hd w" and "wordch (hd w)" and "hd w \<noteq> NUL"
proof -
  obtain c w' where w: "w = c # w'" "wordch c" "c \<noteq> NUL"
    using assms(2) by (cases w) (auto simp: word_ok_def)
  have d: "drop (i + 1) s = c # w' @ post"
    using drop_1 [OF assms(1)] w by simp
  show "ch s (i + 1) = hd w" "wordch (hd w)" "hd w \<noteq> NUL"
    using w ch_at [OF d] by auto
  show "skip_ws s i = i + 1"
    using skip_ws_space [OF assms(1)] skip_ws_at [OF d] w(2) by (simp add: wordch_def)
qed

lemma peek_word:
  assumes "drop i s = CHR '' '' # w @ post" "word_ok w" "set toks \<subseteq> set symbols"
  shows "peek s i toks = (False, i + 1)"
  using word_start [OF assms(1,2)] assms(3) by (auto simp: peek_def wordch_def)

lemma gettoken_word:
  assumes d: "drop i s = CHR '' '' # w @ post" and w: "word_ok w" and e: "post = [] \<or> \<not> wordch (hd post)"
  shows "gettoken s i = (CHR ''a'', i + 1, i + 1 + length w, skip_ws s (i + 1 + length w))"
proof -
  note ws = word_start [OF d w]
  have "takeWhile wordch (w @ post) = w"
    using w e by (cases post) (auto simp: word_ok_def takeWhile_append)
  then have "skip wordch s (i + 1) = i + 1 + length w"
    using drop_1 [OF d] by (simp add: skip_def)
  moreover have "hd w \<notin> set symbols"
    using ws(3) by (simp add: wordch_def)
  ultimately show ?thesis
    using ws by (auto simp: gettoken_def Let_def symbols_iff)
qed

lemma slice_word:
  "drop i s = CHR '' '' # w @ post \<Longrightarrow> slice_of s (i + 1, i + 1 + length w) = w"
  using drop_1 [of i s "CHR '' ''" "w @ post"] by (simp add: slice_of_def)

subsection \<open>Each construct is parsed back\<close>

text \<open>
  For a text \<open>x\<close> that prints \<open>a\<close>, each predicate says what its parser does on \<open>x\<close> in a context: either the
  fuel runs out, or it consumes \<open>x\<close> and yields \<open>a\<close>. \<open>good1\<close> and \<open>goodE\<close> leave the \<open>&\<close> and redirection loops open.
\<close>

definition yields :: "string \<Rightarrow> scmd \<Rightarrow> nat \<Rightarrow> sherr + (cmd \<times> nat) \<Rightarrow> bool" where
  "yields s a j r \<longleftrightarrow> r = Inl ShFuel \<or> (\<exists>c. r = Inr (c, skip_ws s j) \<and> tree s c = a)"

definition good0 :: "scmd \<Rightarrow> string \<Rightarrow> bool" where
  "good0 a x \<longleftrightarrow> (\<forall>s i post n. drop i s = x @ post \<longrightarrow> i \<le> length s \<longrightarrow> ends '')'' post \<longrightarrow>
     yields s a (i + length x) (parseline n s i))"

definition pipeamp :: "nat \<Rightarrow> string \<Rightarrow> nat \<Rightarrow> sherr + (cmd \<times> nat)" where
  "pipeamp n s i = bindE (parsepipe n s i) (\<lambda>(c, j). amp_loop n s c j)"

definition good1 :: "scmd \<Rightarrow> string \<Rightarrow> bool" where
  "good1 a x \<longleftrightarrow> (\<forall>s i post n. drop i s = x @ post \<longrightarrow> i \<le> length s \<longrightarrow> ends ''&;)'' post \<longrightarrow>
     pipeamp n s i = Inl ShFuel \<or>
     (\<exists>m c. pipeamp n s i = amp_loop m s c (skip_ws s (i + length x)) \<and> tree s c = a))"

definition good2 :: "scmd \<Rightarrow> string \<Rightarrow> bool" where
  "good2 a x \<longleftrightarrow> (\<forall>s i post n. drop i s = x @ post \<longrightarrow> i \<le> length s \<longrightarrow> ends ''&;)'' post \<longrightarrow>
     yields s a (i + length x) (parsepipe n s i))"

definition fin_ok :: "string \<Rightarrow> (cmd \<times> nat \<Rightarrow> sherr + (cmd \<times> nat)) \<Rightarrow> bool" where
  "fin_ok s fin \<longleftrightarrow> (\<forall>c j. j \<le> length s \<longrightarrow> ends ''|&;)'' (drop j s) \<longrightarrow>
     fin (c, skip_ws s j) = Inl ShFuel \<or> fin (c, skip_ws s j) = Inr (c, skip_ws s j))"

definition goodE :: "scmd \<Rightarrow> string \<Rightarrow> bool" where
  "goodE a x \<longleftrightarrow> (\<forall>s i post n. drop i s = x @ post \<longrightarrow> i \<le> length s \<longrightarrow> ends ''<>|&;)'' post \<longrightarrow>
     parseexec n s i = Inl ShFuel \<or>
     (\<exists>m c fin. parseexec n s i = bindE (parseredirs m s c (skip_ws s (i + length x))) fin \<and> tree s c = a \<and> fin_ok s fin))"

lemma drop_pos: "drop i s = x @ post \<Longrightarrow> i \<le> length s \<Longrightarrow> i + length x \<le> length s"
  by (metis diff_is_0_eq drop_eq_Nil2 le_add_diff_inverse length_append length_drop nat_add_left_cancel_le
      le_add1)

lemma start_skip [simp]:
  "parseredirs n s c (skip_ws s i) = parseredirs n s c i"
  "amp_loop n s c (skip_ws s i) = amp_loop n s c i"
  "parseexec n s (skip_ws s i) = parseexec n s i"
  "parsepipe n s (skip_ws s i) = parsepipe n s i"
  "parseline n s (skip_ws s i) = parseline n s i"
proof -
  show "parseredirs n s c (skip_ws s i) = parseredirs n s c i" "amp_loop n s c (skip_ws s i) = amp_loop n s c i"
    by (cases n; simp)+
  show e: "parseexec n s (skip_ws s i) = parseexec n s i" for n
    by (cases n) simp_all
  show p: "parsepipe n s (skip_ws s i) = parsepipe n s i" for n
    by (cases n) (simp_all add: e)
  show "parseline n s (skip_ws s i) = parseline n s i"
    by (cases n) (simp_all add: p)
qed

lemma redirs_stop:
  assumes "ends ''|&;)'' (drop j s)" "j \<le> length s"
  shows "parseredirs n s c j = Inl ShFuel \<or> parseredirs n s c j = Inr (c, skip_ws s j)"
  using peek_ends [OF assms(1) _ _ assms(2), of "''<>''"] by (cases n) (auto simp: symbols_def)

lemma exec_loop_fin: "fin_ok s (\<lambda>(ret, ps). exec_loop n s ret argc ps)"
  unfolding fin_ok_def
proof (intro allI impI)
  fix c j assume j: "j \<le> length s" "ends ''|&;)'' (drop j s)"
  show "(case (c, skip_ws s j) of (ret, ps) \<Rightarrow> exec_loop n s ret argc ps) = Inl ShFuel \<or>
    (case (c, skip_ws s j) of (ret, ps) \<Rightarrow> exec_loop n s ret argc ps) = Inr (c, skip_ws s j)"
  proof (cases "set (drop j s) \<subseteq> set whitespace")
    case True
    have "gettoken s (length s) = (NUL, length s, length s, length s)"
      by (simp add: gettoken_def skip_ws_end Let_def)
    then show ?thesis
      using peek_end [of "length s" s] skip_ws_end [OF True j(1)] by (cases n) (simp_all add: Let_def)
  next
    case False
    then obtain x rest where x: "drop j s = x # rest" "x \<in> set ''|&;)''"
      using j(2) by (cases "drop j s") (auto simp: ends_def)
    then have sym: "x \<in> set symbols" by (auto simp: symbols_def)
    then have "skip_ws s j = j"
      using x(1) by (auto simp: skip_ws_at dest: symbolD)
    then show ?thesis
      using peek_at [OF x(1) sym, of "''|)&;''"] x(2) by (cases n) auto
  qed
qed

lemma goodE_exec:
  assumes "goodE a x" "drop i s = x @ post" "i \<le> length s" "ends ''|&;)'' post"
  shows "yields s a (i + length x) (parseexec n s i)"
proof -
  have j: "ends ''|&;)'' (drop (i + length x) s)" "i + length x \<le> length s"
    using assms(2-4) drop_app drop_pos by metis+
  have "ends ''<>|&;)'' post"
    using assms(4) by (rule ends_mono) auto
  then show ?thesis
    using assms(1-3) redirs_stop [OF j] j unfolding goodE_def fin_ok_def yields_def
    by (metis bindE.simps start_skip(1))
qed

lemma goodE_good2:
  assumes "goodE a x"
  shows "good2 a x"
  unfolding good2_def
proof (intro allI impI)
  fix s i post n
  assume d: "drop i s = x @ post" and i: "i \<le> length s" and e: "ends ''&;)'' post"
  have j: "drop (i + length x) s = post" "i + length x \<le> length s"
    using d i drop_app drop_pos by metis+
  have p: "peek s (i + length x) ''|'' = (False, skip_ws s (i + length x))"
    using j e by (intro peek_ends [of "''&;)''"]) (auto simp: symbols_def)
  show "yields s a (i + length x) (parsepipe n s i)"
  proof (cases n)
    case (Suc m)
    have "yields s a (i + length x) (parseexec m s i)"
      using goodE_exec [OF assms d i] ends_mono [OF e] by auto
    then show ?thesis
      using p by (auto simp: Suc yields_def)
  qed (simp add: yields_def)
qed

lemma good2_good1:
  assumes "good2 a x"
  shows "good1 a x"
  unfolding good1_def
proof (intro allI impI)
  fix s i post n
  assume "drop i s = x @ post" "i \<le> length s" "ends ''&;)'' post"
  then have "yields s a (i + length x) (parsepipe n s i)"
    using assms unfolding good2_def by blast
  then show "pipeamp n s i = Inl ShFuel \<or>
      (\<exists>m c. pipeamp n s i = amp_loop m s c (skip_ws s (i + length x)) \<and> tree s c = a)"
    unfolding yields_def pipeamp_def by (auto simp del: ex_simps) blast
qed

lemma amp_stop:
  assumes "ends '';)'' (drop j s)" "j \<le> length s"
  shows "amp_loop m s c j = Inl ShFuel \<or> amp_loop m s c j = Inr (c, skip_ws s j)"
  using peek_ends [OF assms(1) _ _ assms(2), of "''&''"] by (cases m) (auto simp: symbols_def)

lemma good1_stop:
  assumes "good1 a x" "drop i s = x @ post" "i \<le> length s" "ends '';)'' post"
  shows "yields s a (i + length x) (pipeamp n s i)"
proof -
  have "ends '';)'' (drop (i + length x) s)" "i + length x \<le> length s"
    using assms(2-4) drop_app drop_pos by metis+
  moreover have "ends ''&;)'' post"
    using assms(4) by (rule ends_mono) auto
  ultimately show ?thesis
    using assms(1-3) amp_stop unfolding good1_def yields_def by (metis start_skip(2))
qed

lemma parseline_Suc:
  "parseline (Suc n) s i = bindE (pipeamp n s i) (\<lambda>(cmd, ps). case peek s ps '';'' of (hit, ps) \<Rightarrow>
     if hit then (case gettoken s ps of (_, _, _, ps) \<Rightarrow>
       bindE (parseline n s ps) (\<lambda>(right, ps). Inr (listcmd cmd right, ps)))
     else Inr (cmd, ps))"
  by (simp add: pipeamp_def bindE_assoc split_def)

lemma good1_good0:
  assumes "good1 a x"
  shows "good0 a x"
  unfolding good0_def
proof (intro allI impI)
  fix s i post n
  assume d: "drop i s = x @ post" and i: "i \<le> length s" and e: "ends '')'' post"
  have j: "drop (i + length x) s = post" "i + length x \<le> length s"
    using d i drop_app drop_pos by metis+
  have p: "peek s (i + length x) '';'' = (False, skip_ws s (i + length x))"
    using j e by (intro peek_ends [of "'')''"]) (auto simp: symbols_def)
  show "yields s a (i + length x) (parseline n s i)"
  proof (cases n)
    case (Suc m)
    have "yields s a (i + length x) (pipeamp m s i)"
      using good1_stop [OF assms d i] ends_mono [OF e] by auto
    then show ?thesis
      using p unfolding Suc parseline_Suc by (auto simp: yields_def)
  qed (simp add: yields_def)
qed

lemma good_pipe:
  assumes "goodE l x" "good2 r y"
  shows "good2 (SPipe l r) (x @ ''|'' @ y)"
  unfolding good2_def
proof (intro allI impI)
  fix s i post n
  assume d: "drop i s = (x @ ''|'' @ y) @ post" and i: "i \<le> length s" and e: "ends ''&;)'' post"
  define j where "j = i + length x"
  have dj: "drop j s = CHR ''|'' # y @ post"
    using drop_app [of i s x] d by (simp add: j_def)
  have dk: "drop (j + 1) s = y @ post" "j + 1 \<le> length s"
    using drop_1 [OF dj] drop_len [OF dj] by auto
  have p: "peek s j ''|'' = (True, j)" "gettoken s j = (CHR ''|'', j, j + 1, skip_ws s (j + 1))"
    using peek_at [OF dj] gettoken_sym [OF dj] by (auto simp: symbols_def)
  show "yields s (SPipe l r) (i + length (x @ ''|'' @ y)) (parsepipe n s i)"
  proof (cases n)
    case (Suc m)
    have "yields s l j (parseexec m s i)"
      using goodE_exec [OF assms(1) _ i] d by (auto simp: j_def)
    moreover have "yields s r (j + 1 + length y) (parsepipe m s (j + 1))"
      using assms(2) dk e unfolding good2_def by blast
    ultimately show ?thesis
      using p by (auto simp: Suc yields_def j_def pipecmd_def add.assoc)
  qed (simp add: yields_def)
qed

lemma good_list:
  assumes "good1 l x" "good0 r y"
  shows "good0 (SList l r) (x @ '';'' @ y)"
  unfolding good0_def
proof (intro allI impI)
  fix s i post n
  assume d: "drop i s = (x @ '';'' @ y) @ post" and i: "i \<le> length s" and e: "ends '')'' post"
  define j where "j = i + length x"
  have dj: "drop j s = CHR '';'' # y @ post"
    using drop_app [of i s x] d by (simp add: j_def)
  have dk: "drop (j + 1) s = y @ post" "j + 1 \<le> length s"
    using drop_1 [OF dj] drop_len [OF dj] by auto
  have p: "peek s j '';'' = (True, j)" "gettoken s j = (CHR '';'', j, j + 1, skip_ws s (j + 1))"
    using peek_at [OF dj] gettoken_sym [OF dj] by (auto simp: symbols_def)
  show "yields s (SList l r) (i + length (x @ '';'' @ y)) (parseline n s i)"
  proof (cases n)
    case (Suc m)
    have "yields s l j (pipeamp m s i)"
      using good1_stop [OF assms(1) _ i] d by (auto simp: j_def)
    moreover have "yields s r (j + 1 + length y) (parseline m s (j + 1))"
      using assms(2) dk e unfolding good0_def by blast
    ultimately show ?thesis
      using p unfolding Suc parseline_Suc by (auto simp: yields_def j_def listcmd_def add.assoc)
  qed (simp add: yields_def)
qed

lemma good_back:
  assumes "good1 a x"
  shows "good1 (SBack a) (x @ ''&'')"
  unfolding good1_def
proof (intro allI impI)
  fix s i post n
  assume d: "drop i s = (x @ ''&'') @ post" and i: "i \<le> length s" and e: "ends ''&;)'' post"
  define j where "j = i + length x"
  have dj: "drop j s = CHR ''&'' # post"
    using drop_app [of i s x] d by (simp add: j_def)
  have p: "peek s j ''&'' = (True, j)" "gettoken s j = (CHR ''&'', j, j + 1, skip_ws s (j + 1))"
    using peek_at [OF dj] gettoken_sym [OF dj] by (auto simp: symbols_def)
  have step: "amp_loop m s c j = Inl ShFuel \<or> (\<exists>m'. amp_loop m s c j = amp_loop m' s (BACK c) (j + 1))" for m c
    using p by (cases m) (auto simp: backcmd_def)
  have "pipeamp n s i = Inl ShFuel \<or> (\<exists>m c. pipeamp n s i = amp_loop m s c j \<and> tree s c = a)"
    using assms d i unfolding good1_def j_def start_skip by auto
  then show "pipeamp n s i = Inl ShFuel \<or> (\<exists>m c. pipeamp n s i =
      amp_loop m s c (skip_ws s (i + length (x @ ''&''))) \<and> tree s c = SBack a)"
    unfolding start_skip using step by (metis add.assoc j_def length_append list.size(3,4) tree.simps(5)
        One_nat_def add_0 plus_1_eq_Suc)
qed

lemma good_paren:
  assumes "good0 a x"
  shows "goodE a (''('' @ x @ '')'')"
  unfolding goodE_def
proof (intro allI impI)
  fix s i post n
  assume d: "drop i s = (''('' @ x @ '')'') @ post" and i: "i \<le> length s" and e: "ends ''<>|&;)'' post"
  define j where "j = i + 1 + length x"
  have di: "drop i s = CHR ''('' # x @ '')'' @ post"
    using d by simp
  have d1: "drop (i + 1) s = x @ '')'' @ post" "i + 1 \<le> length s"
    using drop_1 [OF di] drop_len [OF di] by auto
  have dj: "drop j s = CHR '')'' # post"
    using drop_app [OF d1(1)] by (simp add: j_def)
  have p: "peek s i ''('' = (True, i)" "gettoken s i = (CHR ''('', i, i + 1, skip_ws s (i + 1))"
    "peek s j '')'' = (True, j)" "gettoken s j = (CHR '')'', j, j + 1, skip_ws s (j + 1))"
    using peek_at [OF di] gettoken_sym [OF di] peek_at [OF dj] gettoken_sym [OF dj] by (auto simp: symbols_def)
  have fin: "fin_ok s Inr"
    by (simp add: fin_ok_def)
  have bind: "bindE r Inr = r" for r :: "sherr + (cmd \<times> nat)"
    by (cases r) auto
  have line: "yields s a j (parseline m s (i + 1))" for m
    using assms [unfolded good0_def, rule_format, OF d1] by (simp add: j_def)
  have "parseexec n s i = Inl ShFuel \<or>
      (\<exists>m c. parseexec n s i = parseredirs m s c (j + 1) \<and> tree s c = a)"
  proof (cases "\<exists>m. n = Suc (Suc m)")
    case True
    then obtain m where n: "n = Suc (Suc m)" by blast
    show ?thesis
      using line [of m] p by (auto simp: n yields_def) blast
  next
    case False
    then have "n = 0 \<or> n = Suc 0"
      by (metis not0_implies_Suc)
    then show ?thesis
      using p by auto
  qed
  moreover have "j + 1 = i + length (''('' @ x @ '')'')"
    by (simp add: j_def)
  ultimately show "parseexec n s i = Inl ShFuel \<or> (\<exists>m c fin. parseexec n s i =
      bindE (parseredirs m s c (skip_ws s (i + length (''('' @ x @ '')'')))) fin \<and> tree s c = a \<and> fin_ok s fin)"
    using fin bind start_skip(1) by metis
qed

lemma good_redir:
  assumes "goodE a x" "word_ok f" "d = 0 \<and> m = O_RDONLY \<or> d = 1 \<and> m = or O_WRONLY O_CREATE"
  shows "goodE (SRedir a f m d) (x @ (if d = 0 then CHR ''<'' else CHR ''>'') # CHR '' '' # f)"
  unfolding goodE_def
proof (intro allI impI)
  let ?c = "if d = 0 then CHR ''<'' else CHR ''>''"
  fix s i post n
  assume dr: "drop i s = (x @ ?c # CHR '' '' # f) @ post" and i: "i \<le> length s" and e: "ends ''<>|&;)'' post"
  define j where "j = i + length x"
  have dj: "drop j s = ?c # CHR '' '' # f @ post"
    using drop_app [of i s x] dr by (simp add: j_def)
  have dk: "drop (j + 1) s = CHR '' '' # f @ post"
    using drop_1 [OF dj] by simp
  have "post = [] \<or> \<not> wordch (hd post)"
    using e by (cases post) (auto simp: ends_def wordch_def symbols_def)
  note w = gettoken_word [OF dk assms(2) this]
  have p: "peek s j ''<>'' = (True, j)" "gettoken s j = (?c, j, j + 1, skip_ws s (j + 1))"
    using peek_at [OF dj] gettoken_sym [OF dj] by (auto simp: symbols_def)
  have step: "parseredirs k s c j = Inl ShFuel \<or> (\<exists>k' c'. parseredirs k s c j =
      parseredirs k' s c' (j + length (?c # CHR '' '' # f)) \<and> tree s c' = SRedir (tree s c) f m d)" for k c
  proof (cases k)
    case (Suc k')
    have "parseredirs k s c j = parseredirs k' s (REDIR c (j + 2, j + 2 + length f) m d) (j + 2 + length f)"
      using p w assms(3) by (auto simp: Suc redircmd_def)
    moreover have "slice_of s (j + 2, j + 2 + length f) = f"
      using slice_word [OF dk] by (simp add: add.assoc)
    ultimately show ?thesis
      by (intro disjI2 exI [of _ k'] exI [of _ "REDIR c (j + 2, j + 2 + length f) m d"]) (simp add: add.assoc)
  qed simp
  have "ends ''<>|&;)'' (?c # CHR '' '' # f @ post)"
    by simp
  then have "parseexec n s i = Inl ShFuel \<or>
      (\<exists>m c fin. parseexec n s i = bindE (parseredirs m s c j) fin \<and> tree s c = a \<and> fin_ok s fin)"
    using assms(1) dr i unfolding goodE_def j_def start_skip by simp
  moreover have "j + length (?c # CHR '' '' # f) = i + length (x @ ?c # CHR '' '' # f)"
    by (simp add: j_def)
  ultimately show "parseexec n s i = Inl ShFuel \<or> (\<exists>k c fin. parseexec n s i =
      bindE (parseredirs k s c (skip_ws s (i + length (x @ ?c # CHR '' '' # f)))) fin \<and>
      tree s c = SRedir a f m d \<and> fin_ok s fin)"
    unfolding start_skip using step by (metis bindE.simps(1))
qed

lemma redirs_word:
  assumes "drop i s = CHR '' '' # w @ post" "word_ok w"
  shows "parseredirs n s c i = Inl ShFuel \<or> parseredirs n s c i = Inr (c, i + 1)"
  using peek_word [OF assms, of "''<>''"] by (cases n) (auto simp: symbols_def)

lemma exec_loop_skip [simp]: "exec_loop n s c k (skip_ws s i) = exec_loop n s c k i"
  by (cases n) simp_all

lemma exec_words:
  assumes "drop i s = concat (map (\<lambda>w. CHR '' '' # w) (w # ws)) @ post" "ends ''<>|&;)'' post"
    "list_all word_ok (w # ws)" "k + length (w # ws) < MAXARGS"
  shows "exec_loop n s (EXEC as) k i = Inl ShFuel \<or> (\<exists>m bs k'. exec_loop n s (EXEC as) k i =
    bindE (parseredirs m s (EXEC bs) (i + length (concat (map (\<lambda>w. CHR '' '' # w) (w # ws)))))
      (\<lambda>(ret, ps). exec_loop m s ret k' ps) \<and> map (slice_of s) bs = map (slice_of s) as @ w # ws)"
  using assms
proof (induction ws arbitrary: w as i k n)
  case (Cons v ws)
  let ?post = "concat (map (\<lambda>w. CHR '' '' # w) (v # ws)) @ post"
  have d: "drop i s = CHR '' '' # w @ ?post" and w: "word_ok w" and v: "word_ok v"
    using Cons.prems by auto
  define j where "j = i + 1 + length w"
  have dj: "drop j s = ?post"
    using drop_app [OF drop_1 [OF d]] by (simp add: j_def)
  note g = gettoken_word [OF d w, folded j_def] and p = peek_word [OF d w, of "''|)&;''"]
  note s1 = word_start(1) [OF d w]
  have g1: "gettoken s (i + 1) = (CHR ''a'', i + 1, j, skip_ws s j)"
    using g gettoken_skip [of s i] s1 by (simp add: wordch_def)
  have sl: "slice_of s (i + 1, j) = w"
    using slice_word [OF d] by (simp add: j_def)
  have rw: "parseredirs m s c j = Inl ShFuel \<or> parseredirs m s c j = Inr (c, j + 1)" for m c
    using redirs_word [of j s v] dj v by simp
  have sj: "skip_ws s j = j + 1"
    using word_start(1) [of j s v] dj v by simp
  show ?case
  proof (cases n)
    case (Suc m)
    have len: "i + length (concat (map (\<lambda>w. CHR '' '' # w) (w # v # ws))) =
        j + length (concat (map (\<lambda>w. CHR '' '' # w) (v # ws)))"
      by (simp add: j_def)
    have "exec_loop n s (EXEC as) k i = Inl ShFuel \<or>
        exec_loop n s (EXEC as) k i = exec_loop m s (EXEC (as @ [(i + 1, j)])) (k + 1) j"
      using rw [of m "EXEC (as @ [(i + 1, j)])"] p g1 sj Cons.prems(4) exec_loop_skip [of _ s _ _ j]
        start_skip(1) [of _ s _ j]
      by (auto simp: Suc Let_def symbols_def)
    moreover have "exec_loop m s (EXEC (as @ [(i + 1, j)])) (k + 1) j = Inl ShFuel \<or>
        (\<exists>m' bs k'. exec_loop m s (EXEC (as @ [(i + 1, j)])) (k + 1) j =
        bindE (parseredirs m' s (EXEC bs) (j + length (concat (map (\<lambda>w. CHR '' '' # w) (v # ws)))))
          (\<lambda>(ret, ps). exec_loop m' s ret k' ps) \<and>
          map (slice_of s) bs = map (slice_of s) (as @ [(i + 1, j)]) @ v # ws)"
      using Cons.prems by (intro Cons.IH dj) auto
    moreover have "map (slice_of s) (as @ [(i + 1, j)]) @ v # ws = map (slice_of s) as @ w # v # ws"
      using sl by simp
    ultimately show ?thesis
      unfolding len by metis
  qed simp
next
  case Nil
  have d: "drop i s = CHR '' '' # w @ post" and w: "word_ok w"
    using Nil.prems by auto
  have "post = [] \<or> \<not> wordch (hd post)"
    using Nil.prems(2) by (cases post) (auto simp: ends_def wordch_def symbols_def)
  note g = gettoken_word [OF d w this] and p = peek_word [OF d w, of "''|)&;''"]
  have g1: "gettoken s (i + 1) = (CHR ''a'', i + 1, i + 1 + length w, skip_ws s (i + 1 + length w))"
    using g gettoken_skip [of s i] word_start(1) [OF d w] by simp
  show ?case
  proof (cases n)
    case (Suc m)
    have "exec_loop n s (EXEC as) k i = bindE (parseredirs m s (EXEC (as @ [(i + 1, i + 1 + length w)])) (i + 1 + length w))
        (\<lambda>(ret, ps). exec_loop m s ret (k + 1) ps)"
      using p g1 Nil.prems(4) by (auto simp: Suc Let_def symbols_def)
    then show ?thesis
      using slice_word [OF d]
      by (intro disjI2 exI [of _ m] exI [of _ "as @ [(i + 1, i + 1 + length w)]"] exI [of _ "k + 1"]) simp
  qed simp
qed

lemma good_exec:
  assumes "list_all word_ok ws" "length ws < MAXARGS"
  shows "goodE (SExec ws) (concat (map (\<lambda>w. CHR '' '' # w) ws))"
  unfolding goodE_def
proof (intro allI impI)
  let ?x = "concat (map (\<lambda>w. CHR '' '' # w) ws)"
  fix s i post n
  assume d: "drop i s = ?x @ post" and i: "i \<le> length s" and e: "ends ''<>|&;)'' post"
  show "parseexec n s i = Inl ShFuel \<or> (\<exists>m c fin. parseexec n s i =
      bindE (parseredirs m s c (skip_ws s (i + length ?x))) fin \<and> tree s c = SExec ws \<and> fin_ok s fin)"
  proof (cases n)
    case (Suc m)
    show ?thesis
    proof (cases ws)
      case Nil
      have "peek s i ''('' = (False, skip_ws s i)"
        using d e i by (intro peek_ends [of "''<>|&;)''"]) (auto simp: Nil symbols_def)
      then have "parseexec n s i = bindE (parseredirs m s (EXEC []) i) (\<lambda>(ret, ps). exec_loop m s ret 0 ps)"
        by (simp add: Suc execcmd_def)
      then show ?thesis
        using exec_loop_fin [of s m 0] Nil
        by (intro disjI2 exI [of _ m] exI [of _ "EXEC []"] exI [of _ "\<lambda>(ret, ps). exec_loop m s ret 0 ps"]) simp
    next
      case (Cons w vs)
      have dw: "drop i s = CHR '' '' # w @ concat (map (\<lambda>w. CHR '' '' # w) vs) @ post" and w: "word_ok w"
        using d assms(1) by (auto simp: Cons)
      have "parseexec n s i = Inl ShFuel \<or> parseexec n s i = exec_loop m s (EXEC []) 0 i"
        using peek_word [OF dw w, of "''(''"] word_start(1) [OF dw w] redirs_word [OF dw w, of m "EXEC []"]
          exec_loop_skip [of m s "EXEC []" 0 i] start_skip(1) [of m s "EXEC []" i]
        by (auto simp: Suc execcmd_def symbols_def)
      moreover note exec_words [of i s w vs post 0 m "[]"]
      ultimately show ?thesis
        using d e assms exec_loop_fin unfolding Cons start_skip
        by (metis (no_types, lifting) add_0 append_Nil list.map(1) tree.simps(1))
    qed
  qed simp
qed

lemma good_pr:
  "scmd_ok a \<Longrightarrow> good0 a (pr 0 a) \<and> good1 a (pr 1 a) \<and> good2 a (pr 2 a) \<and> goodE a (pr 3 a)"
proof (induction a)
  case (SExec ws)
  then have "goodE (SExec ws) (pr k (SExec ws))" for k
    using good_exec by simp
  then show ?case
    by (meson goodE_good2 good2_good1 good1_good0)
next
  case (SRedir a f m d)
  then have "goodE (SRedir a f m d) (pr k (SRedir a f m d))" for k
    using good_redir by simp
  then show ?case
    by (meson goodE_good2 good2_good1 good1_good0)
next
  case (SPipe l r)
  then have "good2 (SPipe l r) (pr 2 (SPipe l r))"
    using good_pipe by (simp add: paren_def)
  moreover from this have "good1 (SPipe l r) (pr 1 (SPipe l r))" "good0 (SPipe l r) (pr 0 (SPipe l r))"
    using good2_good1 good1_good0 by (auto simp: paren_def)
  ultimately show ?case
    using good_paren [of "SPipe l r" "pr 0 (SPipe l r)"] by (simp add: paren_def)
next
  case (SBack a)
  then have "good1 (SBack a) (pr 1 (SBack a))"
    using good_back by (simp add: paren_def)
  moreover from this have "good0 (SBack a) (pr 0 (SBack a))"
    using good1_good0 by (auto simp: paren_def)
  ultimately show ?case
    using good_paren [of "SBack a" "pr 0 (SBack a)"] goodE_good2 by (simp add: paren_def)
next
  case (SList l r)
  then have "good0 (SList l r) (pr 0 (SList l r))"
    using good_list by (simp add: paren_def)
  then show ?case
    using good_paren [of "SList l r" "pr 0 (SList l r)"] goodE_good2 good2_good1 by (simp add: paren_def)
qed

lemma pr_nul: "scmd_ok a \<Longrightarrow> NUL \<notin> set (pr k a)"
  by (induction k a rule: pr.induct) (auto simp: paren_def word_ok_def list_all_iff)

section \<open>Properties of the parser\<close>

text \<open>C29: The parser of the shell terminates on every line: its recursion and loops always end.\<close>

theorem parsecmd_total: "parsecmd s \<noteq> Inl ShFuel"
proof -
  have "parse_ok s (parse_fuel s) 0 (4 * (length s - 0) + 4) (parseline (parse_fuel s) s 0)"
    by (rule parsers_ok) simp
  then show ?thesis
    by (cases "parseline (parse_fuel s) s 0") (auto simp: parse_ok_def parsecmd_def parse_fuel_def split: prod.splits)
qed

text \<open>
  C30: The shell reads back what it is written: for every command tree with words of word characters (at most
  nine per simple command), the printed line, with any white space after it, parses without error, and the
  parsed command with the NUL-terminated line denotes that tree.
\<close>

theorem parse_print:
  assumes "scmd_ok a" and "set ws \<subseteq> set whitespace"
  shows "\<exists>c buf. parsecmd (pr 0 a @ ws) = Inr (c, buf) \<and> resolve buf c = a"
proof -
  define s where "s = pr 0 a @ ws"
  have "yields s a (0 + length (pr 0 a)) (parseline (parse_fuel s) s 0)"
    using good_pr [OF assms(1), THEN conjunct1, unfolded good0_def, rule_format, of 0 s ws] assms(2)
    by (simp add: s_def ends_def)
  moreover have ok: "parse_ok s (parse_fuel s) 0 (4 * (length s - 0) + 4) (parseline (parse_fuel s) s 0)"
    by (rule parsers_ok) simp
  ultimately obtain c where c: "parseline (parse_fuel s) s 0 = Inr (c, skip_ws s (length (pr 0 a)))" "tree s c = a"
    by (auto simp: yields_def parse_ok_def parse_fuel_def)
  have "skip_ws s (length (pr 0 a)) = length s"
    using assms(2) by (intro skip_ws_end) (auto simp: s_def)
  then have p: "parsecmd s = Inr (c, nulterminate c (s @ [NUL]))"
    using c(1) peek_end [of "length s" s] by (simp add: parsecmd_def)
  have "NUL \<notin> set s"
    using pr_nul [OF assms(1)] assms(2) symbols_simps(3) by (auto simp: s_def)
  then have "resolve (nulterminate c (s @ [NUL])) c = a"
    using ok c by (simp add: parse_ok_def resolve_tree)
  then show ?thesis
    using p by (auto simp: s_def)
qed

theorem parse_print_witness:
  "\<exists>c buf. parsecmd (pr 0 (SList (SBack (SPipe (SExec [''ls'']) (SRedir (SExec [''wc'', ''-l'']) ''out'' (or O_WRONLY O_CREATE) 1)))
     (SBack (SList (SExec [''a'']) (SExec [''b''])))) @ [NL]) = Inr (c, buf) \<and>
   resolve buf c = SList (SBack (SPipe (SExec [''ls'']) (SRedir (SExec [''wc'', ''-l'']) ''out'' (or O_WRONLY O_CREATE) 1)))
     (SBack (SList (SExec [''a'']) (SExec [''b''])))"
  by (rule parse_print) (auto simp: word_ok_def wordch_def whitespace_def symbols_def)

end
