(* ===== verification/Userprogs.thy ===== *)
theory Userprogs
  imports Sh
begin

text \<open>
  The user programs \<open>cat\<close>, \<open>wc\<close>, \<open>echo\<close>, \<open>kill\<close>, \<open>ln\<close>, \<open>rm\<close>, \<open>mkdir\<close>, \<open>zombie\<close>, \<open>init\<close>, \<open>ls\<close>, \<open>ps\<close>, \<open>shmtest\<close>,
  \<open>testdescribe\<close>, \<open>stressfs\<close> and \<open>forktest\<close> as trees of system calls. A \<open>main\<close> takes \<open>argv\<close> without its
  first entry; loops over \<open>read\<close> and \<open>for(;;)\<close> take fuel. \<open>urun\<close> runs a program that only reads, writes, opens
  and closes files against a given environment.
\<close>

section \<open>cat.c\<close>

fun cat :: "nat \<Rightarrow> int \<Rightarrow> uprog \<Rightarrow> uprog" where
  "cat 0 fd k = UNoFuel"
| "cat (Suc n) fd k =
     URead fd 512 (\<lambda>r. case r of
        None \<Rightarrow> uprintf 1 (''cat: read error'' @ [NL]) [] UExit
      | Some buf \<Rightarrow>
          if buf = [] then k
          else UWrite 1 buf (\<lambda>m.
            if m \<noteq> int (length buf) then uprintf 1 (''cat: write error'' @ [NL]) [] UExit
            else cat n fd k))"

fun cat_args :: "nat \<Rightarrow> string list \<Rightarrow> uprog" where
  "cat_args n [] = UExit"
| "cat_args n (a # argv) =
     UOpen a 0 (\<lambda>fd.
       if fd < 0 then uprintf 1 (''cat: cannot open %s'' @ [NL]) [AStr a] UExit
       else cat n fd (UClose fd (cat_args n argv)))"

definition cat_main :: "nat \<Rightarrow> string list \<Rightarrow> uprog" where
  "cat_main n argv = (if argv = [] then cat n 0 UExit else cat_args n argv)"

section \<open>wc.c\<close>

definition wc_space :: "char \<Rightarrow> bool" where
  "wc_space c \<longleftrightarrow> in_str [CHR '' '', CHR 0x0D, CHR 0x09, CHR 0x0A, CHR 0x0B] c"

definition wc_step :: "char \<Rightarrow> u32 \<times> u32 \<times> u32 \<times> bool \<Rightarrow> u32 \<times> u32 \<times> u32 \<times> bool" where
  "wc_step b st =
     (case st of (l, w, c, inword) \<Rightarrow>
        let c = c + 1; l = (if b = NL then l + 1 else l) in
        if wc_space b then (l, w, c, False)
        else if \<not> inword then (l, w + 1, c, True)
        else (l, w, c, inword))"

fun wc_loop :: "nat \<Rightarrow> int \<Rightarrow> string \<Rightarrow> u32 \<times> u32 \<times> u32 \<times> bool \<Rightarrow> uprog \<Rightarrow> uprog" where
  "wc_loop 0 fd name st k = UNoFuel"
| "wc_loop (Suc n) fd name st k =
     URead fd 512 (\<lambda>r. case r of
        None \<Rightarrow> uprintf 1 (''wc: read error'' @ [NL]) [] UExit
      | Some buf \<Rightarrow>
          if buf = [] then
            (case st of (l, w, c, _) \<Rightarrow>
               uprintf 1 (''%d %d %d %s'' @ [NL]) [AInt l, AInt w, AInt c, AStr name] k)
          else wc_loop n fd name (fold wc_step buf st) k)"

definition wc :: "nat \<Rightarrow> int \<Rightarrow> string \<Rightarrow> uprog \<Rightarrow> uprog" where
  "wc n fd name k = wc_loop n fd name (0, 0, 0, False) k"

fun wc_args :: "nat \<Rightarrow> string list \<Rightarrow> uprog" where
  "wc_args n [] = UExit"
| "wc_args n (a # argv) =
     UOpen a 0 (\<lambda>fd.
       if fd < 0 then uprintf 1 (''wc: cannot open %s'' @ [NL]) [AStr a] UExit
       else wc n fd a (UClose fd (wc_args n argv)))"

definition wc_main :: "nat \<Rightarrow> string list \<Rightarrow> uprog" where
  "wc_main n argv = (if argv = [] then wc n 0 [] UExit else wc_args n argv)"

section \<open>echo.c, kill.c, ln.c, rm.c, mkdir.c\<close>

fun echo_main :: "string list \<Rightarrow> uprog" where
  "echo_main [] = UExit"
| "echo_main (a # argv) =
     uprintf 1 ''%s%s'' [AStr a, AStr (if argv \<noteq> [] then '' '' else [NL])] (echo_main argv)"

fun kill_args :: "string list \<Rightarrow> uprog" where
  "kill_args [] = UExit"
| "kill_args (a # argv) = UKill (atoi a) (kill_args argv)"

definition kill_main :: "string list \<Rightarrow> uprog" where
  "kill_main argv =
     (if argv = [] then uprintf 2 (''usage: kill pid...'' @ [NL]) [] UExit else kill_args argv)"

definition ln_main :: "string list \<Rightarrow> uprog" where
  "ln_main argv =
     (case argv of
        [old, new] \<Rightarrow>
          ULink old new (\<lambda>r.
            if r < 0 then uprintf 2 (''link %s %s: failed'' @ [NL]) [AStr old, AStr new] UExit else UExit)
      | _ \<Rightarrow> uprintf 2 (''Usage: ln old new'' @ [NL]) [] UExit)"

fun rm_args :: "string list \<Rightarrow> uprog" where
  "rm_args [] = UExit"
| "rm_args (a # argv) =
     UUnlink a (\<lambda>r.
       if r < 0 then uprintf 2 (''rm: %s failed to delete'' @ [NL]) [AStr a] UExit else rm_args argv)"

definition rm_main :: "string list \<Rightarrow> uprog" where
  "rm_main argv =
     (if argv = [] then uprintf 2 (''Usage: rm files...'' @ [NL]) [] UExit else rm_args argv)"

fun mkdir_args :: "string list \<Rightarrow> uprog" where
  "mkdir_args [] = UExit"
| "mkdir_args (a # argv) =
     UMkdir a (\<lambda>r.
       if r < 0 then uprintf 2 (''mkdir: %s failed to create'' @ [NL]) [AStr a] UExit else mkdir_args argv)"

definition mkdir_main :: "string list \<Rightarrow> uprog" where
  "mkdir_main argv =
     (if argv = [] then uprintf 2 (''Usage: mkdir files...'' @ [NL]) [] UExit else mkdir_args argv)"

section \<open>ls.c\<close>

abbreviation (input) UDIRSIZ :: nat where "UDIRSIZ \<equiv> 14"

definition fmtname :: "string \<Rightarrow> string" where
  "fmtname path =
     (let p = rev (takeWhile (\<lambda>c. c \<noteq> CHR ''/'') (rev path)) in
      if length p \<ge> UDIRSIZ then p else p @ replicate (UDIRSIZ - length p) (CHR '' ''))"

definition ls_line :: "string \<Rightarrow> ustat \<Rightarrow> uprog \<Rightarrow> uprog" where
  "ls_line path st k =
     uprintf 1 (''%s %d %d %d'' @ [NL])
       [AStr (fmtname path), AInt (of_int (us_type st)), AInt (us_ino st), AInt (us_size st)] k"

text \<open>One directory entry: a little-endian inode number and fourteen bytes of name.\<close>

fun ls_dir :: "nat \<Rightarrow> int \<Rightarrow> string \<Rightarrow> uprog \<Rightarrow> uprog" where
  "ls_dir 0 fd path k = UNoFuel"
| "ls_dir (Suc n) fd path k =
     URead fd 16 (\<lambda>r. case r of
        Some (c0 # c1 # name) \<Rightarrow>
          if length name \<noteq> UDIRSIZ then k
          else if c0 = NUL \<and> c1 = NUL then ls_dir n fd path k
          else
            let buf = path @ ''/'' @ takeWhile (\<lambda>c. c \<noteq> NUL) name in
            stat buf (\<lambda>st. case st of
                None \<Rightarrow> uprintf 1 (''ls: cannot stat %s'' @ [NL]) [AStr buf] (ls_dir n fd path k)
              | Some st \<Rightarrow> ls_line buf st (ls_dir n fd path k))
      | _ \<Rightarrow> k)"

definition ls :: "nat \<Rightarrow> string \<Rightarrow> uprog \<Rightarrow> uprog" where
  "ls n path k =
     UOpen path 0 (\<lambda>fd.
       if fd < 0 then uprintf 2 (''ls: cannot open %s'' @ [NL]) [AStr path] k
       else UFstat fd (\<lambda>st. case st of
           None \<Rightarrow> uprintf 2 (''ls: cannot stat %s'' @ [NL]) [AStr path] (UClose fd k)
         | Some st \<Rightarrow>
             if us_type st = 2 then ls_line path st (UClose fd k)
             else if us_type st = 1 then
               (if length path + 1 + UDIRSIZ + 1 > 512 then uprintf 1 (''ls: path too long'' @ [NL]) [] (UClose fd k)
                else ls_dir n fd path (UClose fd k))
             else UClose fd k))"

fun ls_args :: "nat \<Rightarrow> string list \<Rightarrow> uprog" where
  "ls_args n [] = UExit"
| "ls_args n (a # argv) = ls n a (ls_args n argv)"

definition ls_main :: "nat \<Rightarrow> string list \<Rightarrow> uprog" where
  "ls_main n argv = (if argv = [] then ls n ''.'' UExit else ls_args n argv)"

section \<open>init.c, zombie.c, ps.c, shmtest.c, testdescribe.c\<close>

fun init_loop :: "nat \<Rightarrow> uprog" where
  "init_loop 0 = UNoFuel"
| "init_loop (Suc n) =
     uprintf 1 (''init: starting sh'' @ [NL]) []
       (UFork (\<lambda>pid.
         if pid < 0 then uprintf 1 (''init: fork failed'' @ [NL]) [] UExit
         else if pid = 0 then UExec ''sh'' [''sh''] (uprintf 1 (''init: exec sh failed'' @ [NL]) [] UExit)
         else UWait (\<lambda>wpid.
           if wpid \<ge> 0 then uprintf 1 (''init: shell exited, shutting down...'' @ [NL]) [] (init_loop n)
           else init_loop n)))"

definition init_main :: "nat \<Rightarrow> uprog" where
  "init_main n =
     UOpen ''console'' O_RDWR (\<lambda>fd.
       let rest = UDup 0 (UDup 0 (init_loop n)) in
       if fd < 0 then UMknod ''console'' 1 1 (UOpen ''console'' O_RDWR (\<lambda>_. rest)) else rest)"

definition zombie_main :: uprog where
  "zombie_main = UFork (\<lambda>pid. if pid > 0 then USleep 5 UExit else UExit)"

definition ps_main :: uprog where
  "ps_main = UCps UExit"

text \<open>A \<open>return\<close> from \<open>main\<close> jumps to the fake return address \<open>0xffffffff\<close> that \<open>exec\<close> pushes: a fault.\<close>

definition shmtest_main :: uprog where
  "shmtest_main =
     UShm_alloc 4096 (\<lambda>addr.
       if addr = -1 then uprintf 1 (''Shared memory allocation failed'' @ [NL]) [] UFault
       else uprintf 1 (''Shared memory allocated at address: %p'' @ [NL]) [AInt addr] UFault)"

definition testdescribe_main :: uprog where
  "testdescribe_main =
     uprintf 1 (''Testing the sys_describe system call:'' @ [NL, NL]) [] (UDescribe UFault)"

section \<open>stressfs.c and forktest.c\<close>

fun stress_fork :: "nat \<Rightarrow> nat \<Rightarrow> (nat \<Rightarrow> uprog) \<Rightarrow> uprog" where
  "stress_fork 0 i k = k i"
| "stress_fork (Suc n) i k = UFork (\<lambda>pid. if pid > 0 then k i else stress_fork n (i + 1) k)"

fun stress_write :: "nat \<Rightarrow> int \<Rightarrow> string \<Rightarrow> uprog \<Rightarrow> uprog" where
  "stress_write 0 fd data k = k"
| "stress_write (Suc n) fd data k = UWrite fd data (\<lambda>_. stress_write n fd data k)"

fun stress_read :: "nat \<Rightarrow> int \<Rightarrow> nat \<Rightarrow> uprog \<Rightarrow> uprog" where
  "stress_read 0 fd len k = k"
| "stress_read (Suc n) fd len k = URead fd len (\<lambda>_. stress_read n fd len k)"

definition stressfs_main :: uprog where
  "stressfs_main =
     (let data = replicate 512 (CHR ''a'') in
      uprintf 1 (''stressfs starting'' @ [NL]) []
        (stress_fork 4 0 (\<lambda>i.
          uprintf 1 (''write %d'' @ [NL]) [AInt (of_nat i)]
            (let path = ''stressfs'' @ [char_of (of_char (CHR ''0'') + i)] in
             UOpen path (or O_CREATE O_RDWR) (\<lambda>fd.
               stress_write 20 fd data (UClose fd
                 (uprintf 1 (''read'' @ [NL]) []
                   (UOpen path O_RDONLY (\<lambda>fd.
                     stress_read 20 fd 512 (UClose fd (UWait (\<lambda>_. UExit)))))))))))) "

text \<open>The private \<open>printf\<close> of \<open>forktest.c\<close> writes its format in one call.\<close>

definition ft_printf :: "int \<Rightarrow> string \<Rightarrow> uprog \<Rightarrow> uprog" where
  "ft_printf fd s k = UWrite fd s (\<lambda>_. k)"

fun ft_fork :: "nat \<Rightarrow> nat \<Rightarrow> (nat \<Rightarrow> uprog) \<Rightarrow> uprog" where
  "ft_fork 0 n k = k n"
| "ft_fork (Suc r) n k = UFork (\<lambda>pid. if pid < 0 then k n else if pid = 0 then UExit else ft_fork r (n + 1) k)"

fun ft_wait :: "nat \<Rightarrow> uprog \<Rightarrow> uprog" where
  "ft_wait 0 k = k"
| "ft_wait (Suc n) k =
     UWait (\<lambda>r. if r < 0 then ft_printf 1 (''wait stopped early'' @ [NL]) UExit else ft_wait n k)"

definition forktest :: "uprog \<Rightarrow> uprog" where
  "forktest k =
     ft_printf 1 (''fork test'' @ [NL])
       (ft_fork 1000 0 (\<lambda>n.
         if n = 1000 then ft_printf 1 (''fork claimed to work N times!'' @ [NL]) UExit
         else ft_wait n (UWait (\<lambda>r.
           if r \<noteq> -1 then ft_printf 1 (''wait got too many'' @ [NL]) UExit
           else ft_printf 1 (''fork test OK'' @ [NL]) k))))"

definition forktest_main :: uprog where
  "forktest_main = forktest UExit"

section \<open>Running a program on files\<close>

text \<open>
  The environment of one process: the chunks successive reads of a descriptor deliver (a read takes at most
  what it asks for), what was written to each descriptor, and the files that can be opened. Calls
  outside this fragment, faults and exhausted fuel give None.
\<close>

record uenv =
  ue_in :: "int \<Rightarrow> string list"
  ue_out :: "int \<Rightarrow> string"
  ue_files :: "string \<Rightarrow> string list option"
  ue_next :: nat

primrec urun :: "uprog \<Rightarrow> uenv \<Rightarrow> uenv option" where
  "urun UExit e = Some e"
| "urun UFault e = None"
| "urun UNoFuel e = None"
| "urun (UFork k) e = None"
| "urun (UWait k) e = None"
| "urun (UPipe k) e = None"
| "urun (UWrite fd s k) e = urun (k (int (length s))) (e\<lparr>ue_out := (ue_out e)(fd := ue_out e fd @ s)\<rparr>)"
| "urun (URead fd n k) e =
     (case ue_in e fd of
        [] \<Rightarrow> urun (k (Some [])) e
      | c # cs \<Rightarrow> urun (k (Some (take n c)))
          (e\<lparr>ue_in := (ue_in e)(fd := (if length c > n then drop n c # cs else cs))\<rparr>))"
| "urun (UClose fd k) e = urun k e"
| "urun (UKill pid k) e = None"
| "urun (UExec path argv k) e = None"
| "urun (UOpen path mode k) e =
     (case ue_files e path of
        None \<Rightarrow> urun (k (-1)) e
      | Some cs \<Rightarrow> urun (k (int (ue_next e)))
          (e\<lparr>ue_in := (ue_in e)(int (ue_next e) := cs), ue_next := ue_next e + 1\<rparr>))"
| "urun (UMknod path a b k) e = None"
| "urun (UUnlink path k) e = None"
| "urun (UFstat fd k) e = None"
| "urun (ULink a b k) e = None"
| "urun (UMkdir path k) e = None"
| "urun (UChdir path k) e = None"
| "urun (UDup fd k) e = None"
| "urun (USleep n k) e = None"
| "urun (UCps k) e = None"
| "urun (UShm_alloc n k) e = None"
| "urun (UDescribe k) e = None"

definition put :: "int \<Rightarrow> string \<Rightarrow> uenv \<Rightarrow> uenv" where
  "put fd s e = e\<lparr>ue_out := (ue_out e)(fd := ue_out e fd @ s)\<rparr>"

lemma put_simps [simp]:
  "ue_in (put fd s e) = ue_in e" "ue_files (put fd s e) = ue_files e" "ue_next (put fd s e) = ue_next e"
  "ue_out (put fd s e) fd = ue_out e fd @ s" "put fd t (put fd s e) = put fd (s @ t) e" "put fd [] e = e"
  by (simp_all add: put_def)

lemma urun_write [simp]: "urun (UWrite fd s k) e = urun (k (int (length s))) (put fd s e)"
  by (simp add: put_def)

declare urun.simps(7) [simp del]

lemma urun_puts [simp]: "urun (uputs fd s k) e = urun k (put fd s e)"
  by (induction s arbitrary: e) (simp_all add: uputc_def)

text \<open>Chunks a read returns whole: not empty, which would be an end of file, and within the buffer.\<close>

definition chunks_ok :: "string list \<Rightarrow> bool" where
  "chunks_ok cs \<longleftrightarrow> (\<forall>c\<in>set cs. c \<noteq> [] \<and> length c \<le> 512)"

lemma urun_cat:
  "chunks_ok (ue_in e fd) \<Longrightarrow> length (ue_in e fd) < n \<Longrightarrow>
   urun (cat n fd k) e = urun k (put 1 (concat (ue_in e fd)) (e\<lparr>ue_in := (ue_in e)(fd := [])\<rparr>))"
proof (induction n arbitrary: e)
  case (Suc n)
  show ?case
  proof (cases "ue_in e fd")
    case Nil
    then have "e\<lparr>ue_in := (ue_in e)(fd := [])\<rparr> = e"
      by (metis fun_upd_triv uenv.surjective uenv.update_convs(1))
    with Nil show ?thesis by (simp del: fun_upd_apply)
  next
    case (Cons c cs)
    let ?e = "put 1 c (e\<lparr>ue_in := (ue_in e)(fd := cs)\<rparr>)"
    have "urun (cat n fd k) ?e = urun k (put 1 (concat (ue_in ?e fd)) (?e\<lparr>ue_in := (ue_in ?e)(fd := [])\<rparr>))"
      using Suc.prems Cons by (intro Suc.IH) (auto simp: chunks_ok_def)
    then show ?thesis
      using Suc.prems Cons by (simp add: chunks_ok_def put_def fun_upd_def cong: if_cong)
  qed
qed simp

definition conts :: "uenv \<Rightarrow> string list \<Rightarrow> string list" where
  "conts e argv = map (\<lambda>a. concat (the (ue_files e a))) argv"

definition args_ok :: "uenv \<Rightarrow> nat \<Rightarrow> string list \<Rightarrow> bool" where
  "args_ok e n argv \<longleftrightarrow> (\<forall>a\<in>set argv. case ue_files e a of None \<Rightarrow> False | Some cs \<Rightarrow> chunks_ok cs \<and> length cs < n)"

lemma urun_cat_args:
  "args_ok e n argv \<Longrightarrow>
   \<exists>e'. urun (cat_args n argv) e = Some e' \<and> ue_out e' = (ue_out e)(1 := ue_out e 1 @ concat (conts e argv))"
proof (induction argv arbitrary: e)
  case (Cons a argv)
  obtain cs where cs: "ue_files e a = Some cs" "chunks_ok cs" "length cs < n"
    using Cons.prems by (auto simp: args_ok_def split: option.splits)
  let ?e = "e\<lparr>ue_in := (ue_in e)(int (ue_next e) := cs), ue_next := ue_next e + 1\<rparr>"
  let ?e' = "put 1 (concat cs) (?e\<lparr>ue_in := (ue_in ?e)(int (ue_next e) := [])\<rparr>)"
  have run: "urun (cat_args n (a # argv)) e = urun (cat_args n argv) ?e'"
    using cs urun_cat [of ?e "int (ue_next e)" n] by simp
  have files: "ue_files ?e' = ue_files e"
    by simp
  have "args_ok ?e' n argv"
    using Cons.prems unfolding args_ok_def files by simp
  then obtain e'' where "urun (cat_args n argv) ?e' = Some e''"
      "ue_out e'' = (ue_out ?e')(1 := ue_out ?e' 1 @ concat (conts ?e' argv))"
    using Cons.IH by blast
  then show ?case
    using run cs(1) by (auto simp: put_def conts_def fun_upd_def)
qed (simp add: conts_def)

section \<open>Counting\<close>

text \<open>The fields of a text between white space; \<open>wc\<close> should count the non-empty ones.\<close>

fun fields :: "string \<Rightarrow> string list" where
  "fields [] = [[]]"
| "fields (c # s) = (if wc_space c then [] # fields s else (c # hd (fields s)) # tl (fields s))"

definition nwords :: "string \<Rightarrow> nat" where
  "nwords s = length (filter (\<lambda>w. w \<noteq> []) (fields s))"

lemma fields_ne [simp]: "fields s \<noteq> []"
  by (induction s) auto

lemma nwords_Cons:
  "nwords (c # s) = (if wc_space c then nwords s
     else if hd (fields s) = [] then nwords s + 1 else nwords s)"
  by (cases "fields s") (auto simp: nwords_def)

lemma wc_counts_from:
  "fold wc_step s (l, w, c, inword) =
     (l + of_nat (count_list s NL),
      w + of_nat (nwords s) - (if inword \<and> hd (fields s) \<noteq> [] then 1 else 0),
      c + of_nat (length s),
      if s = [] then inword else \<not> wc_space (last s))"
proof (induction s arbitrary: l w c inword)
  case (Cons a s)
  have "wc_space NL"
    by (simp add: wc_space_def)
  moreover have "wc_step a (l, w, c, inword) =
      (if a = NL then l + 1 else l, if wc_space a \<or> inword then w else w + 1, c + 1, \<not> wc_space a)"
    by (simp add: wc_step_def Let_def)
  ultimately show ?case
    by (cases "wc_space a"; cases inword; cases "s = []") (auto simp: Cons.IH nwords_Cons nwords_def [of "[]"])
qed (simp add: nwords_def)

definition show_nat :: "nat \<Rightarrow> string" where
  "show_nat n = rev (udigit_buf n 10)"

definition wc_text :: "string \<Rightarrow> string \<Rightarrow> string" where
  "wc_text s name =
     show_nat (count_list s NL) @ '' '' @ show_nat (nwords s) @ '' '' @ show_nat (length s) @ '' '' @ name @ [NL]"

lemma uprintint_small:
  "n < 2 ^ 31 \<Longrightarrow> uprintint_buf (of_nat n) 10 True = udigit_buf n 10"
proof -
  assume n: "n < 2 ^ 31"
  then have "unat (of_nat n :: u32) = n"
    by (simp add: unat_of_nat)
  moreover have "0 \<le> sint (of_nat n :: u32)"
    using n by (simp add: sint_uint uint_nat unat_of_nat signed_take_bit_int_eq_self)
  ultimately show ?thesis
    by (simp add: uprintint_buf_def)
qed

lemma nwords_le: "nwords s \<le> length s"
  by (induction s) (auto simp: nwords_Cons nwords_def [of "[]"])

lemma urun_wc_end:
  assumes "length s < 2 ^ 31"
  shows "urun (uprintf 1 (''%d %d %d %s'' @ [NL])
      [AInt (of_nat (count_list s NL)), AInt (of_nat (nwords s)), AInt (of_nat (length s)), AStr name] k) e =
    urun k (put 1 (wc_text s name) e)"
  using assms nwords_le [of s] count_le_length [of s NL]
  by (simp add: uprintf_def uputc_def uprintint_def uprintint_small wc_text_def show_nat_def)

lemma urun_wc_loop:
  assumes "chunks_ok (ue_in e fd)" "length (ue_in e fd) < n" "length (s @ concat (ue_in e fd)) < 2 ^ 31"
    "st = fold wc_step s (0, 0, 0, False)"
  shows "urun (wc_loop n fd name st k) e =
    urun k (put 1 (wc_text (s @ concat (ue_in e fd)) name) (e\<lparr>ue_in := (ue_in e)(fd := [])\<rparr>))"
  using assms
proof (induction n arbitrary: e s st)
  case (Suc n)
  show ?case
  proof (cases "ue_in e fd")
    case Nil
    then have "e\<lparr>ue_in := (ue_in e)(fd := [])\<rparr> = e"
      by (metis fun_upd_triv uenv.surjective uenv.update_convs(1))
    with Nil Suc.prems show ?thesis
      using urun_wc_end [of s] by (simp add: wc_counts_from del: fun_upd_apply)
  next
    case (Cons c cs)
    let ?e = "e\<lparr>ue_in := (ue_in e)(fd := cs)\<rparr>"
    have "urun (wc_loop n fd name (fold wc_step c st) k) ?e =
        urun k (put 1 (wc_text ((s @ c) @ concat (ue_in ?e fd)) name) (?e\<lparr>ue_in := (ue_in ?e)(fd := [])\<rparr>))"
      using Suc.prems Cons by (intro Suc.IH) (auto simp: chunks_ok_def)
    then show ?thesis
      using Suc.prems Cons by (simp add: chunks_ok_def fun_upd_def cong: if_cong)
  qed
qed simp

lemma urun_wc_args:
  "args_ok e n argv \<Longrightarrow> (\<forall>s\<in>set (conts e argv). length s < 2 ^ 31) \<Longrightarrow>
   \<exists>e'. urun (wc_args n argv) e = Some e' \<and>
     ue_out e' = (ue_out e)(1 := ue_out e 1 @ concat (map2 wc_text (conts e argv) argv))"
proof (induction argv arbitrary: e)
  case (Cons a argv)
  obtain cs where cs: "ue_files e a = Some cs" "chunks_ok cs" "length cs < n" "length (concat cs) < 2 ^ 31"
    using Cons.prems by (auto simp: args_ok_def conts_def split: option.splits)
  let ?e = "e\<lparr>ue_in := (ue_in e)(int (ue_next e) := cs), ue_next := ue_next e + 1\<rparr>"
  let ?e' = "put 1 (wc_text (concat cs) a) (?e\<lparr>ue_in := (ue_in ?e)(int (ue_next e) := [])\<rparr>)"
  have "urun (wc n (int (ue_next e)) a (UClose (int (ue_next e)) (wc_args n argv))) ?e =
      urun (UClose (int (ue_next e)) (wc_args n argv)) ?e'"
    unfolding wc_def
    using cs urun_wc_loop [of ?e "int (ue_next e)" n "[]" "(0, 0, 0, False)" a] by simp
  then have run: "urun (wc_args n (a # argv)) e = urun (wc_args n argv) ?e'"
    using cs(1) by simp
  have files: "ue_files ?e' = ue_files e"
    by simp
  have "args_ok ?e' n argv" "\<forall>s\<in>set (conts ?e' argv). length s < 2 ^ 31"
    using Cons.prems unfolding args_ok_def conts_def files by simp_all
  then obtain e'' where "urun (wc_args n argv) ?e' = Some e''"
      "ue_out e'' = (ue_out ?e')(1 := ue_out ?e' 1 @ concat (map2 wc_text (conts ?e' argv) argv))"
    using Cons.IH by blast
  then show ?case
    using run cs(1) by (auto simp: put_def conts_def fun_upd_def)
qed (simp add: conts_def)

text \<open>
  C31: \<open>cat\<close> and \<open>wc\<close> on files that exist end, with enough iterations for the reads the files need. \<open>cat\<close> writes
  exactly the contents of the files in order, and \<open>wc\<close> writes for each file its newlines, its words (the non-empty
  fields between white space) and its bytes in decimal, wherever the reads cut the text, also inside a word.
\<close>

theorem cat_wc_correct:
  assumes "args_ok e n argv" "argv \<noteq> []" "\<forall>s\<in>set (conts e argv). length s < 2 ^ 31"
  shows "(\<exists>e'. urun (cat_main n argv) e = Some e' \<and>
      ue_out e' = (ue_out e)(1 := ue_out e 1 @ concat (conts e argv))) \<and>
    (\<exists>e'. urun (wc_main n argv) e = Some e' \<and>
      ue_out e' = (ue_out e)(1 := ue_out e 1 @ concat (map2 wc_text (conts e argv) argv)))"
  using urun_cat_args [OF assms(1)] urun_wc_args [OF assms(1,3)] assms(2)
  by (simp add: cat_main_def wc_main_def)

definition ex_env :: uenv where
  "ex_env = \<lparr>ue_in = \<lambda>_. [], ue_out = \<lambda>_. [],
     ue_files = [''f'' \<mapsto> [''one tw'', ''o three'' @ [NL]], ''g'' \<mapsto> []], ue_next = 3\<rparr>"

theorem cat_wc_correct_witness:
  "(\<exists>e'. urun (cat_main 3 [''f'', ''g'']) ex_env = Some e' \<and>
      ue_out e' = (ue_out ex_env)(1 := ue_out ex_env 1 @ concat (conts ex_env [''f'', ''g'']))) \<and>
    (\<exists>e'. urun (wc_main 3 [''f'', ''g'']) ex_env = Some e' \<and>
      ue_out e' = (ue_out ex_env)(1 := ue_out ex_env 1 @ concat (map2 wc_text (conts ex_env [''f'', ''g'']) [''f'', ''g''])))"
  by (rule cat_wc_correct) (simp_all add: args_ok_def conts_def ex_env_def chunks_ok_def)

end
