(* ===== verification/Custom_Shell.thy ===== *)
theory Custom_Shell
  imports Userlib
begin

text \<open>
  The shell of Project 2: \<open>include/commands.c\<close> and \<open>src/main.c\<close>. Character arrays are lists of their full size,
  so that reads and writes outside them are faults and the zero bytes the code relies on are explicit. What
  the operating system answers is a parameter: which paths are directories and what they list, which paths
  can be opened for writing, and which file a path names.
\<close>

section \<open>Arrays, files and the operating system\<close>

abbreviation (input) BUFFER_SIZE :: nat where "BUFFER_SIZE \<equiv> 4096"
abbreviation (input) ARGUMENTS_SIZE :: nat where "ARGUMENTS_SIZE \<equiv> 16"

text \<open>An access outside an array (undefined behaviour), or the fuel of a loop ran out.\<close>

datatype perr = PFault | PFuel

record os =
  os_isdir :: "string \<Rightarrow> bool"
  os_list :: "string \<Rightarrow> (nat \<times> string) list option"
  os_wok :: "string \<Rightarrow> bool"
  os_res :: "string \<Rightarrow> string"
  os_user :: string

text \<open>The files by identity, and the text printed.\<close>

record host =
  hfs :: "string \<Rightarrow> string option"
  hout :: string

definition say :: "string \<Rightarrow> host \<Rightarrow> host" where
  "say x h = h\<lparr>hout := hout h @ x\<rparr>"

definition ld :: "'a list \<Rightarrow> nat \<Rightarrow> perr + 'a" where
  "ld b i = (if i < length b then Inr (b ! i) else Inl PFault)"

definition st :: "'a list \<Rightarrow> nat \<Rightarrow> 'a \<Rightarrow> perr + 'a list" where
  "st b i c = (if i < length b then Inr (b[i := c]) else Inl PFault)"

text \<open>\<open>strlen\<close>, \<open>strcpy\<close> and \<open>strcat\<close> on arrays.\<close>

definition cstr_of :: "string \<Rightarrow> string" where
  "cstr_of b = takeWhile (\<lambda>c. c \<noteq> NUL) b"

definition slen :: "string \<Rightarrow> perr + nat" where
  "slen b = (if NUL \<in> set b then Inr (length (cstr_of b)) else Inl PFault)"

definition scpy :: "string \<Rightarrow> string \<Rightarrow> perr + string" where
  "scpy d s = (if length s < length d then Inr (s @ NUL # drop (length s + 1) d) else Inl PFault)"

definition scat :: "string \<Rightarrow> string \<Rightarrow> perr + string" where
  "scat d s = bindE (slen d) (\<lambda>n. if n + length s < length d then Inr (take n d @ s @ NUL # drop (n + length s + 1) d) else Inl PFault)"

text \<open>\<open>path[strlen(path)] = c\<close>.\<close>

definition push :: "string \<Rightarrow> char \<Rightarrow> perr + string" where
  "push d c = bindE (slen d) (\<lambda>n. st d n c)"

text \<open>\<open>path[strlen(path) - 1]\<close>, outside the array for an empty path.\<close>

definition last_ch :: "string \<Rightarrow> perr + char" where
  "last_ch d = bindE (slen d) (\<lambda>n. if n = 0 then Inl PFault else ld d (n - 1))"

definition chop :: "string \<Rightarrow> perr + string" where
  "chop d = bindE (slen d) (\<lambda>n. if n = 0 then Inl PFault else st d (n - 1) NUL)"

definition zeros :: string where
  "zeros = replicate BUFFER_SIZE NUL"

section \<open>commands.c: cat\<close>

text \<open>\<open>fgets\<close> takes at most \<open>n\<close> characters, up to and with a newline.\<close>

fun fgets :: "nat \<Rightarrow> string \<Rightarrow> string \<times> string" where
  "fgets 0 s = ([], s)"
| "fgets (Suc n) [] = ([], [])"
| "fgets (Suc n) (c # s) =
     (if c = NL then ([c], s) else (case fgets n s of (l, r) \<Rightarrow> (c # l, r)))"

lemma fgets_app: "fst (fgets n s) @ snd (fgets n s) = s"
  by (induction n s rule: fgets.induct) (auto split: prod.splits)

lemma fgets_take: "0 < n \<Longrightarrow> s \<noteq> [] \<Longrightarrow> fst (fgets n s) \<noteq> []"
  by (cases n; cases s) (auto split: prod.splits)

lemma fgets_less: "0 < n \<Longrightarrow> s \<noteq> [] \<Longrightarrow> length (snd (fgets n s)) < length s"
  using fgets_app [of n s] fgets_take [of n s] by (metis append_eq_conv_conj length_drop length_greater_0_conv
      diff_less length_append zero_less_diff less_add_same_cancel2)

function cat_text :: "string \<Rightarrow> string" where
  "cat_text s =
     (if s = [] then [] else cstr_of (fst (fgets (BUFFER_SIZE - 1) s)) @ cat_text (snd (fgets (BUFFER_SIZE - 1) s)))"
  by pat_completeness auto
termination
  by (relation "measure length") (auto intro: fgets_less)

declare cat_text.simps [simp del]

fun cat_files :: "os \<Rightarrow> string list \<Rightarrow> nat \<Rightarrow> host \<Rightarrow> perr + host" where
  "cat_files os [] index h = Inl PFault"
| "cat_files os (a # args) index h =
     (if a = [] then
        Inr (if index = 0 then say (''Usage: cat ${INPUT_FILE_1} ${INPUT_FILE_2} ...'' @ [NL]) h else h)
      else
        (case hfs h (os_res os a) of
           None \<Rightarrow> Inr (say (''Error in opening file(s).'' @ [NL]) h)
         | Some data \<Rightarrow> cat_files os args (index + 1) (say (cat_text data @ [NL]) h)))"

definition custom_cat :: "os \<Rightarrow> string list \<Rightarrow> host \<Rightarrow> perr + host" where
  "custom_cat os args h = cat_files os args 0 h"

section \<open>commands.c: cd\<close>

fun drop_name :: "nat \<Rightarrow> string \<Rightarrow> perr + string" where
  "drop_name 0 d = Inl PFault"
| "drop_name (Suc i) d = bindE (ld d i) (\<lambda>c. if c = CHR ''/'' then Inr d else drop_name i (d[i := NUL]))"

definition go_up :: "string \<Rightarrow> perr + string" where
  "go_up d =
     bindE (slen d) (\<lambda>n.
     bindE (if n \<noteq> 1 then chop d else Inr d) (\<lambda>d.
     bindE (slen d) (\<lambda>n. drop_name n d)))"

text \<open>The loop over the argument; \<open>None\<close> is its early return.\<close>

fun cd_loop :: "nat \<Rightarrow> string \<Rightarrow> nat \<Rightarrow> string \<Rightarrow> perr + string option" where
  "cd_loop 0 arg index d = Inl PFuel"
| "cd_loop (Suc n) arg index d =
     bindE (ld arg index) (\<lambda>c.
       if c = NUL then Inr (Some d)
       else if c = CHR ''.'' then
         bindE (ld arg (index + 1)) (\<lambda>c1.
         bindE (if c1 = CHR ''/'' then Inr True else bindE (ld arg (index + 2)) (\<lambda>c2. Inr (c2 = NUL))) (\<lambda>dot.
           let index = (if dot then index + 2 else index) in
           bindE (ld arg (index + 1)) (\<lambda>c1.
             if c1 = CHR ''.'' then
               bindE (ld arg (index + 2)) (\<lambda>c2.
                 if c2 = CHR ''/'' \<or> c2 = NUL then bindE (go_up d) (\<lambda>d. cd_loop n arg (index + 3) d)
                 else Inr None)
             else cd_loop n arg index d)))
       else bindE (push d c) (\<lambda>d. cd_loop n arg (index + 1) d))"

definition not_a_directory :: "string \<Rightarrow> host \<Rightarrow> host" where
  "not_a_directory arg h = say (cstr_of arg @ '': Not a directory.'' @ [NL]) h"

definition slash_end :: "string \<Rightarrow> perr + string" where
  "slash_end d = bindE (last_ch d) (\<lambda>c. if c \<noteq> CHR ''/'' then push d (CHR ''/'') else Inr d)"

definition strip_end :: "string \<Rightarrow> perr + string" where
  "strip_end d =
     bindE (slen d) (\<lambda>n.
       if n \<noteq> 1 then bindE (last_ch d) (\<lambda>c. if c = CHR ''/'' then chop d else Inr d) else Inr d)"

definition custom_cd :: "nat \<Rightarrow> os \<Rightarrow> string \<Rightarrow> string \<Rightarrow> host \<Rightarrow> perr + (string \<times> host)" where
  "custom_cd n os arg d h =
     bindE (ld arg 0) (\<lambda>c.
       if c = NUL then bindE (scpy zeros (take (BUFFER_SIZE - 1) (''/home/'' @ os_user os))) (\<lambda>d. Inr (d, h))
       else if c = CHR ''/'' then
         (if \<not> os_isdir os (cstr_of arg) then Inr (d, not_a_directory arg h)
          else bindE (scpy zeros (cstr_of arg)) (\<lambda>d. Inr (d, h)))
       else
         let old_path = cstr_of d in
         bindE (slash_end d) (\<lambda>d.
         bindE (cd_loop n arg 0 d) (\<lambda>r. case r of
            None \<Rightarrow> bindE (scpy zeros old_path) (\<lambda>d. Inr (d, not_a_directory arg h))
          | Some d \<Rightarrow>
              bindE (strip_end d) (\<lambda>d.
                if os_isdir os (cstr_of d) then Inr (d, h)
                else bindE (scpy zeros old_path) (\<lambda>d. Inr (d, not_a_directory arg h))))))"

section \<open>commands.c: cp and mv\<close>

fun count_args :: "string list \<Rightarrow> nat \<Rightarrow> perr + nat" where
  "count_args [] index = Inl PFault"
| "count_args (a # args) index = (if cstr_of a = [] then Inr index else count_args args (index + 1))"

text \<open>As \<open>cd_loop\<close>, but a lone dot is recognised by the character after it.\<close>

fun dest_loop :: "nat \<Rightarrow> string \<Rightarrow> nat \<Rightarrow> string \<Rightarrow> perr + string option" where
  "dest_loop 0 arg k d = Inl PFuel"
| "dest_loop (Suc n) arg k d =
     bindE (ld arg k) (\<lambda>c.
       if c = NUL then Inr (Some d)
       else if c = CHR ''.'' then
         bindE (ld arg (k + 1)) (\<lambda>c1.
           let k = (if c1 = CHR ''/'' \<or> c1 = NUL then k + 2 else k) in
           bindE (ld arg (k + 1)) (\<lambda>c1.
             if c1 = CHR ''.'' then
               bindE (ld arg (k + 2)) (\<lambda>c2.
                 if c2 = CHR ''/'' \<or> c2 = NUL then bindE (go_up d) (\<lambda>d. dest_loop n arg (k + 3) d)
                 else Inr None)
             else dest_loop n arg k d))
       else bindE (push d c) (\<lambda>d. dest_loop n arg (k + 1) d))"

text \<open>\<open>temp_path\<close>, an array whose initial contents \<open>g\<close> are arbitrary.\<close>

definition dest_path :: "nat \<Rightarrow> string \<Rightarrow> string \<Rightarrow> string \<Rightarrow> perr + string option" where
  "dest_path n g arg dir =
     bindE (ld arg 0) (\<lambda>c.
       if c = CHR ''/'' then bindE (scpy g (cstr_of arg)) (\<lambda>t. Inr (Some t))
       else
         bindE (scpy g (cstr_of dir)) (\<lambda>t.
         bindE (slash_end t) (\<lambda>t.
         bindE (dest_loop n arg 0 t) (\<lambda>r. case r of
            None \<Rightarrow> Inr None
          | Some t \<Rightarrow> bindE (strip_end t) (\<lambda>t. Inr (Some t))))))"

text \<open>\<open>fread\<close> and \<open>fwrite\<close> in blocks.\<close>

function fcopy :: "string \<Rightarrow> string" where
  "fcopy data = (if data = [] then [] else take BUFFER_SIZE data @ fcopy (drop BUFFER_SIZE data))"
  by pat_completeness auto
termination
  by (relation "measure length") auto

declare fcopy.simps [simp del]

definition new_path :: "string \<Rightarrow> string \<Rightarrow> perr + string" where
  "new_path t a = bindE (scpy zeros (cstr_of t)) (\<lambda>p. bindE (push p (CHR ''/'')) (\<lambda>p. scat p (cstr_of a)))"

text \<open>
  One file: the source is opened, then the destination is opened for writing, which truncates it; only
  then are the two results checked. True when the loop goes on.
\<close>

definition copy_file :: "os \<Rightarrow> string \<Rightarrow> string \<Rightarrow> host \<Rightarrow> perr + (bool \<times> host)" where
  "copy_file os t a h =
     bindE (new_path t a) (\<lambda>p.
       let src = os_res os (cstr_of a);
           dst = os_res os (cstr_of p);
           ok = (hfs h src \<noteq> None);
           h = (if os_wok os (cstr_of p) then h\<lparr>hfs := (hfs h)(dst \<mapsto> [])\<rparr> else h) in
       if \<not> ok \<or> \<not> os_wok os (cstr_of p) then Inr (False, say (''Error in opening file(s).'' @ [NL]) h)
       else Inr (True, h\<lparr>hfs := (hfs h)(dst \<mapsto> fcopy (the (hfs h src)))\<rparr>))"

fun cp_files :: "os \<Rightarrow> string \<Rightarrow> string list \<Rightarrow> nat \<Rightarrow> host \<Rightarrow> perr + host" where
  "cp_files os t args 0 h = Inr h"
| "cp_files os t args (Suc i) h =
     bindE (ld args i) (\<lambda>a. bindE (copy_file os t a h) (\<lambda>(more, h). if more then cp_files os t args i h else Inr h))"

definition custom_cp :: "nat \<Rightarrow> os \<Rightarrow> string \<Rightarrow> string list \<Rightarrow> string \<Rightarrow> host \<Rightarrow> perr + host" where
  "custom_cp n os g args dir h =
     bindE (count_args args 0) (\<lambda>index.
       if index = 0 \<or> index = 1 then
         Inr (say (''Usage: mv ${INPUT_FILE_1} ${INPUT_FILE_2} ... ${DESTINATION_DIRECTORY}'' @ [NL]) h)
       else
         bindE (ld args (index - 1)) (\<lambda>arg.
         bindE (dest_path n g arg dir) (\<lambda>r. case r of
            None \<Rightarrow> Inr (not_a_directory arg h)
          | Some t \<Rightarrow>
              if \<not> os_isdir os (cstr_of t) then Inr (not_a_directory arg h)
              else cp_files os t args (index - 1) h)))"

fun mv_files :: "os \<Rightarrow> string \<Rightarrow> string list \<Rightarrow> nat \<Rightarrow> host \<Rightarrow> perr + host" where
  "mv_files os t args 0 h = Inr h"
| "mv_files os t args (Suc i) h =
     bindE (ld args i) (\<lambda>a. bindE (copy_file os t a h) (\<lambda>(more, h).
       if more then mv_files os t args i (h\<lparr>hfs := (hfs h)(os_res os (cstr_of a) := None)\<rparr>) else Inr h))"

definition custom_mv :: "nat \<Rightarrow> os \<Rightarrow> string \<Rightarrow> string list \<Rightarrow> string \<Rightarrow> host \<Rightarrow> perr + host" where
  "custom_mv n os g args dir h =
     bindE (count_args args 0) (\<lambda>index.
       if index = 0 \<or> index = 1 then
         Inr (say (''Usage: mv ${INPUT_FILE_1} ${INPUT_FILE_2} ... ${DESTINATION_DIRECTORY}'' @ [NL]) h)
       else
         bindE (ld args (index - 1)) (\<lambda>arg.
         bindE (dest_path n g arg dir) (\<lambda>r. case r of
            None \<Rightarrow> Inr (not_a_directory arg h)
          | Some t \<Rightarrow>
              if \<not> os_isdir os (cstr_of t) then Inr (not_a_directory arg h)
              else mv_files os t args (index - 1) h)))"

section \<open>commands.c: ls\<close>

text \<open>\<open>None\<close> is the null pointer of a failed \<open>opendir\<close>, which \<open>readdir\<close> dereferences.\<close>

fun ls_entries :: "(nat \<times> string) list \<Rightarrow> host \<Rightarrow> host" where
  "ls_entries [] h = h"
| "ls_entries ((ty, name) # es) h =
     ls_entries es (say ((if ty = 4 then ''Folder: '' else ''File: '') @ name @ [NL]) h)"

definition custom_ls :: "(nat \<times> string) list option \<Rightarrow> host \<Rightarrow> perr + host" where
  "custom_ls directory h = (case directory of None \<Rightarrow> Inl PFault | Some es \<Rightarrow> Inr (ls_entries es h))"

section \<open>main.c\<close>

text \<open>
  \<open>scanf("%c", &c)\<close> leaves \<open>c\<close> as it is at the end of the input. \<open>commands\<close> is one block of \<open>ARGUMENTS_SIZE\<close> rows of
  1024 characters; fuel bounds the characters read.
\<close>

definition scan :: "char \<Rightarrow> string \<Rightarrow> char \<times> string" where
  "scan c inp = (case inp of [] \<Rightarrow> (c, []) | x # xs \<Rightarrow> (x, xs))"

definition put_ch :: "string \<Rightarrow> nat \<Rightarrow> nat \<Rightarrow> char \<Rightarrow> perr + string" where
  "put_ch cmds command index c = st cmds (1024 * command + index) c"

text \<open>The three nested loops: inside quotes, inside a word, between words.\<close>

fun read_words :: "nat \<Rightarrow> bool \<Rightarrow> char \<Rightarrow> string \<Rightarrow> string \<Rightarrow> nat \<Rightarrow> nat \<Rightarrow> perr + (string \<times> string)" where
  "read_words 0 quoted c inp cmds command index = Inl PFuel"
| "read_words (Suc n) quoted c inp cmds command index =
     (case scan c inp of (c, inp) \<Rightarrow>
        if quoted then
          (if c = CHR 0x22 then read_words n False c inp cmds (command + 1) index
           else bindE (put_ch cmds command index c) (\<lambda>cmds. read_words n True c inp cmds command (index + 1)))
        else if c = CHR 0x22 then read_words n True c inp cmds command index
        else if c = CHR '' '' \<or> c = CHR 0x09 \<or> c = NL then
          (if c = NL then Inr (cmds, inp) else read_words n False c inp cmds (command + 1) 0)
        else bindE (put_ch cmds command index c) (\<lambda>cmds. read_words n False c inp cmds command (index + 1)))"

definition read_line :: "nat \<Rightarrow> string \<Rightarrow> perr + (string \<times> string)" where
  "read_line n inp = read_words n False NUL inp (replicate (ARGUMENTS_SIZE * 1024) NUL) 0 0"

definition row :: "string \<Rightarrow> nat \<Rightarrow> string" where
  "row cmds i = drop (1024 * i) cmds"

definition args_of :: "string \<Rightarrow> string list" where
  "args_of cmds = map (\<lambda>i. row cmds (i + 1)) [0..<ARGUMENTS_SIZE - 1]"

text \<open>One round: the new path, host and remaining input, or None when the shell ends.\<close>

definition run_command :: "nat \<Rightarrow> os \<Rightarrow> string \<Rightarrow> string \<Rightarrow> string \<Rightarrow> host \<Rightarrow> perr + (string \<times> host) option" where
  "run_command n os g cmds d h =
     (let name = cstr_of (row cmds 0) in
      if name = [] then Inr (Some (d, h))
      else if name = ''cat'' then bindE (custom_cat os (map cstr_of (args_of cmds)) h) (\<lambda>h. Inr (Some (d, h)))
      else if name = ''cd'' then bindE (custom_cd n os (row cmds 1) d h) (\<lambda>dh. Inr (Some dh))
      else if name = ''cp'' then bindE (custom_cp n os g (args_of cmds) d h) (\<lambda>h. Inr (Some (d, h)))
      else if name = ''ls'' then bindE (custom_ls (os_list os (cstr_of d)) h) (\<lambda>h. Inr (Some (d, h)))
      else if name = ''mv'' then bindE (custom_mv n os g (args_of cmds) d h) (\<lambda>h. Inr (Some (d, h)))
      else if name = ''exit'' then Inr None
      else Inr (Some (d, say (name @ '': Command not found.'' @ [NL]) h)))"

fun shell_main :: "nat \<Rightarrow> os \<Rightarrow> string \<Rightarrow> string \<Rightarrow> string \<Rightarrow> host \<Rightarrow> perr + host" where
  "shell_main 0 os g d inp h = Inl PFuel"
| "shell_main (Suc n) os g d inp h =
     bindE (read_line n inp) (\<lambda>(cmds, inp).
     bindE (run_command n os g cmds d (say (cstr_of d @ ''$: '') h)) (\<lambda>r. case r of
        None \<Rightarrow> Inr (say (cstr_of d @ ''$: '') h)
      | Some (d, h) \<Rightarrow> shell_main n os g d inp h))"

section \<open>Zero-padded arrays\<close>

definition padded :: "nat \<Rightarrow> string \<Rightarrow> string" where
  "padded n s = s @ replicate (n - length s) NUL"

definition fits_in :: "nat \<Rightarrow> string \<Rightarrow> bool" where
  "fits_in n s \<longleftrightarrow> NUL \<notin> set s \<and> length s < n"

lemma cstr_of_NUL [simp]: "NUL \<notin> set s \<Longrightarrow> cstr_of (s @ NUL # r) = s"
proof -
  assume "NUL \<notin> set s"
  then have "\<forall>c\<in>set s. c \<noteq> NUL" by auto
  then show ?thesis by (simp add: cstr_of_def takeWhile_append2)
qed

lemma padded_NUL: "fits_in n s \<Longrightarrow> padded n s = s @ NUL # replicate (n - length s - 1) NUL"
  by (cases "n - length s") (auto simp: padded_def fits_in_def)

lemma cstr_of_padded [simp]: "fits_in n s \<Longrightarrow> cstr_of (padded n s) = s"
  by (simp add: padded_NUL fits_in_def)

lemma slen_padded [simp]: "fits_in n s \<Longrightarrow> slen (padded n s) = Inr (length s)"
  by (simp add: slen_def) (simp add: padded_NUL)

lemma length_padded: "fits_in n s \<Longrightarrow> length (padded n s) = n"
  by (simp add: padded_def fits_in_def)

lemma push_padded [simp]: "fits_in n s \<Longrightarrow> push (padded n s) c = Inr (padded n (s @ [c]))"
  by (simp add: push_def st_def length_padded)
    (simp add: padded_NUL, simp add: fits_in_def padded_def)

lemma last_ch_padded [simp]: "fits_in n s \<Longrightarrow> s \<noteq> [] \<Longrightarrow> last_ch (padded n s) = Inr (last s)"
  by (simp add: last_ch_def ld_def length_padded)
    (auto simp: padded_def nth_append last_conv_nth fits_in_def)

lemma chop_padded [simp]: "fits_in n s \<Longrightarrow> s \<noteq> [] \<Longrightarrow> chop (padded n s) = Inr (padded n (butlast s))"
proof -
  assume s: "fits_in n s" "s \<noteq> []"
  obtain t c where t: "s = t @ [c]"
    using s(2) by (metis append_butlast_last_id)
  have "(padded n s)[length s - 1 := NUL] = padded n (butlast s)"
    using s by (simp add: t padded_def fits_in_def list_update_append Suc_diff_Suc flip: replicate_Suc)
  then show ?thesis
    using s by (auto simp: chop_def st_def length_padded) (auto simp: fits_in_def)
qed

lemma scpy_zeros [simp]: "fits_in BUFFER_SIZE s \<Longrightarrow> scpy zeros s = Inr (padded BUFFER_SIZE s)"
  by (simp add: scpy_def zeros_def padded_NUL) (simp add: fits_in_def)

lemma fits_butlast: "fits_in n s \<Longrightarrow> fits_in n (butlast s)"
  by (auto simp: fits_in_def dest: in_set_butlastD)

lemma slash_end_padded:
  "fits_in n s \<Longrightarrow> s \<noteq> [] \<Longrightarrow>
   slash_end (padded n s) = Inr (padded n (if last s = CHR ''/'' then s else s @ ''/''))"
  by (simp add: slash_end_def)

lemma strip_end_padded:
  "fits_in n s \<Longrightarrow> s \<noteq> [] \<Longrightarrow>
   strip_end (padded n s) = Inr (padded n (if length s \<noteq> 1 \<and> last s = CHR ''/'' then butlast s else s))"
  by (simp add: strip_end_def)

section \<open>cat\<close>

lemma cat_text_id: "NUL \<notin> set s \<Longrightarrow> cat_text s = s"
proof (induction s rule: cat_text.induct)
  case (1 s)
  show ?case
  proof (cases "s = []")
    case False
    let ?f = "fgets (BUFFER_SIZE - 1) s"
    have app: "fst ?f @ snd ?f = s"
      by (rule fgets_app)
    then have "NUL \<notin> set (fst ?f)" "NUL \<notin> set (snd ?f)"
      using 1 by (metis Un_iff set_append)+
    moreover from this have "cstr_of (fst ?f) = fst ?f"
      by (auto simp: cstr_of_def takeWhile_eq_all_conv)
    ultimately show ?thesis
      using 1 False app by (subst cat_text.simps) simp
  qed (simp add: cat_text.simps)
qed

lemma cat_files_ok:
  assumes "\<forall>a\<in>set as. a \<noteq> [] \<and> (\<exists>s. hfs h (os_res os a) = Some s \<and> NUL \<notin> set s)" "as \<noteq> [] \<or> 0 < i"
  shows "cat_files os (as @ [] # r) i h =
    Inr (say (concat (map (\<lambda>a. the (hfs h (os_res os a)) @ [NL]) as)) h)"
  using assms
proof (induction as arbitrary: h i)
  case (Cons a as)
  then obtain s where s: "hfs h (os_res os a) = Some s" "NUL \<notin> set s" "a \<noteq> []"
    by auto
  let ?h = "say (s @ [NL]) h"
  have "cat_files os (as @ [] # r) (i + 1) ?h = Inr (say (concat (map (\<lambda>a. the (hfs ?h (os_res os a)) @ [NL]) as)) ?h)"
    using Cons.prems by (intro Cons.IH) (auto simp: say_def)
  then show ?case
    using s by (simp add: cat_text_id say_def)
qed (simp add: say_def)

text \<open>
  C32: \<open>custom_cat\<close> on existing text files (no NUL bytes) prints the contents of each in order, each followed by
  a newline, whatever the length of their lines.
\<close>

theorem custom_cat_prints:
  assumes "\<forall>a\<in>set as. a \<noteq> [] \<and> (\<exists>s. hfs h (os_res os a) = Some s \<and> NUL \<notin> set s)" "as \<noteq> []"
  shows "custom_cat os (as @ [] # r) h =
    Inr (h\<lparr>hout := hout h @ concat (map (\<lambda>a. the (hfs h (os_res os a)) @ [NL]) as)\<rparr>)"
  using cat_files_ok [OF assms(1)] assms(2) by (simp add: custom_cat_def say_def)

section \<open>cd\<close>

lemma cd_loop_plain:
  assumes "NUL \<notin> set a" "CHR ''.'' \<notin> set a" "fits_in m (p @ a)" "arg = pre @ a @ rest" "length a < n"
  shows "cd_loop n arg (length pre) (padded m p) = cd_loop (n - length a) arg (length (pre @ a)) (padded m (p @ a))"
  using assms
proof (induction a arbitrary: pre p n)
  case (Cons c a)
  obtain k where n: "n = Suc k"
    using Cons.prems(5) by (cases n) auto
  have "cd_loop k arg (length (pre @ [c])) (padded m (p @ [c])) =
      cd_loop (k - length a) arg (length ((pre @ [c]) @ a)) (padded m ((p @ [c]) @ a))"
    using Cons.prems n by (intro Cons.IH) auto
  moreover have "fits_in m p"
    using Cons.prems(3) by (auto simp: fits_in_def)
  moreover have "ld arg (length pre) = Inr c"
    using Cons.prems(4) by (simp add: ld_def)
  ultimately show ?case
    using Cons.prems(1,2) n by auto
qed simp

lemma cd_loop_end: "ld arg i = Inr NUL \<Longrightarrow> 0 < n \<Longrightarrow> cd_loop n arg i d = Inr (Some d)"
  by (cases n) auto

definition joined_path :: "string \<Rightarrow> string \<Rightarrow> string" where
  "joined_path p a = (let q = (if last p = CHR ''/'' then p else p @ ''/'') @ a in
     if last q = CHR ''/'' then butlast q else q)"

text \<open>
  C33: \<open>custom_cd\<close> with a relative path without dots ends. The new path is the old one extended by the argument,
  without a trailing slash, when that is a directory; otherwise the path is left exactly as it was and the
  error is reported.
\<close>

theorem custom_cd_relative:
  assumes "a \<noteq> []" "hd a \<noteq> CHR ''/''" "CHR ''.'' \<notin> set a" "NUL \<notin> set a" "p \<noteq> []"
    "fits_in BUFFER_SIZE (p @ ''/'' @ a)" "length a + 1 < n"
  shows "custom_cd n os (a @ NUL # rest) (padded BUFFER_SIZE p) h =
    (if os_isdir os (joined_path p a) then Inr (padded BUFFER_SIZE (joined_path p a), h)
     else Inr (padded BUFFER_SIZE p, say (a @ '': Not a directory.'' @ [NL]) h))"
proof -
  let ?b = "if last p = CHR ''/'' then p else p @ ''/''"
  let ?q = "?b @ a"
  have fp: "fits_in BUFFER_SIZE p" and fq: "fits_in BUFFER_SIZE ?q"
    using assms(6) by (auto simp: fits_in_def)
  have hd: "ld (a @ NUL # rest) 0 = Inr (hd a)" "hd a \<noteq> NUL"
    using assms(1,4) by (cases a, auto simp: ld_def)+
  have "cd_loop n (a @ NUL # rest) 0 (padded BUFFER_SIZE ?b) =
      cd_loop (n - length a) (a @ NUL # rest) (length a) (padded BUFFER_SIZE ?q)"
    using cd_loop_plain [of a BUFFER_SIZE ?b "a @ NUL # rest" "[]" "NUL # rest" n] assms fq by simp
  also have "\<dots> = Inr (Some (padded BUFFER_SIZE ?q))"
    using assms(7) by (intro cd_loop_end) (auto simp: ld_def)
  finally have loop: "cd_loop n (a @ NUL # rest) 0 (padded BUFFER_SIZE ?b) = Inr (Some (padded BUFFER_SIZE ?q))" .
  have len: "length ?q \<noteq> 1"
    using assms(1,5) by (cases p; cases a) auto
  have "strip_end (padded BUFFER_SIZE ?q) = Inr (padded BUFFER_SIZE (joined_path p a))"
    using strip_end_padded [OF fq] assms(1) len by (simp add: joined_path_def Let_def)
  moreover have "fits_in BUFFER_SIZE (joined_path p a)"
    using fq fits_butlast [OF fq] by (simp add: joined_path_def Let_def)
  ultimately show ?thesis
    using hd assms(2,4,5) fp loop slash_end_padded [OF fp] by (simp add: custom_cd_def Let_def not_a_directory_def)
qed


section \<open>cp and mv\<close>

lemma fcopy_id [simp]: "fcopy data = data"
  by (induction data rule: fcopy.induct) (simp add: fcopy.simps)

lemma new_path_ok:
  assumes "fits_in BUFFER_SIZE (cstr_of t @ ''/'' @ cstr_of a)"
  shows "\<exists>p. new_path t a = Inr p \<and> cstr_of p = cstr_of t @ ''/'' @ cstr_of a"
proof -
  have f: "fits_in BUFFER_SIZE (cstr_of t)" "fits_in BUFFER_SIZE (cstr_of t @ ''/'')" and nul: "NUL \<notin> set (cstr_of a)"
    using assms by (auto simp: fits_in_def)
  let ?d = "padded BUFFER_SIZE (cstr_of t @ ''/'')"
  have "length (cstr_of t @ ''/'') + length (cstr_of a) < length ?d"
    using assms f(2) by (simp add: length_padded) (simp add: fits_in_def)
  moreover have "take (length (cstr_of t @ ''/'')) ?d = cstr_of t @ ''/''"
    by (simp add: padded_def)
  ultimately have "new_path t a = Inr ((cstr_of t @ ''/'' @ cstr_of a) @ NUL # drop (length (cstr_of t @ ''/'') + length (cstr_of a) + 1) ?d)"
    using f by (simp add: new_path_def scat_def)
  moreover have "NUL \<notin> set (cstr_of t @ ''/'' @ cstr_of a)"
    using assms by (simp add: fits_in_def)
  ultimately show ?thesis
    by (metis cstr_of_NUL)
qed

text \<open>What one copy does: \<open>tgt\<close> is the file the destination path names.\<close>

definition tgt :: "os \<Rightarrow> string \<Rightarrow> string \<Rightarrow> string" where
  "tgt os dst a = os_res os (dst @ ''/'' @ a)"

definition copyable :: "os \<Rightarrow> string \<Rightarrow> host \<Rightarrow> string \<Rightarrow> bool" where
  "copyable os dst h a \<longleftrightarrow>
     fits_in BUFFER_SIZE (dst @ ''/'' @ a) \<and> os_wok os (dst @ ''/'' @ a) \<and> hfs h (os_res os a) \<noteq> None"

lemma copy_file_ok:
  assumes "copyable os (cstr_of t) h (cstr_of a)"
  shows "copy_file os t a h = Inr (True, h\<lparr>hfs := (hfs h)(tgt os (cstr_of t) (cstr_of a) :=
    (if tgt os (cstr_of t) (cstr_of a) = os_res os (cstr_of a) then Some [] else hfs h (os_res os (cstr_of a))))\<rparr>)"
proof -
  obtain p where p: "new_path t a = Inr p" "cstr_of p = cstr_of t @ ''/'' @ cstr_of a"
    using new_path_ok assms unfolding copyable_def by blast
  obtain data where "hfs h (os_res os (cstr_of a)) = Some data"
    using assms by (auto simp: copyable_def)
  then show ?thesis
    using p assms by (auto simp: copy_file_def copyable_def tgt_def Let_def)
qed

text \<open>Distinct sources go to distinct files none of which is a source.\<close>

definition apart :: "os \<Rightarrow> string \<Rightarrow> string list \<Rightarrow> bool" where
  "apart os dst as \<longleftrightarrow>
     distinct (map (tgt os dst) as) \<and> distinct (map (os_res os) as) \<and>
     (\<forall>a\<in>set as. \<forall>b\<in>set as. tgt os dst a \<noteq> os_res os b)"

definition copied :: "os \<Rightarrow> string \<Rightarrow> string list \<Rightarrow> host \<Rightarrow> host \<Rightarrow> bool" where
  "copied os dst as h h' \<longleftrightarrow> hout h' = hout h \<and>
     (\<forall>a\<in>set as. hfs h' (tgt os dst a) = hfs h (os_res os a)) \<and>
     (\<forall>x. x \<notin> tgt os dst ` set as \<longrightarrow> hfs h' x = hfs h x)"

definition moved :: "os \<Rightarrow> string \<Rightarrow> string list \<Rightarrow> host \<Rightarrow> host \<Rightarrow> bool" where
  "moved os dst as h h' \<longleftrightarrow> hout h' = hout h \<and>
     (\<forall>a\<in>set as. hfs h' (tgt os dst a) = hfs h (os_res os a) \<and> hfs h' (os_res os a) = None) \<and>
     (\<forall>x. x \<notin> tgt os dst ` set as \<union> os_res os ` set as \<longrightarrow> hfs h' x = hfs h x)"

lemma apart_snoc:
  "apart os dst (as @ [a]) \<Longrightarrow> apart os dst as \<and> tgt os dst a \<noteq> os_res os a \<and>
   (\<forall>b\<in>set as. tgt os dst a \<noteq> tgt os dst b \<and> os_res os a \<noteq> os_res os b \<and>
      tgt os dst a \<noteq> os_res os b \<and> tgt os dst b \<noteq> os_res os a)"
  unfolding apart_def by auto

lemma cp_files_ok:
  assumes "apart os (cstr_of t) as" "\<forall>a\<in>set as. copyable os (cstr_of t) h a"
    "map cstr_of (take (length as) args) = as"
  shows "\<exists>h'. cp_files os t args (length as) h = Inr h' \<and> copied os (cstr_of t) as h h'"
  using assms
proof (induction as arbitrary: h rule: rev_induct)
  case (snoc a as)
  define dst where "dst = cstr_of t"
  let ?h = "h\<lparr>hfs := (hfs h)(tgt os dst a := hfs h (os_res os a))\<rparr>"
  have len: "length as < length args"
    using arg_cong [OF snoc.prems(3), of length] by simp
  then have "take (length (as @ [a])) args = take (length as) args @ [args ! length as]"
    by (simp add: take_Suc_conv_app_nth)
  then have at: "map cstr_of (take (length as) args) = as" "cstr_of (args ! length as) = a"
    using snoc.prems(3) by simp_all
  note ap = apart_snoc [OF snoc.prems(1), folded dst_def]
  have ok: "\<forall>b\<in>set as. copyable os dst ?h b"
    using snoc.prems(2) ap by (auto simp: copyable_def dst_def)
  have "copy_file os t (args ! length as) h = Inr (True, ?h)"
    using copy_file_ok [of os t h "args ! length as"] snoc.prems(2) at(2) ap by (simp add: dst_def)
  moreover obtain h' where h': "cp_files os t args (length as) ?h = Inr h'" "copied os dst as ?h h'"
    using snoc.IH [of ?h] ap ok at(1) unfolding dst_def by blast
  moreover have "copied os dst (as @ [a]) h h'"
    using h'(2) ap unfolding copied_def by auto
  ultimately show ?case
    using len by (auto simp: ld_def dst_def)
qed (simp add: copied_def)

lemma mv_files_ok:
  assumes "apart os (cstr_of t) as" "\<forall>a\<in>set as. copyable os (cstr_of t) h a"
    "map cstr_of (take (length as) args) = as"
  shows "\<exists>h'. mv_files os t args (length as) h = Inr h' \<and> moved os (cstr_of t) as h h'"
  using assms
proof (induction as arbitrary: h rule: rev_induct)
  case (snoc a as)
  define dst where "dst = cstr_of t"
  let ?h = "h\<lparr>hfs := (hfs h)(tgt os dst a := hfs h (os_res os a))\<rparr>"
  let ?h2 = "?h\<lparr>hfs := (hfs ?h)(os_res os a := None)\<rparr>"
  have len: "length as < length args"
    using arg_cong [OF snoc.prems(3), of length] by simp
  then have "take (length (as @ [a])) args = take (length as) args @ [args ! length as]"
    by (simp add: take_Suc_conv_app_nth)
  then have at: "map cstr_of (take (length as) args) = as" "cstr_of (args ! length as) = a"
    using snoc.prems(3) by simp_all
  note ap = apart_snoc [OF snoc.prems(1), folded dst_def]
  have ok: "\<forall>b\<in>set as. copyable os dst ?h2 b"
    using snoc.prems(2) ap by (auto simp: copyable_def dst_def)
  have "copy_file os t (args ! length as) h = Inr (True, ?h)"
    using copy_file_ok [of os t h "args ! length as"] snoc.prems(2) at(2) ap by (simp add: dst_def)
  moreover obtain h' where h': "mv_files os t args (length as) ?h2 = Inr h'" "moved os dst as ?h2 h'"
    using snoc.IH [of ?h2] ap ok at(1) unfolding dst_def by blast
  moreover have "moved os dst (as @ [a]) h h'"
  proof -
    have "os_res os a \<notin> tgt os dst ` set as \<union> os_res os ` set as" "tgt os dst a \<notin> tgt os dst ` set as \<union> os_res os ` set as"
      using ap by auto
    then show ?thesis
      using h'(2) ap unfolding moved_def by auto
  qed
  ultimately show ?case
    using len at(2) by (auto simp: ld_def dst_def)
qed (simp add: moved_def)

lemma count_args_ok:
  "map cstr_of args = as @ [] # ys \<Longrightarrow> [] \<notin> set as \<Longrightarrow> count_args args i = Inr (i + length as)"
proof (induction as arbitrary: args i)
  case Nil
  then show ?case by (cases args) auto
next
  case (Cons a as)
  then show ?case by (cases args) auto
qed

lemma dest_path_abs:
  assumes "cstr_of arg = dst" "dst \<noteq> []" "hd dst = CHR ''/''" "length g = BUFFER_SIZE" "length dst < BUFFER_SIZE"
  shows "\<exists>t. dest_path n g arg d = Inr (Some t) \<and> cstr_of t = dst"
proof -
  have "ld arg 0 = Inr (CHR ''/'')"
    using assms(1-3) by (cases arg) (auto simp: cstr_of_def ld_def split: if_splits)
  moreover have "NUL \<notin> set dst"
    using assms(1) by (auto simp: cstr_of_def dest: set_takeWhileD)
  ultimately show ?thesis
    using assms by (auto simp: dest_path_def scpy_def)
qed

definition args_for :: "string list \<Rightarrow> string list \<Rightarrow> string \<Rightarrow> string list \<Rightarrow> bool" where
  "args_for args as dst ys \<longleftrightarrow> map cstr_of args = as @ dst # [] # ys \<and> as \<noteq> [] \<and> [] \<notin> set as \<and>
     dst \<noteq> [] \<and> hd dst = CHR ''/'' \<and> length dst < BUFFER_SIZE"

lemma args_forD:
  assumes "args_for args as dst ys"
  shows "count_args args 0 = Inr (length as + 1)" "length as \<noteq> 0"
    "\<exists>arg. ld args (length as) = Inr arg \<and> cstr_of arg = dst"
    "map cstr_of (take (length as) args) = as"
proof -
  note a = assms [unfolded args_for_def]
  show "count_args args 0 = Inr (length as + 1)"
    using count_args_ok [of args "as @ [dst]" ys 0] a by auto
  have "length as < length args"
    using a by (metis length_append length_map less_add_same_cancel1 length_Cons zero_less_Suc)
  moreover have "map cstr_of args ! length as = dst"
    using a by simp
  ultimately show "\<exists>arg. ld args (length as) = Inr arg \<and> cstr_of arg = dst"
    by (simp add: ld_def)
  show "map cstr_of (take (length as) args) = as"
    using a by (simp flip: take_map)
qed (use assms in \<open>simp add: args_for_def\<close>)


text \<open>
  \<open>custom_mv\<close> of a file into the directory it is in destroys it: the destination is truncated before the
  source is read, and then the source, the same file, is removed.
\<close>

theorem mv_in_place_destroys:
  assumes "args_for args [a] dst ys" "length g = BUFFER_SIZE" "os_isdir os dst" "copyable os dst h a"
    "tgt os dst a = os_res os a"
  shows "custom_mv n os g args d h = Inr (h\<lparr>hfs := (hfs h)(os_res os a := None)\<rparr>)"
proof -
  note f = args_forD [OF assms(1)]
  obtain arg where arg: "ld args 1 = Inr arg" "cstr_of arg = dst"
    using f(3) by auto
  obtain t where t: "dest_path n g arg d = Inr (Some t)" "cstr_of t = dst"
    using dest_path_abs [of arg dst g n d] arg(2) assms(1,2) unfolding args_for_def by blast
  obtain src where src: "ld args 0 = Inr src" "cstr_of src = a"
    using f(4) by (cases args) (auto simp: ld_def)
  have "copy_file os t src h = Inr (True, h\<lparr>hfs := (hfs h)(os_res os a := Some [])\<rparr>)"
    using copy_file_ok [of os t h src] assms(4,5) t(2) src(2) by simp
  then show ?thesis
    using f(1) arg t src assms(3) by (simp add: custom_mv_def)
qed

section \<open>Reading a command\<close>

text \<open>The characters \<open>w\<close> stored from position \<open>i\<close> on.\<close>

definition wr :: "string \<Rightarrow> nat \<Rightarrow> string \<Rightarrow> string" where
  "wr b i w = take i b @ w @ drop (i + length w) b"

lemma wr_length [simp]: "i + length w \<le> length b \<Longrightarrow> length (wr b i w) = length b"
  by (simp add: wr_def)

lemma wr_nth:
  "i + length w \<le> length b \<Longrightarrow> j < length b \<Longrightarrow> wr b i w ! j = (if i \<le> j \<and> j < i + length w then w ! (j - i) else b ! j)"
  by (auto simp: wr_def nth_append min_def)

lemma wr_snoc: "i + length w < length b \<Longrightarrow> (wr b i w)[i + length w := c] = wr b i (w @ [c])"
proof -
  assume len: "i + length w < length b"
  then have "drop (i + length w) b = b ! (i + length w) # drop (Suc (i + length w)) b"
    by (simp add: Cons_nth_drop_Suc)
  then show ?thesis
    using len by (simp add: wr_def list_update_append min_def)
qed

definition plain_ch :: "char \<Rightarrow> bool" where
  "plain_ch c \<longleftrightarrow> c \<noteq> CHR 0x22 \<and> c \<noteq> CHR '' '' \<and> c \<noteq> CHR 0x09 \<and> c \<noteq> NL \<and> c \<noteq> NUL"

text \<open>Characters in quotes or in a word go to the current row.\<close>

lemma read_run:
  assumes "\<forall>x\<in>set w. if q then x \<noteq> CHR 0x22 else plain_ch x" "1024 * k + i + length (u @ w) \<le> length b"
  shows "read_words (length w + n) q c (w @ inp) (wr b (1024 * k + i) u) k (i + length u) =
    read_words n q (if w = [] then c else last w) inp (wr b (1024 * k + i) (u @ w)) k (i + length (u @ w))"
  using assms
proof (induction w arbitrary: c u)
  case (Cons x w)
  have "put_ch (wr b (1024 * k + i) u) k (i + length u) x = Inr (wr b (1024 * k + i) (u @ [x]))"
    using Cons.prems(2) wr_snoc [of "1024 * k + i" u b x] by (simp add: put_ch_def st_def add.assoc)
  moreover have "read_words (length w + n) q x (w @ inp) (wr b (1024 * k + i) (u @ [x])) k (i + length (u @ [x])) =
      read_words n q (if w = [] then x else last w) inp (wr b (1024 * k + i) ((u @ [x]) @ w)) k (i + length ((u @ [x]) @ w))"
    using Cons.prems by (intro Cons.IH) auto
  ultimately show ?case
    using Cons.prems(1) by (cases q) (auto simp: scan_def plain_ch_def)
qed simp

lemma read_run0:
  assumes "\<forall>x\<in>set w. if q then x \<noteq> CHR 0x22 else plain_ch x" "1024 * k + length w \<le> length b"
  shows "read_words (length w + n) q c (w @ inp) b k 0 =
    read_words n q (if w = [] then c else last w) inp (wr b (1024 * k) w) k (length w)"
  using read_run [of w q k 0 "[]" b n c inp] assms by (simp add: wr_def)

lemma read_open:
  "read_words (Suc (Suc n)) False c (CHR '' '' # CHR 0x22 # r) b 0 i = read_words n True (CHR 0x22) r b 1 0"
  by (simp add: scan_def)

lemma read_close:
  "read_words (Suc (Suc n)) True c (CHR 0x22 # CHR '' '' # r) b 1 i = read_words n False (CHR '' '') r b 3 0"
  by (simp add: scan_def numeral_3_eq_3)

definition zero_cmds :: string where
  "zero_cmds = replicate (ARGUMENTS_SIZE * 1024) NUL"

lemma cstr_of_replicate [simp]: "cstr_of (replicate n NUL) = []"
  by (cases n) (simp_all add: cstr_of_def)

lemma row_wr_same:
  "NUL \<notin> set w \<Longrightarrow> length w < 1024 \<Longrightarrow> 1024 * k + 1024 \<le> length b \<Longrightarrow>
   (\<And>j. j < 1024 \<Longrightarrow> b ! (1024 * k + j) = NUL) \<Longrightarrow> cstr_of (row (wr b (1024 * k) w) k) = w"
proof -
  assume w: "NUL \<notin> set w" "length w < 1024" "1024 * k + 1024 \<le> length b"
    and z: "\<And>j. j < 1024 \<Longrightarrow> b ! (1024 * k + j) = NUL"
  have "row (wr b (1024 * k) w) k = w @ drop (1024 * k + length w) b"
    using w(3) by (simp add: row_def wr_def)
  also have "drop (1024 * k + length w) b = NUL # drop (Suc (1024 * k + length w)) b"
    using w z [of "length w"] Cons_nth_drop_Suc [of "1024 * k + length w" b] by simp
  finally show "cstr_of (row (wr b (1024 * k) w) k) = w"
    using w(1) by simp
qed

lemma row_wr_earlier:
  assumes "k' < k" "NUL \<in> set (take (1024 * k - 1024 * k') (row b k'))" "1024 * k \<le> length b"
  shows "cstr_of (row (wr b (1024 * k) w) k') = cstr_of (row b k')"
proof -
  let ?m = "1024 * k - 1024 * k'"
  have t: "take ?m (row (wr b (1024 * k) w) k') = take ?m (row b k')"
    using assms(1,3) by (simp add: row_def wr_def drop_take)
  have "cstr_of x = cstr_of (take ?m x)" if "NUL \<in> set (take ?m x)" for x
  proof -
    have "cstr_of (take ?m x @ drop ?m x) = cstr_of (take ?m x)"
      unfolding cstr_of_def using that by (intro takeWhile_append1) auto
    then show ?thesis by simp
  qed
  then show ?thesis
    using t assms(2) by metis
qed

text \<open>The rows after a command, a quoted text and a last word were stored in rows 0, 1 and 3.\<close>

lemma quote_rows:
  assumes "NUL \<notin> set w" "NUL \<notin> set q" "NUL \<notin> set v" "length w < 1024" "length q < 1024" "length v < 1024"
  defines "b1 \<equiv> wr zero_cmds (1024 * 0) w" and "b2 \<equiv> wr (wr zero_cmds (1024 * 0) w) (1024 * 1) q"
    and "b3 \<equiv> wr (wr (wr zero_cmds (1024 * 0) w) (1024 * 1) q) (1024 * 3) v"
  shows "cstr_of (row b3 0) = w" "cstr_of (row b3 1) = q" "cstr_of (row b3 2) = []" "cstr_of (row b3 3) = v"
proof -
  have b: "b2 = wr b1 (1024 * 1) q" "b3 = wr b2 (1024 * 3) v"
    by (simp_all add: b1_def b2_def b3_def)
  have len: "length zero_cmds = 16384" "length b1 = 16384" "length b2 = 16384"
    using assms(4-6) by (simp_all add: zero_cmds_def b1_def b2_def)
  have z0: "zero_cmds ! j = NUL" if "j < 16384" for j
    using that by (simp add: zero_cmds_def)
  have z1: "b1 ! j = NUL" if "length w \<le> j" "j < 16384" for j
    using that assms(4) len z0 by (simp add: b1_def wr_nth)
  have z2: "b2 ! j = NUL" if "length w \<le> j" "j < 1024 \<or> 1024 + length q \<le> j" "j < 16384" for j
    using that assms(5) len z1 by (auto simp: b wr_nth)
  have in_row: "NUL \<in> set (take m (row b k))"
    if "b ! (1024 * k + j) = NUL" "j < m" "1024 * k + j < length b" for b :: string and k j m
    using that by (auto simp: row_def in_set_conv_nth intro!: exI [of _ j])
  have keep: "cstr_of (row b3 k) = cstr_of (row b2 k)" if "k < 3" "length w \<le> 1024 * k + j" "j < 1024"
      "1024 * k + j < 1024 \<or> 1024 + length q \<le> 1024 * k + j" for k j
    unfolding b(2) using that len z2 [of "1024 * k + j"]
    by (intro row_wr_earlier in_row [of b2 k j]) auto
  show "cstr_of (row b3 3) = v"
    unfolding b(2) using assms(3-6) len z2 by (intro row_wr_same) auto
  have "b2 ! 2048 = NUL"
    using assms(4,5) by (intro z2) auto
  then have "drop 2048 b2 = [] @ NUL # drop (Suc 2048) b2"
    using len(3) Cons_nth_drop_Suc [of 2048 b2] by simp
  then have "cstr_of (row b2 2) = []"
    using cstr_of_NUL [of "[]"] by (simp add: row_def)
  then show "cstr_of (row b3 2) = []"
    using keep [of 2 0] assms(4,5) by simp
  have "cstr_of (row b2 1) = q"
    unfolding b(1) using assms(2,4,5) len z1 by (intro row_wr_same) auto
  then show "cstr_of (row b3 1) = q"
    using keep [of 1 "length q"] assms(4,5) by simp
  have "cstr_of (row b1 0) = w"
    unfolding b1_def using assms(1,4) len z0 by (intro row_wr_same) auto
  moreover have "cstr_of (row b2 0) = cstr_of (row b1 0)"
    unfolding b(1) using assms(4) len z1 [of "length w"] by (intro row_wr_earlier in_row [of b1 0 "length w"]) auto
  ultimately show "cstr_of (row b3 0) = w"
    using keep [of 0 "length w"] assms(4) by simp
qed

text \<open>
  A quoted argument swallows the arguments after it. For the line \<open>w "q" v\<close> the command and the quoted text
  are stored in the first two rows, but the blank after the closing quote ends a second, empty word, so
  the third row is empty and \<open>v\<close> lands in the fourth: every command, which reads its arguments up to the first
  empty one, never sees \<open>v\<close>.
\<close>

theorem quote_hides_arguments:
  assumes "\<forall>x\<in>set w. plain_ch x" "\<forall>x\<in>set q. x \<noteq> CHR 0x22 \<and> x \<noteq> NUL" "\<forall>x\<in>set v. plain_ch x"
    "length w < 1024" "length q < 1024" "length v < 1024"
  shows "\<exists>cmds. read_line (length w + length q + length v + 5 + n) (w @ CHR '' '' # CHR 0x22 # q @ CHR 0x22 # CHR '' '' # v @ NL # inp) =
      Inr (cmds, inp) \<and>
    cstr_of (row cmds 0) = w \<and> cstr_of (row cmds 1) = q \<and> cstr_of (row cmds 2) = [] \<and> cstr_of (row cmds 3) = v"
proof -
  define b1 b2 b3 where b: "b1 = wr zero_cmds (1024 * 0) w" "b2 = wr b1 (1024 * 1) q" "b3 = wr b2 (1024 * 3) v"
  have len: "length zero_cmds = 16384" "length b1 = 16384" "length b2 = 16384" "length b3 = 16384"
    using assms(4-6) by (simp_all add: zero_cmds_def b)
  have nul: "NUL \<notin> set w" "NUL \<notin> set q" "NUL \<notin> set v"
    using assms(1-3) unfolding plain_ch_def by blast+
  let ?v = "CHR 0x22 # CHR '' '' # v @ NL # inp"
  let ?q = "CHR '' '' # CHR 0x22 # q @ ?v"
  have e1: "length q + length v + 5 + n = Suc (Suc (length q + (length v + 3 + n)))"
    and e2: "length v + 3 + n = Suc (Suc (length v + (1 + n)))"
    by simp_all
  have "read_line (length w + length q + length v + 5 + n) (w @ ?q) =
      read_words (length w + (length q + length v + 5 + n)) False NUL (w @ ?q) zero_cmds 0 0"
    by (simp add: read_line_def zero_cmds_def add.assoc)
  also have "\<dots> = read_words (length q + length v + 5 + n) False (if w = [] then NUL else last w) ?q b1 0 (length w)"
    unfolding b by (rule read_run0) (use assms len in auto)
  also have "\<dots> = read_words (length q + (length v + 3 + n)) True (CHR 0x22) (q @ ?v) b1 1 0"
    unfolding e1 read_open ..
  also have "\<dots> = read_words (length v + 3 + n) True (if q = [] then CHR 0x22 else last q) ?v b2 1 (length q)"
    unfolding b(2) by (rule read_run0) (use assms len in auto)
  also have "\<dots> = read_words (length v + (1 + n)) False (CHR '' '') (v @ NL # inp) b2 3 0"
    unfolding e2 read_close ..
  also have "\<dots> = read_words (1 + n) False (if v = [] then CHR '' '' else last v) (NL # inp) b3 3 (length v)"
    unfolding b(3) by (rule read_run0) (use assms len in auto)
  also have "\<dots> = Inr (b3, inp)"
    by (simp add: scan_def)
  finally show ?thesis
    using quote_rows [OF nul assms(4-6)] unfolding b by blast
qed

text \<open>
  An end of input at the prompt is not recognised: \<open>scanf\<close> leaves the character as it is, and the reader stores
  it again and again until it writes past the end of \<open>commands\<close>.
\<close>

theorem eof_overruns: "read_line (16385 + n) [] = Inl PFault"
proof -
  have "read_words k False NUL [] b 0 i = Inl PFault" if "16384 - i < k" "length b = 16384" "i \<le> 16384" for k b i
    using that
  proof (induction k arbitrary: b i)
    case (Suc k)
    show ?case
    proof (cases "i < 16384")
      case True
      then show ?thesis
        using Suc.IH [of "i + 1" "b[i := NUL]"] Suc.prems by (simp add: scan_def put_ch_def st_def)
    qed (use Suc.prems in \<open>simp add: scan_def put_ch_def st_def\<close>)
  qed simp
  then show ?thesis
    by (simp add: read_line_def)
qed

section \<open>Examples\<close>

definition ex_os :: os where
  "ex_os = \<lparr>os_isdir = (\<lambda>p. p \<in> {''/h'', ''/h/d'', ''/t''}), os_list = (\<lambda>_. None), os_wok = (\<lambda>_. True),
     os_res = (\<lambda>p. if p = ''a'' then ''/h/a'' else if p = ''b'' then ''/h/b'' else p), os_user = ''u''\<rparr>"

definition ex_host :: host where
  "ex_host = \<lparr>hfs = [''/h/a'' \<mapsto> ''one'', ''/h/b'' \<mapsto> ''two''], hout = []\<rparr>"

theorem custom_cat_prints_witness:
  "custom_cat ex_os ([''a'', ''b''] @ [] # []) ex_host =
    Inr (ex_host\<lparr>hout := hout ex_host @ concat (map (\<lambda>a. the (hfs ex_host (os_res ex_os a)) @ [NL]) [''a'', ''b''])\<rparr>)"
  by (rule custom_cat_prints) (simp_all add: ex_os_def ex_host_def)

theorem custom_cd_relative_witness:
  "custom_cd 10 ex_os (''d/'' @ NUL # []) (padded BUFFER_SIZE ''/h'') ex_host =
    (if os_isdir ex_os (joined_path ''/h'' ''d/'') then Inr (padded BUFFER_SIZE (joined_path ''/h'' ''d/''), ex_host)
     else Inr (padded BUFFER_SIZE ''/h'', say (''d/'' @ '': Not a directory.'' @ [NL]) ex_host))"
  by (rule custom_cd_relative) (simp_all add: fits_in_def)



end
