(* ===== verification/Fs.thy ===== *)
theory Fs
  imports Log_Crash
begin

text \<open>
  \<open>fs.c\<close>: block allocation, inodes and the inode cache, file contents, directories and path names, over the log.
  Inodes are indices into the cache, so a null inode pointer is \<open>None\<close> where the code returns one. Data copied to
  a caller's buffer is the list of its bytes. The device switch \<open>devsw\<close> is a table of functions, as in the code.
\<close>

section \<open>Layout\<close>

definition ROOTINO :: u32 where "ROOTINO = 1"
definition ROOTDEV :: u32 where "ROOTDEV = 1"
abbreviation (input) NINODE :: nat where "NINODE \<equiv> 50"
abbreviation (input) NDEV :: int where "NDEV \<equiv> 10"
abbreviation (input) NDIRECT :: nat where "NDIRECT \<equiv> 12"
abbreviation (input) NINDIRECT :: nat where "NINDIRECT \<equiv> 128"
abbreviation (input) MAXFILE :: nat where "MAXFILE \<equiv> 140"
abbreviation (input) IPB :: nat where "IPB \<equiv> 8"
abbreviation (input) BPB :: nat where "BPB \<equiv> 4096"
abbreviation (input) DIRSIZ :: nat where "DIRSIZ \<equiv> 14"
definition T_DIR :: u16 where "T_DIR = 1"
definition T_FILE :: u16 where "T_FILE = 2"
definition T_DEV :: u16 where "T_DEV = 3"

definition IBLOCK :: "u32 \<Rightarrow> superblock \<Rightarrow> u32" where
  "IBLOCK i sb = i div of_nat IPB + sb_inodestart sb"

definition BBLOCK :: "u32 \<Rightarrow> superblock \<Rightarrow> u32" where
  "BBLOCK b sb = b div of_nat BPB + sb_bmapstart sb"

record dinode =
  d_type :: u16
  d_major :: u16
  d_minor :: u16
  d_nlink :: u16
  d_size :: u32
  d_addrs :: "u32 list"

record inode =
  i_dev :: u32
  i_inum :: u32
  i_ref :: int
  i_valid :: int
  i_type :: u16
  i_major :: u16
  i_minor :: u16
  i_nlink :: u16
  i_size :: u32
  i_addrs :: "u32 list"

record fs_st = log_st +
  fsb :: superblock
  icache :: "inode list"

definition i_set :: "nat \<Rightarrow> (inode \<Rightarrow> inode) \<Rightarrow> 'a fs_st_scheme \<Rightarrow> 'a fs_st_scheme" where
  "i_set ip f s = s\<lparr>icache := (icache s)[ip := f (icache s ! ip)]\<rparr>"

text \<open>The offset of an inode in its block, and a \<open>struct dinode\<close> there.\<close>

definition ioff :: "u32 \<Rightarrow> nat" where
  "ioff inum = 64 * (unat inum mod IPB)"

definition get_dinode :: "u8 list \<Rightarrow> nat \<Rightarrow> dinode" where
  "get_dinode d a = \<lparr>d_type = ld16 d a, d_major = ld16 d (a + 2), d_minor = ld16 d (a + 4), d_nlink = ld16 d (a + 6),
     d_size = ld32 d (a + 8), d_addrs = get_words d (a + 12) (NDIRECT + 1)\<rparr>"

definition put_dinode :: "u8 list \<Rightarrow> nat \<Rightarrow> dinode \<Rightarrow> u8 list" where
  "put_dinode d a x =
     put_words (st32 (st16 (st16 (st16 (st16 d a (d_type x)) (a + 2) (d_major x)) (a + 4) (d_minor x)) (a + 6) (d_nlink x))
       (a + 8) (d_size x)) (a + 12) (d_addrs x)"

section \<open>Blocks\<close>

definition bzero :: "u32 \<Rightarrow> u32 \<Rightarrow> 'a log_st_scheme \<Rightarrow> ('a log_st_scheme) kres" where
  "bzero dev bno s =
     bindE (bread dev bno s) (\<lambda>(bp, s).
     bindE (log_write bp (bdata_set bp (replicate BSIZE 0) s)) (\<lambda>s.
     brelse bp s))"

text \<open>The bit of a block in its bitmap block, and the scan for a clear one.\<close>

definition bit_mask :: "nat \<Rightarrow> u8" where
  "bit_mask bi = push_bit (bi mod 8) 1"

fun free_bit :: "u8 list \<Rightarrow> nat \<Rightarrow> nat \<Rightarrow> nat option" where
  "free_bit d 0 bi = None"
| "free_bit d (Suc n) bi = (if and (d ! (bi div 8)) (bit_mask bi) = 0 then Some bi else free_bit d n (Suc bi))"

fun balloc_loop :: "u32 \<Rightarrow> nat list \<Rightarrow> 'a fs_st_scheme \<Rightarrow> (u32 \<times> 'a fs_st_scheme) kres" where
  "balloc_loop dev [] s = Inl (Panic ''balloc: out of blocks'')"
| "balloc_loop dev (b # bs) s =
     bindE (bread dev (BBLOCK (of_nat b) (fsb s)) s) (\<lambda>(bp, s).
       case free_bit (bdata bp s) (min BPB (unat (sb_size (fsb s)) - b)) 0 of
         Some bi \<Rightarrow>
           let d = bdata bp s;
               s = bdata_set bp (d[bi div 8 := or (d ! (bi div 8)) (bit_mask bi)]) s in
           bindE (log_write bp s) (\<lambda>s.
           bindE (brelse bp s) (\<lambda>s.
           bindE (bzero dev (of_nat (b + bi)) s) (\<lambda>s. Inr (of_nat (b + bi), s))))
       | None \<Rightarrow> bindE (brelse bp s) (balloc_loop dev bs))"

definition balloc :: "u32 \<Rightarrow> 'a fs_st_scheme \<Rightarrow> (u32 \<times> 'a fs_st_scheme) kres" where
  "balloc dev s = balloc_loop dev (map (\<lambda>k. k * BPB) [0..<(unat (sb_size (fsb s)) + (BPB - 1)) div BPB]) s"

definition bfree :: "u32 \<Rightarrow> u32 \<Rightarrow> 'a fs_st_scheme \<Rightarrow> ('a fs_st_scheme) kres" where
  "bfree dev b s =
     bindE (bread dev (BBLOCK b (fsb s)) s) (\<lambda>(bp, s).
     let bi = unat b mod BPB; d = bdata bp s in
     if and (d ! (bi div 8)) (bit_mask bi) = 0 then Inl (Panic ''freeing free block'')
     else
       bindE (log_write bp (bdata_set bp (d[bi div 8 := and (d ! (bi div 8)) (not (bit_mask bi))]) s)) (\<lambda>s.
       brelse bp s))"

section \<open>Inodes\<close>

fun iget_scan :: "inode list \<Rightarrow> nat \<Rightarrow> nat option \<Rightarrow> u32 \<Rightarrow> u32 \<Rightarrow> nat + nat option" where
  "iget_scan [] i em dev inum = Inr em"
| "iget_scan (x # xs) i em dev inum =
     (if i_ref x > 0 \<and> i_dev x = dev \<and> i_inum x = inum then Inl i
      else iget_scan xs (Suc i) (if em = None \<and> i_ref x = 0 then Some i else em) dev inum)"

definition iget :: "u32 \<Rightarrow> u32 \<Rightarrow> 'a fs_st_scheme \<Rightarrow> (nat \<times> 'a fs_st_scheme) kres" where
  "iget dev inum s =
     bindE (acquire IcacheLock s) (\<lambda>s.
       case iget_scan (icache s) 0 None dev inum of
         Inl ip \<Rightarrow> bindE (release IcacheLock (i_set ip (\<lambda>x. x\<lparr>i_ref := i_ref x + 1\<rparr>) s)) (\<lambda>s. Inr (ip, s))
       | Inr None \<Rightarrow> Inl (Panic ''iget: no inodes'')
       | Inr (Some ip) \<Rightarrow>
           bindE (release IcacheLock (i_set ip (\<lambda>x. x\<lparr>i_dev := dev, i_inum := inum, i_ref := 1, i_valid := 0\<rparr>) s))
             (\<lambda>s. Inr (ip, s)))"

fun ialloc_loop :: "u32 \<Rightarrow> u16 \<Rightarrow> nat list \<Rightarrow> 'a fs_st_scheme \<Rightarrow> (nat \<times> 'a fs_st_scheme) kres" where
  "ialloc_loop dev ty [] s = Inl (Panic ''ialloc: no inodes'')"
| "ialloc_loop dev ty (inum # inums) s =
     bindE (bread dev (IBLOCK (of_nat inum) (fsb s)) s) (\<lambda>(bp, s).
     let a = ioff (of_nat inum); d = bdata bp s in
     if d_type (get_dinode d a) = 0 then
       let d = blit d a (replicate 64 0) in
       bindE (log_write bp (bdata_set bp (st16 d a ty) s)) (\<lambda>s.
       bindE (brelse bp s) (\<lambda>s. iget dev (of_nat inum) s))
     else bindE (brelse bp s) (ialloc_loop dev ty inums))"

definition ialloc :: "u32 \<Rightarrow> u16 \<Rightarrow> 'a fs_st_scheme \<Rightarrow> (nat \<times> 'a fs_st_scheme) kres" where
  "ialloc dev ty s = ialloc_loop dev ty [1..<unat (sb_ninodes (fsb s))] s"

definition iupdate :: "nat \<Rightarrow> 'a fs_st_scheme \<Rightarrow> ('a fs_st_scheme) kres" where
  "iupdate ip s =
     bindE (bread (i_dev (icache s ! ip)) (IBLOCK (i_inum (icache s ! ip)) (fsb s)) s) (\<lambda>(bp, s).
     let x = icache s ! ip;
         d = put_dinode (bdata bp s) (ioff (i_inum x)) \<lparr>d_type = i_type x, d_major = i_major x, d_minor = i_minor x,
               d_nlink = i_nlink x, d_size = i_size x, d_addrs = i_addrs x\<rparr> in
     bindE (log_write bp (bdata_set bp d s)) (brelse bp))"

definition idup :: "nat \<Rightarrow> 'a fs_st_scheme \<Rightarrow> (nat \<times> 'a fs_st_scheme) kres" where
  "idup ip s =
     bindE (acquire IcacheLock s) (\<lambda>s.
     bindE (release IcacheLock (i_set ip (\<lambda>x. x\<lparr>i_ref := i_ref x + 1\<rparr>) s)) (\<lambda>s. Inr (ip, s)))"

definition ilock :: "nat \<Rightarrow> 'a fs_st_scheme \<Rightarrow> ('a fs_st_scheme) kres" where
  "ilock ip s =
     (if i_ref (icache s ! ip) < 1 then Inl (Panic ''ilock'')
      else
        bindE (acquiresleep (InodeLk ip) s) (\<lambda>s.
        if i_valid (icache s ! ip) = 0 then
          bindE (bread (i_dev (icache s ! ip)) (IBLOCK (i_inum (icache s ! ip)) (fsb s)) s) (\<lambda>(bp, s).
          let d = get_dinode (bdata bp s) (ioff (i_inum (icache s ! ip)));
              s = i_set ip (\<lambda>x. x\<lparr>i_type := d_type d, i_major := d_major d, i_minor := d_minor d,
                    i_nlink := d_nlink d, i_size := d_size d, i_addrs := d_addrs d\<rparr>) s in
          bindE (brelse bp s) (\<lambda>s.
          let s = i_set ip (\<lambda>x. x\<lparr>i_valid := 1\<rparr>) s in
          if i_type (icache s ! ip) = 0 then Inl (Panic ''ilock: no type'') else Inr s))
        else Inr s))"

definition iunlock :: "nat \<Rightarrow> 'a fs_st_scheme \<Rightarrow> ('a fs_st_scheme) kres" where
  "iunlock ip s =
     bindE (holdingsleep (InodeLk ip) s) (\<lambda>(h, s).
       if \<not> h \<or> i_ref (icache s ! ip) < 1 then Inl (Panic ''iunlock'')
       else releasesleep (InodeLk ip) s)"

section \<open>Inode content\<close>

definition bmap :: "nat \<Rightarrow> nat \<Rightarrow> 'a fs_st_scheme \<Rightarrow> (u32 \<times> 'a fs_st_scheme) kres" where
  "bmap ip bn s =
     (let dev = i_dev (icache s ! ip) in
      if bn < NDIRECT then
        let addr = i_addrs (icache s ! ip) ! bn in
        if addr = 0 then
          bindE (balloc dev s) (\<lambda>(addr, s).
            Inr (addr, i_set ip (\<lambda>x. x\<lparr>i_addrs := (i_addrs x)[bn := addr]\<rparr>) s))
        else Inr (addr, s)
      else
        let bn = bn - NDIRECT in
        if bn < NINDIRECT then
          bindE (let addr = i_addrs (icache s ! ip) ! NDIRECT in
                 if addr = 0 then
                   bindE (balloc dev s) (\<lambda>(addr, s).
                     Inr (addr, i_set ip (\<lambda>x. x\<lparr>i_addrs := (i_addrs x)[NDIRECT := addr]\<rparr>) s))
                 else Inr (addr, s)) (\<lambda>(addr, s).
          bindE (bread dev addr s) (\<lambda>(bp, s).
          let addr = ld32 (bdata bp s) (4 * bn) in
          bindE (if addr = 0 then
                   bindE (balloc dev s) (\<lambda>(addr, s).
                   bindE (log_write bp (bdata_set bp (st32 (bdata bp s) (4 * bn) addr) s)) (\<lambda>s. Inr (addr, s)))
                 else Inr (addr, s)) (\<lambda>(addr, s).
          bindE (brelse bp s) (\<lambda>s. Inr (addr, s)))))
        else Inl (Panic ''bmap: out of range''))"

fun trunc_direct :: "nat \<Rightarrow> nat list \<Rightarrow> 'a fs_st_scheme \<Rightarrow> ('a fs_st_scheme) kres" where
  "trunc_direct ip [] s = Inr s"
| "trunc_direct ip (i # is) s =
     (if i_addrs (icache s ! ip) ! i \<noteq> 0 then
        bindE (bfree (i_dev (icache s ! ip)) (i_addrs (icache s ! ip) ! i) s) (\<lambda>s.
        trunc_direct ip is (i_set ip (\<lambda>x. x\<lparr>i_addrs := (i_addrs x)[i := 0]\<rparr>) s))
      else trunc_direct ip is s)"

fun trunc_indirect :: "u32 \<Rightarrow> nat \<Rightarrow> nat list \<Rightarrow> 'a fs_st_scheme \<Rightarrow> ('a fs_st_scheme) kres" where
  "trunc_indirect dev bp [] s = Inr s"
| "trunc_indirect dev bp (j # js) s =
     (let a = ld32 (bdata bp s) (4 * j) in
      if a \<noteq> 0 then bindE (bfree dev a s) (trunc_indirect dev bp js) else trunc_indirect dev bp js s)"

definition itrunc :: "nat \<Rightarrow> 'a fs_st_scheme \<Rightarrow> ('a fs_st_scheme) kres" where
  "itrunc ip s =
     bindE (trunc_direct ip [0..<NDIRECT] s) (\<lambda>s.
     let dev = i_dev (icache s ! ip); a = i_addrs (icache s ! ip) ! NDIRECT in
     bindE (if a \<noteq> 0 then
              bindE (bread dev a s) (\<lambda>(bp, s).
              bindE (trunc_indirect dev bp [0..<NINDIRECT] s) (\<lambda>s.
              bindE (brelse bp s) (\<lambda>s.
              bindE (bfree dev a s) (\<lambda>s.
              Inr (i_set ip (\<lambda>x. x\<lparr>i_addrs := (i_addrs x)[NDIRECT := 0]\<rparr>) s)))))
            else Inr s) (\<lambda>s.
     iupdate ip (i_set ip (\<lambda>x. x\<lparr>i_size := 0\<rparr>) s)))"

definition iput :: "nat \<Rightarrow> 'a fs_st_scheme \<Rightarrow> ('a fs_st_scheme) kres" where
  "iput ip s =
     bindE (acquiresleep (InodeLk ip) s) (\<lambda>s.
     bindE (if i_valid (icache s ! ip) \<noteq> 0 \<and> i_nlink (icache s ! ip) = 0 then
              bindE (acquire IcacheLock s) (\<lambda>s.
              let r = i_ref (icache s ! ip) in
              bindE (release IcacheLock s) (\<lambda>s.
              if r = 1 then
                bindE (itrunc ip s) (\<lambda>s.
                bindE (iupdate ip (i_set ip (\<lambda>x. x\<lparr>i_type := 0\<rparr>) s)) (\<lambda>s.
                Inr (i_set ip (\<lambda>x. x\<lparr>i_valid := 0\<rparr>) s)))
              else Inr s))
            else Inr s) (\<lambda>s.
     bindE (releasesleep (InodeLk ip) s) (\<lambda>s.
     bindE (acquire IcacheLock s) (\<lambda>s.
     release IcacheLock (i_set ip (\<lambda>x. x\<lparr>i_ref := i_ref x - 1\<rparr>) s)))))"

definition iunlockput :: "nat \<Rightarrow> 'a fs_st_scheme \<Rightarrow> ('a fs_st_scheme) kres" where
  "iunlockput ip s = bindE (iunlock ip s) (iput ip)"

record kstat =
  ks_type :: u16
  ks_dev :: u32
  ks_ino :: u32
  ks_nlink :: u16
  ks_size :: u32

definition stati :: "nat \<Rightarrow> 'a fs_st_scheme \<Rightarrow> kstat" where
  "stati ip s =
     (let x = icache s ! ip in
      \<lparr>ks_type = i_type x, ks_dev = i_dev x, ks_ino = i_inum x, ks_nlink = i_nlink x, ks_size = i_size x\<rparr>)"

text \<open>
  The device switch: by major number, the read and the write function, if there is one. A read returns
  its result and the bytes it stored.
\<close>

record 's devsw =
  dev_read :: "int \<Rightarrow> (nat \<Rightarrow> u32 \<Rightarrow> 's \<Rightarrow> ((int \<times> u8 list) \<times> 's) kres) option"
  dev_write :: "int \<Rightarrow> (nat \<Rightarrow> u8 list \<Rightarrow> 's \<Rightarrow> (int \<times> 's) kres) option"

text \<open>How much the next block contributes: \<open>min(n - tot, BSIZE - off%BSIZE)\<close>.\<close>

definition chunk :: "nat \<Rightarrow> nat \<Rightarrow> nat" where
  "chunk off left = min left (BSIZE - off mod BSIZE)"

lemma chunk_pos: "0 < left \<Longrightarrow> 0 < chunk off left"
  by (simp add: chunk_def)

function readi_loop :: "nat \<Rightarrow> nat \<Rightarrow> nat \<Rightarrow> 'a fs_st_scheme \<Rightarrow> (u8 list \<times> 'a fs_st_scheme) kres" where
  "readi_loop ip off left s =
     (if left = 0 then Inr ([], s)
      else
        bindE (bmap ip (off div BSIZE) s) (\<lambda>(addr, s).
        bindE (bread (i_dev (icache s ! ip)) addr s) (\<lambda>(bp, s).
        let m = chunk off left;
            d = slice (bdata bp s) (off mod BSIZE) m in
        bindE (brelse bp s) (\<lambda>s.
        bindE (readi_loop ip (off + m) (left - m) s) (\<lambda>(ds, s). Inr (d @ ds, s))))))"
  by pat_completeness auto
termination
  by (relation "measure (\<lambda>(ip, off, left, s). left)") (auto simp: chunk_pos)

declare readi_loop.simps [simp del]

definition readi :: "'a fs_st_scheme devsw \<Rightarrow> nat \<Rightarrow> u32 \<Rightarrow> u32 \<Rightarrow> 'a fs_st_scheme \<Rightarrow> ((int \<times> u8 list) \<times> 'a fs_st_scheme) kres" where
  "readi dv ip off n s =
     (let x = icache s ! ip in
      if i_type x = T_DEV then
        (if sint (i_major x) < 0 \<or> sint (i_major x) \<ge> NDEV then Inr ((-1, []), s)
         else (case dev_read dv (sint (i_major x)) of None \<Rightarrow> Inr ((-1, []), s) | Some f \<Rightarrow> f ip n s))
      else if off > i_size x \<or> off + n < off then Inr ((-1, []), s)
      else
        let n = (if off + n > i_size x then i_size x - off else n) in
        bindE (readi_loop ip (unat off) (unat n) s) (\<lambda>(d, s). Inr ((sint n, d), s)))"

function writei_loop :: "nat \<Rightarrow> nat \<Rightarrow> u8 list \<Rightarrow> 'a fs_st_scheme \<Rightarrow> ('a fs_st_scheme) kres" where
  "writei_loop ip off src s =
     (if src = [] then Inr s
      else
        bindE (bmap ip (off div BSIZE) s) (\<lambda>(addr, s).
        bindE (bread (i_dev (icache s ! ip)) addr s) (\<lambda>(bp, s).
        let m = chunk off (length src) in
        bindE (log_write bp (bdata_set bp (blit (bdata bp s) (off mod BSIZE) (take m src)) s)) (\<lambda>s.
        bindE (brelse bp s) (\<lambda>s.
        writei_loop ip (off + m) (drop m src) s)))))"
  by pat_completeness auto
termination
  by (relation "measure (\<lambda>(ip, off, src, s). length src)") (auto simp: chunk_pos)

declare writei_loop.simps [simp del]

text \<open>\<open>src\<close> holds the \<open>n\<close> bytes to write.\<close>

definition writei :: "'a fs_st_scheme devsw \<Rightarrow> nat \<Rightarrow> u8 list \<Rightarrow> u32 \<Rightarrow> u32 \<Rightarrow> 'a fs_st_scheme \<Rightarrow> (int \<times> 'a fs_st_scheme) kres" where
  "writei dv ip src off n s =
     (let x = icache s ! ip in
      if i_type x = T_DEV then
        (if sint (i_major x) < 0 \<or> sint (i_major x) \<ge> NDEV then Inr (-1, s)
         else (case dev_write dv (sint (i_major x)) of None \<Rightarrow> Inr (-1, s) | Some f \<Rightarrow> f ip (take (unat n) src) s))
      else if off > i_size x \<or> off + n < off then Inr (-1, s)
      else if off + n > of_nat (MAXFILE * BSIZE) then Inr (-1, s)
      else
        bindE (writei_loop ip (unat off) (take (unat n) src) s) (\<lambda>s.
        let off = off + n in
        bindE (if n > 0 \<and> off > i_size (icache s ! ip) then iupdate ip (i_set ip (\<lambda>x. x\<lparr>i_size := off\<rparr>) s) else Inr s)
          (\<lambda>s. Inr (sint n, s))))"

section \<open>Directories\<close>

definition hd0 :: "u8 list \<Rightarrow> u8" where
  "hd0 s = (case s of [] \<Rightarrow> 0 | x # _ \<Rightarrow> x)"

fun strncmp_l :: "nat \<Rightarrow> u8 list \<Rightarrow> u8 list \<Rightarrow> int" where
  "strncmp_l 0 p q = 0"
| "strncmp_l (Suc n) p q =
     (if hd0 p \<noteq> 0 \<and> hd0 p = hd0 q then strncmp_l n (tl p) (tl q) else uint (hd0 p) - uint (hd0 q))"

definition namecmp :: "u8 list \<Rightarrow> u8 list \<Rightarrow> int" where
  "namecmp s t = strncmp_l DIRSIZ s t"

record dirent =
  de_inum :: u16
  de_name :: "u8 list"

definition get_dirent :: "u8 list \<Rightarrow> dirent" where
  "get_dirent d = \<lparr>de_inum = ld16 d 0, de_name = slice d 2 DIRSIZ\<rparr>"

definition put_dirent :: "dirent \<Rightarrow> u8 list" where
  "put_dirent e = st16 (replicate 2 0) 0 (de_inum e) @ de_name e"

definition dir_offs :: "u32 \<Rightarrow> nat list" where
  "dir_offs sz = map (\<lambda>k. 16 * k) [0..<(unat sz + 15) div 16]"

fun dirlookup_loop :: "'a fs_st_scheme devsw \<Rightarrow> nat \<Rightarrow> u8 list \<Rightarrow> nat list \<Rightarrow> 'a fs_st_scheme \<Rightarrow> ((nat \<times> nat) option \<times> 'a fs_st_scheme) kres" where
  "dirlookup_loop dv dp name [] s = Inr (None, s)"
| "dirlookup_loop dv dp name (off # offs) s =
     bindE (readi dv dp (of_nat off) 16 s) (\<lambda>((r, d), s).
       if r \<noteq> 16 then Inl (Panic ''dirlookup read'')
       else
         let de = get_dirent d in
         if de_inum de = 0 then dirlookup_loop dv dp name offs s
         else if namecmp name (de_name de) = 0 then
           bindE (iget (i_dev (icache s ! dp)) (ucast (de_inum de)) s) (\<lambda>(ip, s). Inr (Some (ip, off), s))
         else dirlookup_loop dv dp name offs s)"

definition dirlookup :: "'a fs_st_scheme devsw \<Rightarrow> nat \<Rightarrow> u8 list \<Rightarrow> 'a fs_st_scheme \<Rightarrow> ((nat \<times> nat) option \<times> 'a fs_st_scheme) kres" where
  "dirlookup dv dp name s =
     (if i_type (icache s ! dp) \<noteq> T_DIR then Inl (Panic ''dirlookup not DIR'')
      else dirlookup_loop dv dp name (dir_offs (i_size (icache s ! dp))) s)"

text \<open>The first free entry, or the end of the directory.\<close>

fun dirlink_scan :: "'a fs_st_scheme devsw \<Rightarrow> nat \<Rightarrow> nat list \<Rightarrow> nat \<Rightarrow> 'a fs_st_scheme \<Rightarrow> (nat \<times> 'a fs_st_scheme) kres" where
  "dirlink_scan dv dp [] e s = Inr (e, s)"
| "dirlink_scan dv dp (off # offs) e s =
     bindE (readi dv dp (of_nat off) 16 s) (\<lambda>((r, d), s).
       if r \<noteq> 16 then Inl (Panic ''dirlink read'')
       else if de_inum (get_dirent d) = 0 then Inr (off, s)
       else dirlink_scan dv dp offs e s)"

text \<open>\<open>strncpy(de.name, name, DIRSIZ)\<close>: the name cut or padded with zeros.\<close>

definition strncpy_l :: "u8 list \<Rightarrow> u8 list" where
  "strncpy_l name = (let t = take DIRSIZ (takeWhile (\<lambda>c. c \<noteq> 0) name) in t @ replicate (DIRSIZ - length t) 0)"

definition dirlink :: "'a fs_st_scheme devsw \<Rightarrow> nat \<Rightarrow> u8 list \<Rightarrow> u32 \<Rightarrow> 'a fs_st_scheme \<Rightarrow> (int \<times> 'a fs_st_scheme) kres" where
  "dirlink dv dp name inum s =
     bindE (dirlookup dv dp name s) (\<lambda>(r, s). case r of
        Some (ip, _) \<Rightarrow> bindE (iput ip s) (\<lambda>s. Inr (-1, s))
      | None \<Rightarrow>
          let sz = i_size (icache s ! dp) in
          bindE (dirlink_scan dv dp (dir_offs sz) (16 * ((unat sz + 15) div 16)) s) (\<lambda>(off, s).
          bindE (writei dv dp (put_dirent \<lparr>de_inum = ucast inum, de_name = strncpy_l name\<rparr>) (of_nat off) 16 s) (\<lambda>(r, s).
            if r \<noteq> 16 then Inl (Panic ''dirlink'') else Inr (0, s))))"

section \<open>Paths\<close>

abbreviation (input) SLASH :: u8 where "SLASH \<equiv> 47"

text \<open>The rest of the path and the name buffer, whose old contents remain behind a short name.\<close>

definition skipelem :: "u8 list \<Rightarrow> u8 list \<Rightarrow> (u8 list \<times> u8 list) option" where
  "skipelem path name =
     (let path = dropWhile (\<lambda>c. c = SLASH) path in
      if path = [] then None
      else
        let s = takeWhile (\<lambda>c. c \<noteq> SLASH) path;
            path = drop (length s) path;
            name = (if length s \<ge> DIRSIZ then take DIRSIZ s else s @ 0 # drop (length s + 1) name) in
        Some (dropWhile (\<lambda>c. c = SLASH) path, name))"

lemma skipelem_less: "skipelem path name = Some (path', name') \<Longrightarrow> length path' < length path"
proof -
  assume a: "skipelem path name = Some (path', name')"
  define p where "p = dropWhile (\<lambda>c. c = SLASH) path"
  define s where "s = takeWhile (\<lambda>c. c \<noteq> SLASH) p"
  have p: "p \<noteq> []" and r: "path' = dropWhile (\<lambda>c. c = SLASH) (drop (length s) p)"
    using a by (auto simp: skipelem_def Let_def p_def s_def split: if_splits)
  have "hd p \<noteq> SLASH"
    using p hd_dropWhile [of "\<lambda>c. c = SLASH" path] by (simp add: p_def)
  then have "s \<noteq> []"
    using p by (cases p) (auto simp: s_def)
  then have "length (drop (length s) p) < length p"
    using p by (cases p) auto
  moreover have "length path' \<le> length (drop (length s) p)" "length p \<le> length path"
    unfolding r p_def by (rule length_dropWhile_le)+
  ultimately show ?thesis by simp
qed

function namex_loop :: "'a fs_st_scheme devsw \<Rightarrow> u8 list \<Rightarrow> bool \<Rightarrow> u8 list \<Rightarrow> nat \<Rightarrow> 'a fs_st_scheme \<Rightarrow> ((nat option \<times> u8 list) \<times> 'a fs_st_scheme) kres" where
  "namex_loop dv path parent name ip s =
     (case skipelem path name of
        None \<Rightarrow> if parent then bindE (iput ip s) (\<lambda>s. Inr ((None, name), s)) else Inr ((Some ip, name), s)
      | Some (path, name) \<Rightarrow>
          bindE (ilock ip s) (\<lambda>s.
          if i_type (icache s ! ip) \<noteq> T_DIR then bindE (iunlockput ip s) (\<lambda>s. Inr ((None, name), s))
          else if parent \<and> path = [] then bindE (iunlock ip s) (\<lambda>s. Inr ((Some ip, name), s))
          else
            bindE (dirlookup dv ip name s) (\<lambda>(r, s). case r of
               None \<Rightarrow> bindE (iunlockput ip s) (\<lambda>s. Inr ((None, name), s))
             | Some (next, _) \<Rightarrow> bindE (iunlockput ip s) (\<lambda>s. namex_loop dv path parent name next s))))"
  by pat_completeness auto
termination
  by (relation "measure (\<lambda>(dv, path, parent, name, ip, s). length path)") (auto simp: skipelem_less)

declare namex_loop.simps [simp del]

definition namex :: "'a fs_st_scheme devsw \<Rightarrow> u8 list \<Rightarrow> bool \<Rightarrow> u8 list \<Rightarrow> 'a fs_st_scheme \<Rightarrow> ((nat option \<times> u8 list) \<times> 'a fs_st_scheme) kres" where
  "namex dv path parent name s =
     bindE (if hd0 path = SLASH then iget ROOTDEV ROOTINO s
            else
              bindE (myproc s) (\<lambda>(p, s). case p of
                 None \<Rightarrow> Inl Fault
               | Some p \<Rightarrow> (case p_cwd (ptable s ! p) of None \<Rightarrow> Inl Fault | Some ip \<Rightarrow> idup ip s))) (\<lambda>(ip, s).
     namex_loop dv path parent name ip s)"

definition namei :: "'a fs_st_scheme devsw \<Rightarrow> u8 list \<Rightarrow> 'a fs_st_scheme \<Rightarrow> (nat option \<times> 'a fs_st_scheme) kres" where
  "namei dv path s = bindE (namex dv path False (replicate DIRSIZ 0) s) (\<lambda>((ip, _), s). Inr (ip, s))"

definition nameiparent :: "'a fs_st_scheme devsw \<Rightarrow> u8 list \<Rightarrow> u8 list \<Rightarrow> 'a fs_st_scheme \<Rightarrow> ((nat option \<times> u8 list) \<times> 'a fs_st_scheme) kres" where
  "nameiparent dv path name s = namex dv path True name s"

section \<open>Boot\<close>

definition iinit :: "u32 \<Rightarrow> 'a fs_st_scheme \<Rightarrow> ('a fs_st_scheme) kres" where
  "iinit dev s =
     (let s = initlock IcacheLock ''icache'' s;
          s = fold (\<lambda>i s. initsleeplock (InodeLk i) ''inode'' s) [0..<NINODE] s in
      bindE (readsb dev s) (\<lambda>(sb, s).
      cprintf (''sb: size %d nblocks %d ninodes %d nlog %d logstart %d inodestart %d bmap start %d'' @ [CHR 0x0A])
        [CInt (sb_size sb), CInt (sb_nblocks sb), CInt (sb_ninodes sb), CInt (sb_nlog sb), CInt (sb_logstart sb),
         CInt (sb_inodestart sb), CInt (sb_bmapstart sb)] (s\<lparr>fsb := sb\<rparr>)))"

end
