(* ===== verification/Pipe.thy ===== *)
theory Pipe
  imports Fs
begin

text \<open>
  \<open>pipe.c\<close> and the allocation half of \<open>file.c\<close> it needs. Pipes are kept by the address of the page that holds
  them. A read or write that sleeps is cut at \<open>swtch\<close>: it returns what is left to do together with the state at
  that point, and continues from there when the process runs again. The buffer is shown to be a bounded queue,
  also when the counters wrap around.
\<close>

section \<open>State\<close>

abbreviation (input) PIPESIZE :: nat where "PIPESIZE \<equiv> 512"

record pipe =
  pp_data :: "u8 list"
  pp_nread :: u32
  pp_nwrite :: u32
  pp_readopen :: int
  pp_writeopen :: int

datatype ftype = FD_NONE | FD_PIPE | FD_INODE

record kfile =
  f_type :: ftype
  f_ref :: int
  f_readable :: bool
  f_writable :: bool
  f_pipe :: u32
  f_ip :: nat
  f_off :: u32

record file_st = fs_st +
  ftable :: "kfile list"
  pipes :: "u32 \<Rightarrow> pipe option"

definition f_set :: "nat \<Rightarrow> (kfile \<Rightarrow> kfile) \<Rightarrow> 'a file_st_scheme \<Rightarrow> 'a file_st_scheme" where
  "f_set f g s = s\<lparr>ftable := (ftable s)[f := g (ftable s ! f)]\<rparr>"

definition p_set :: "u32 \<Rightarrow> pipe \<Rightarrow> 'a file_st_scheme \<Rightarrow> 'a file_st_scheme" where
  "p_set p x s = s\<lparr>pipes := (pipes s)(p \<mapsto> x)\<rparr>"

text \<open>A pipe pointer that points to no pipe is followed.\<close>

definition pipe_at :: "u32 \<Rightarrow> 'a file_st_scheme \<Rightarrow> pipe kres" where
  "pipe_at p s = (case pipes s p of None \<Rightarrow> Inl Fault | Some x \<Rightarrow> Inr x)"

definition proc_killed :: "'a proc_st_scheme \<Rightarrow> (bool \<times> 'a proc_st_scheme) kres" where
  "proc_killed s =
     bindE (myproc s) (\<lambda>(q, s). case q of None \<Rightarrow> Inl Fault | Some q \<Rightarrow> Inr (p_killed (ptable s ! q) \<noteq> 0, s))"

section \<open>File structures\<close>

definition fileinit :: "'a file_st_scheme \<Rightarrow> 'a file_st_scheme" where
  "fileinit s = initlock FtableLock ''ftable'' s"

fun find_file :: "kfile list \<Rightarrow> nat \<Rightarrow> nat option" where
  "find_file [] i = None"
| "find_file (f # fs) i = (if f_ref f = 0 then Some i else find_file fs (Suc i))"

definition filealloc :: "'a file_st_scheme \<Rightarrow> (nat option \<times> 'a file_st_scheme) kres" where
  "filealloc s =
     bindE (acquire FtableLock s) (\<lambda>s. case find_file (ftable s) 0 of
        Some f \<Rightarrow> bindE (release FtableLock (f_set f (\<lambda>x. x\<lparr>f_ref := 1\<rparr>) s)) (\<lambda>s. Inr (Some f, s))
      | None \<Rightarrow> bindE (release FtableLock s) (\<lambda>s. Inr (None, s)))"

definition filedup :: "nat \<Rightarrow> 'a file_st_scheme \<Rightarrow> (nat \<times> 'a file_st_scheme) kres" where
  "filedup f s =
     bindE (acquire FtableLock s) (\<lambda>s.
       if f_ref (ftable s ! f) < 1 then Inl (Panic ''filedup'')
       else bindE (release FtableLock (f_set f (\<lambda>x. x\<lparr>f_ref := f_ref x + 1\<rparr>) s)) (\<lambda>s. Inr (f, s)))"

section \<open>Pipes\<close>

definition pipe_put :: "u8 \<Rightarrow> pipe \<Rightarrow> pipe" where
  "pipe_put c x = x\<lparr>pp_data := (pp_data x)[unat (pp_nwrite x) mod PIPESIZE := c], pp_nwrite := pp_nwrite x + 1\<rparr>"

text \<open>
  \<open>Inl r\<close>: the call returns \<open>r\<close>. \<open>Inr (bs, i, e)\<close>: process \<open>i\<close> sleeps with \<open>bs\<close> still to be written and \<open>e\<close> as its
  saved interrupt state.
\<close>

fun pipewrite_loop :: "u32 \<Rightarrow> int \<Rightarrow> u8 list \<Rightarrow> 'a file_st_scheme \<Rightarrow> ((int + u8 list \<times> nat \<times> u32) \<times> 'a file_st_scheme) kres" where
  "pipewrite_loop p n [] s =
     bindE (wakeup (ChPipeNread p) s) (\<lambda>s. bindE (release (PipeLock p) s) (\<lambda>s. Inr (Inl n, s)))"
| "pipewrite_loop p n (c # cs) s =
     bindE (pipe_at p s) (\<lambda>x.
       if pp_nwrite x = pp_nread x + of_nat PIPESIZE then
         bindE (if pp_readopen x = 0 then Inr (True, s) else proc_killed s) (\<lambda>(stop, s).
           if stop then bindE (release (PipeLock p) s) (\<lambda>s. Inr (Inl (-1), s))
           else
             bindE (wakeup (ChPipeNread p) s) (\<lambda>s.
             bindE (sleep_out (ChPipeNwrite p) (PipeLock p) s) (\<lambda>(i, e, s). Inr (Inr (c # cs, i, e), s))))
       else pipewrite_loop p n cs (p_set p (pipe_put c x) s))"

definition pipewrite :: "u32 \<Rightarrow> u8 list \<Rightarrow> 'a file_st_scheme \<Rightarrow> ((int + u8 list \<times> nat \<times> u32) \<times> 'a file_st_scheme) kres" where
  "pipewrite p addr s = bindE (acquire (PipeLock p) s) (pipewrite_loop p (int (length addr)) addr)"

definition pipewrite_resume :: "u32 \<Rightarrow> int \<Rightarrow> u8 list \<times> nat \<times> u32 \<Rightarrow> 'a file_st_scheme \<Rightarrow> ((int + u8 list \<times> nat \<times> u32) \<times> 'a file_st_scheme) kres" where
  "pipewrite_resume p n w s =
     (case w of (cs, i, e) \<Rightarrow> bindE (sleep_in (PipeLock p) i e s) (pipewrite_loop p n cs))"

fun pipe_copy :: "nat \<Rightarrow> pipe \<Rightarrow> u8 list \<times> pipe" where
  "pipe_copy 0 x = ([], x)"
| "pipe_copy (Suc n) x =
     (if pp_nread x = pp_nwrite x then ([], x)
      else
        let c = pp_data x ! (unat (pp_nread x) mod PIPESIZE);
            (cs, x) = pipe_copy n (x\<lparr>pp_nread := pp_nread x + 1\<rparr>) in
        (c # cs, x))"

definition piperead_loop :: "u32 \<Rightarrow> nat \<Rightarrow> 'a file_st_scheme \<Rightarrow> ((int \<times> u8 list + nat \<times> u32) \<times> 'a file_st_scheme) kres" where
  "piperead_loop p n s =
     bindE (pipe_at p s) (\<lambda>x.
       if pp_nread x = pp_nwrite x \<and> pp_writeopen x \<noteq> 0 then
         bindE (proc_killed s) (\<lambda>(k, s).
           if k then bindE (release (PipeLock p) s) (\<lambda>s. Inr (Inl (-1, []), s))
           else bindE (sleep_out (ChPipeNread p) (PipeLock p) s) (\<lambda>(i, e, s). Inr (Inr (i, e), s)))
       else
         let (cs, x) = pipe_copy n x in
         bindE (wakeup (ChPipeNwrite p) (p_set p x s)) (\<lambda>s.
         bindE (release (PipeLock p) s) (\<lambda>s. Inr (Inl (int (length cs), cs), s))))"

definition piperead :: "u32 \<Rightarrow> nat \<Rightarrow> 'a file_st_scheme \<Rightarrow> ((int \<times> u8 list + nat \<times> u32) \<times> 'a file_st_scheme) kres" where
  "piperead p n s = bindE (acquire (PipeLock p) s) (piperead_loop p n)"

definition piperead_resume :: "u32 \<Rightarrow> nat \<Rightarrow> nat \<times> u32 \<Rightarrow> 'a file_st_scheme \<Rightarrow> ((int \<times> u8 list + nat \<times> u32) \<times> 'a file_st_scheme) kres" where
  "piperead_resume p n w s = (case w of (i, e) \<Rightarrow> bindE (sleep_in (PipeLock p) i e s) (piperead_loop p n))"

definition pipeclose :: "u32 \<Rightarrow> bool \<Rightarrow> 'a file_st_scheme \<Rightarrow> ('a file_st_scheme) kres" where
  "pipeclose p writable s =
     bindE (acquire (PipeLock p) s) (\<lambda>s.
     bindE (pipe_at p s) (\<lambda>x.
     let x = (if writable then x\<lparr>pp_writeopen := 0\<rparr> else x\<lparr>pp_readopen := 0\<rparr>) in
     bindE (wakeup (if writable then ChPipeNread p else ChPipeNwrite p) (p_set p x s)) (\<lambda>s.
       if pp_readopen x = 0 \<and> pp_writeopen x = 0 then
         bindE (release (PipeLock p) s) (\<lambda>s. kfree p (s\<lparr>pipes := (pipes s)(p := None)\<rparr>))
       else release (PipeLock p) s)))"

section \<open>Closing files and creating pipes\<close>

definition fileclose :: "nat \<Rightarrow> 'a file_st_scheme \<Rightarrow> ('a file_st_scheme) kres" where
  "fileclose f s =
     bindE (acquire FtableLock s) (\<lambda>s.
       if f_ref (ftable s ! f) < 1 then Inl (Panic ''fileclose'')
       else
         let s = f_set f (\<lambda>x. x\<lparr>f_ref := f_ref x - 1\<rparr>) s in
         if f_ref (ftable s ! f) > 0 then release FtableLock s
         else
           let ff = ftable s ! f; s = f_set f (\<lambda>x. x\<lparr>f_ref := 0, f_type := FD_NONE\<rparr>) s in
           bindE (release FtableLock s) (\<lambda>s.
             if f_type ff = FD_PIPE then pipeclose (f_pipe ff) (f_writable ff) s
             else if f_type ff = FD_INODE then bindE (begin_op s) (\<lambda>s. bindE (iput (f_ip ff) s) end_op)
             else Inr s))"

definition new_pipe :: pipe where
  "new_pipe = \<lparr>pp_data = replicate PIPESIZE 1, pp_nread = 0, pp_nwrite = 0, pp_readopen = 1, pp_writeopen = 1\<rparr>"

definition pipealloc :: "'a file_st_scheme \<Rightarrow> ((nat \<times> nat) option \<times> 'a file_st_scheme) kres" where
  "pipealloc s =
     bindE (filealloc s) (\<lambda>(f0, s). case f0 of
        None \<Rightarrow> Inr (None, s)
      | Some f0 \<Rightarrow>
          bindE (filealloc s) (\<lambda>(f1, s). case f1 of
             None \<Rightarrow> bindE (fileclose f0 s) (\<lambda>s. Inr (None, s))
           | Some f1 \<Rightarrow>
               bindE (kalloc s) (\<lambda>(p, s).
                 if p = 0 then bindE (fileclose f0 s) (\<lambda>s. bindE (fileclose f1 s) (\<lambda>s. Inr (None, s)))
                 else
                   let s = initlock (PipeLock p) ''pipe'' (p_set p new_pipe s);
                       s = f_set f0 (\<lambda>x. x\<lparr>f_type := FD_PIPE, f_readable := True, f_writable := False, f_pipe := p\<rparr>) s;
                       s = f_set f1 (\<lambda>x. x\<lparr>f_type := FD_PIPE, f_readable := False, f_writable := True, f_pipe := p\<rparr>) s in
                   Inr (Some (f0, f1), s))))"

section \<open>The buffer is a bounded queue\<close>

definition pipe_len :: "pipe \<Rightarrow> nat" where
  "pipe_len x = unat (pp_nwrite x - pp_nread x)"

definition contents :: "pipe \<Rightarrow> u8 list" where
  "contents x = map (\<lambda>i. pp_data x ! (unat (pp_nread x + of_nat i) mod PIPESIZE)) [0..<pipe_len x]"

definition pipe_wf :: "pipe \<Rightarrow> bool" where
  "pipe_wf x \<longleftrightarrow> length (pp_data x) = PIPESIZE \<and> pipe_len x \<le> PIPESIZE"

lemma length_contents [simp]: "length (contents x) = pipe_len x"
  by (simp add: contents_def)

lemma mod_pipesize: "unat (a + of_nat i :: u32) mod PIPESIZE = (unat a + i) mod PIPESIZE"
proof -
  have "(512 :: nat) dvd 2 ^ 32"
    by simp
  then show ?thesis
    by (simp add: unat_word_ariths unat_of_nat mod_mod_cancel mod_add_right_eq del: dvd_imp_mod_0)
qed

lemma nth_contents: "i < pipe_len x \<Longrightarrow> contents x ! i = pp_data x ! ((unat (pp_nread x) + i) mod PIPESIZE)"
  by (simp add: contents_def mod_pipesize)

lemma nwrite_eq: "pp_nwrite x = pp_nread x + of_nat (pipe_len x)"
  by (simp add: pipe_len_def)

lemma full_iff: "pp_nwrite x = pp_nread x + 512 \<longleftrightarrow> pipe_len x = PIPESIZE"
proof
  assume "pp_nwrite x = pp_nread x + 512"
  then show "pipe_len x = PIPESIZE"
    by (simp add: pipe_len_def)
next
  assume "pipe_len x = PIPESIZE"
  then show "pp_nwrite x = pp_nread x + 512"
    using nwrite_eq [of x] by simp
qed

lemma empty_iff: "pp_nread x = pp_nwrite x \<longleftrightarrow> pipe_len x = 0"
  by (auto simp: pipe_len_def unat_eq_0)

lemma slot_neq:
  assumes "i < n" "n < PIPESIZE"
  shows "(a + i) mod PIPESIZE \<noteq> (a + n) mod PIPESIZE"
proof
  assume "(a + i) mod PIPESIZE = (a + n) mod PIPESIZE"
  then have "PIPESIZE dvd (a + n) - (a + i)"
    using assms(1) by (metis add_le_cancel_left less_imp_le mod_eq_dvd_iff_nat)
  then show False
    using assms by (auto dest!: dvd_imp_le)
qed

lemma pipe_put_ok:
  assumes "pipe_wf x" "pipe_len x \<noteq> PIPESIZE"
  shows "pipe_wf (pipe_put c x)" "contents (pipe_put c x) = contents x @ [c]"
proof -
  have n: "pipe_len x < PIPESIZE" and d: "length (pp_data x) = PIPESIZE"
    using assms by (auto simp: pipe_wf_def)
  have "pipe_len (pipe_put c x) = unat (of_nat (pipe_len x + 1) :: u32)"
    by (simp add: pipe_len_def pipe_put_def algebra_simps)
  also have "\<dots> = pipe_len x + 1"
    using n by (simp add: unat_of_nat del: of_nat_Suc of_nat_add)
  finally have len: "pipe_len (pipe_put c x) = pipe_len x + 1" .
  then show "pipe_wf (pipe_put c x)"
    using n d by (simp add: pipe_wf_def pipe_put_def)
  have w: "unat (pp_nwrite x) mod PIPESIZE = (unat (pp_nread x) + pipe_len x) mod PIPESIZE"
    using nwrite_eq [of x] mod_pipesize by metis
  have "contents (pipe_put c x) ! i = (contents x @ [c]) ! i" if "i < pipe_len x + 1" for i
    using that d slot_neq [of i "pipe_len x" "unat (pp_nread x)"] n
    by (cases "i = pipe_len x") (auto simp: nth_contents len nth_append, auto simp: w pipe_put_def nth_list_update)
  then show "contents (pipe_put c x) = contents x @ [c]"
    by (intro nth_equalityI) (simp_all add: len)
qed

lemma pipe_copy_ok:
  "pipe_wf x \<Longrightarrow> \<exists>x'. pipe_copy n x = (take n (contents x), x') \<and> pipe_wf x' \<and> contents x' = drop n (contents x) \<and>
     pp_readopen x' = pp_readopen x \<and> pp_writeopen x' = pp_writeopen x"
proof (induction n arbitrary: x)
  case (Suc n)
  show ?case
  proof (cases "pipe_len x = 0")
    case True
    then have "contents x = []"
      by (simp add: contents_def)
    then show ?thesis
      using True Suc.prems by (simp add: empty_iff)
  next
    case False
    let ?x = "x\<lparr>pp_nread := pp_nread x + 1\<rparr>"
    let ?c = "pp_data x ! (unat (pp_nread x) mod PIPESIZE)"
    have "pipe_len ?x = unat (pp_nwrite x - pp_nread x - 1)"
      by (simp add: pipe_len_def diff_diff_eq)
    also have "\<dots> = pipe_len x - 1"
      using False by (simp add: pipe_len_def unat_minus_one unat_eq_0)
    finally have len: "pipe_len ?x = pipe_len x - 1" .
    have "contents x = ?c # contents ?x"
    proof (rule nth_equalityI)
      fix i assume "i < length (contents x)"
      then show "contents x ! i = (?c # contents ?x) ! i"
        using len mod_pipesize [of "pp_nread x" 1] by (cases i) (auto simp: nth_contents mod_add_left_eq [of "unat _", symmetric] mod_simps)
    qed (use len False in simp)
    moreover have "pipe_wf ?x"
      using Suc.prems len by (auto simp: pipe_wf_def)
    ultimately show ?thesis
      using Suc.IH [of ?x] False by (auto simp: empty_iff Let_def)
  qed
qed simp

text \<open>
  What a byte queue of bounded capacity promises to its users, and what follows from it: in any sequence of
  single-byte writes and reads, the bytes read so far and the bytes in the queue are the bytes written, in order.
\<close>

locale bounded_queue =
  fixes wf :: "'q \<Rightarrow> bool" and cont :: "'q \<Rightarrow> 'b list" and cap :: nat
    and put :: "'b \<Rightarrow> 'q \<Rightarrow> 'q" and get :: "nat \<Rightarrow> 'q \<Rightarrow> 'b list \<times> 'q"
  assumes bounded: "wf q \<Longrightarrow> length (cont q) \<le> cap"
    and put_law: "wf q \<Longrightarrow> length (cont q) < cap \<Longrightarrow> wf (put c q) \<and> cont (put c q) = cont q @ [c]"
    and get_law: "wf q \<Longrightarrow> fst (get n q) = take n (cont q) \<and> wf (snd (get n q)) \<and> cont (snd (get n q)) = drop n (cont q)"
begin

lemma put_keeps:
  assumes "wf q" "length (cont q) < cap" "r @ cont q = w"
  shows "wf (put c q) \<and> r @ cont (put c q) = w @ [c]"
  using put_law [OF assms(1,2), of c] assms(3) by auto

lemma get_keeps:
  assumes "wf q" "r @ cont q = w"
  shows "wf (snd (get n q)) \<and> (r @ fst (get n q)) @ cont (snd (get n q)) = w"
  using get_law [OF assms(1), of n] assms(2) by auto

lemma fold_put:
  "wf q \<Longrightarrow> length (cont q) + length cs \<le> cap \<Longrightarrow> wf (fold put cs q) \<and> cont (fold put cs q) = cont q @ cs"
proof (induction cs arbitrary: q)
  case (Cons c cs)
  then show ?case
    using put_law [of q c] by auto
qed simp

end

interpretation pq: bounded_queue pipe_wf contents PIPESIZE pipe_put pipe_copy
proof
  fix x :: pipe and c :: u8 and n :: nat
  show "pipe_wf x \<Longrightarrow> length (contents x) \<le> PIPESIZE"
    by (simp add: pipe_wf_def)
  show "pipe_wf x \<Longrightarrow> length (contents x) < PIPESIZE \<Longrightarrow>
      pipe_wf (pipe_put c x) \<and> contents (pipe_put c x) = contents x @ [c]"
    using pipe_put_ok [of x c] by simp
  show "pipe_wf x \<Longrightarrow> fst (pipe_copy n x) = take n (contents x) \<and> pipe_wf (snd (pipe_copy n x)) \<and>
      contents (snd (pipe_copy n x)) = drop n (contents x)"
    using pipe_copy_ok [of x n] by auto
qed

text \<open>The users of a pipe: a writer that finds room stores a byte, a reader takes what it can.\<close>

inductive pipe_run :: "pipe \<Rightarrow> u8 list \<Rightarrow> u8 list \<Rightarrow> pipe \<Rightarrow> bool" for x0 where
  pr_start: "pipe_run x0 [] [] x0"
| pr_write: "pipe_run x0 w r x \<Longrightarrow> pp_nwrite x \<noteq> pp_nread x + of_nat PIPESIZE \<Longrightarrow> pipe_run x0 (w @ [c]) r (pipe_put c x)"
| pr_read: "pipe_run x0 w r x \<Longrightarrow> pipe_run x0 w (r @ fst (pipe_copy n x)) (snd (pipe_copy n x))"

section \<open>The calls\<close>

lemma file_more_fields:
  fixes s s' :: "'a file_st_scheme"
  assumes "proc_st.more s' = proc_st.more s"
  shows "pipes s' = pipes s" "ftable s' = ftable s" "icache s' = icache s" "fsb s' = fsb s"
  using assms by (cases s; cases s'; simp)+

lemma file_acq_rel [simp]:
  fixes s :: "'a file_st_scheme"
  shows "pipes (acq lk s) = pipes s" "ftable (acq lk s) = ftable s"
    "pipes (rel lk s) = pipes s" "ftable (rel lk s) = ftable s"
  by (simp_all add: acq_def pushed_def cli_def rel_def popped_def sti_def Let_def)

lemma proc_killed_ok:
  "crit L s \<Longrightarrow> L \<noteq> [] \<Longrightarrow> curproc s = Some i \<Longrightarrow> proc_killed s = Inr (p_killed (ptable s ! i) \<noteq> 0, s)"
  using myproc_ok [of L s] by (auto simp: proc_killed_def)

lemma sched_out_ok:
  assumes "crit [PtableLock] s" "curproc s = Some i" "p_state (ptable s ! i) \<noteq> RUNNING"
  shows "\<exists>e. sched_out s = Inr (e, s)"
proof -
  have "myproc s = Inr (Some i, s)"
    using myproc_ok [OF assms(1)] assms(2) by auto
  moreover have "holding PtableLock s = Inr (True, s)"
    using holding_ok [OF assms(1), of PtableLock] by simp
  moreover have "readeflags s AND FL_IF = 0"
    using critD(6) [OF assms(1)] by simp
  moreover from this have "mycpu s = Inr (curcpu s)"
    by (rule mycpu_ok [OF assms(1)])
  moreover have "ncli (cpus s ! curcpu s) = 1"
    using critD(3) [OF assms(1)] by simp
  ultimately show ?thesis
    using assms(3) by (simp add: sched_out_def)
qed

lemma sleep_out_ok:
  assumes c: "crit [lk] s" and lk: "lk \<noteq> PtableLock" and i: "curproc s = Some i" "i < length (ptable s)"
  shows "\<exists>e s'. sleep_out ch lk s = Inr (i, e, s') \<and> crit [PtableLock] s' \<and>
    ptable s' = (ptable s)[i := (ptable s ! i)\<lparr>p_chan := Some ch, p_state := SLEEPING\<rparr>] \<and> proc_st.more s' = proc_st.more s"
proof -
  let ?a = "acq PtableLock s"
  let ?t = "proc_upd i (\<lambda>x. x\<lparr>p_chan := Some ch, p_state := SLEEPING\<rparr>) (rel lk ?a)"
  have ca: "crit [PtableLock, lk] ?a"
    using crit_acq [OF c, of PtableLock] lk by simp
  have ct: "crit [PtableLock] ?t"
    using crit_rel [OF ca, of lk] lk by simp
  have "curproc ?t = Some i"
    using curproc_rel [OF ca] curproc_acq [OF c] i(1) by simp
  moreover have "p_state (ptable ?t ! i) \<noteq> RUNNING"
    using i(2) by simp
  ultimately obtain e where "sched_out ?t = Inr (e, ?t)"
    using sched_out_ok [OF ct] by blast
  then have "sleep_out ch lk s = Inr (i, e, ?t)"
    using myproc_ok [OF c] i(1) acquire_ok [OF c, of PtableLock] release_ok [OF ca, of lk] lk by (auto simp: sleep_out_def)
  then show ?thesis
    using ct by auto
qed

text \<open>The state the writer leaves: all written and the readers woken, an error, or the writer asleep.\<close>

definition write_outcome :: "u32 \<Rightarrow> int \<Rightarrow> u8 list \<Rightarrow> nat \<Rightarrow> pipe \<Rightarrow> nat \<Rightarrow> proc list \<Rightarrow>
    int + u8 list \<times> nat \<times> u32 \<Rightarrow> 'a file_st_scheme \<Rightarrow> bool" where
  "write_outcome p n bs k x i ps r s' \<longleftrightarrow>
     (if k = length bs then r = Inl n \<and> crit [] s' \<and> ptable s' = map (wake_proc (ChPipeNread p)) ps
      else if pp_readopen x = 0 \<or> p_killed (ps ! i) \<noteq> 0 then r = Inl (-1) \<and> crit [] s' \<and> ptable s' = ps
      else \<exists>e. r = Inr (drop k bs, i, e) \<and> crit [PtableLock] s' \<and>
        ptable s' = (map (wake_proc (ChPipeNread p)) ps)[i :=
          (map (wake_proc (ChPipeNread p)) ps ! i)\<lparr>p_chan := Some (ChPipeNwrite p), p_state := SLEEPING\<rparr>])"

definition room :: "u8 list \<Rightarrow> pipe \<Rightarrow> nat" where
  "room bs x = min (length bs) (PIPESIZE - pipe_len x)"

lemma p_set_fields [simp]:
  fixes s :: "'a file_st_scheme"
  shows "pipes (p_set p x s) = (pipes s)(p \<mapsto> x)" "ptable (p_set p x s) = ptable s" "curproc (p_set p x s) = curproc s"
    "lapic (p_set p x s) = lapic s" "eflags (p_set p x s) = eflags s" "cpus (p_set p x s) = cpus s"
    "ncpu (p_set p x s) = ncpu s" "locks (p_set p x s) = locks s"
  by (simp_all add: p_set_def curproc_def curcpu_def)

lemma pipewrite_full:
  fixes s :: "'a file_st_scheme"
  assumes c: "crit [PipeLock p] s" and x: "pipes s p = Some x" and i: "curproc s = Some i" "i < length (ptable s)"
    and full: "pipe_len x = PIPESIZE"
  shows "\<exists>r s'. pipewrite_loop p n (b # bs) s = Inr (r, s') \<and> pipes s' = pipes s \<and>
    write_outcome p n (b # bs) 0 x i (ptable s) r s'"
proof (cases "pp_readopen x = 0 \<or> p_killed (ptable s ! i) \<noteq> 0")
  case True
  then show ?thesis
    using full x proc_killed_ok [OF c _ i(1)] release_ok [OF c, of "PipeLock p"] crit_rel [OF c, of "PipeLock p"]
    by (auto simp: pipe_at_def full_iff write_outcome_def)
next
  case False
  obtain s1 where s1: "wakeup (ChPipeNread p) s = Inr s1" "sys_frame [PipeLock p] s s1"
      "ptable s1 = map (wake_proc (ChPipeNread p)) (ptable s)"
    using wakeup_ok [OF c, of "ChPipeNread p"] by auto
  have c1: "crit [PipeLock p] s1" and i1: "curproc s1 = Some i" "i < length (ptable s1)"
    and m1: "proc_st.more s1 = proc_st.more s"
    using s1(2,3) i by (auto simp: sys_frame_def)
  obtain e s2 where s2: "sleep_out (ChPipeNwrite p) (PipeLock p) s1 = Inr (i, e, s2)" "crit [PtableLock] s2"
      "ptable s2 = (ptable s1)[i := (ptable s1 ! i)\<lparr>p_chan := Some (ChPipeNwrite p), p_state := SLEEPING\<rparr>]"
      "proc_st.more s2 = proc_st.more s1"
    using sleep_out_ok [OF c1 _ i1, of "ChPipeNwrite p"] by auto
  have "pipes s2 = pipes s"
    using file_more_fields(1) [of s2 s] s2(4) m1 by simp
  then show ?thesis
    using False full x proc_killed_ok [OF c _ i(1)] s1 s2
    by (auto simp: pipe_at_def full_iff write_outcome_def)
qed

lemma pipewrite_loop_ok:
  fixes s :: "'a file_st_scheme"
  assumes c: "crit [PipeLock p] s" and x: "pipes s p = Some x" "pipe_wf x" and i: "curproc s = Some i" "i < length (ptable s)"
  shows "\<exists>r s' x'. pipewrite_loop p n bs s = Inr (r, s') \<and> pipes s' p = Some x' \<and> (\<forall>q. q \<noteq> p \<longrightarrow> pipes s' q = pipes s q) \<and> pipe_wf x' \<and>
    contents x' = contents x @ take (room bs x) bs \<and> write_outcome p n bs (room bs x) x i (ptable s) r s'"
  using assms
proof (induction bs arbitrary: s x)
  case Nil
  obtain s1 where s1: "wakeup (ChPipeNread p) s = Inr s1" "sys_frame [PipeLock p] s s1"
      "ptable s1 = map (wake_proc (ChPipeNread p)) (ptable s)"
    using wakeup_ok [OF Nil.prems(1), of "ChPipeNread p"] by auto
  have c1: "crit [PipeLock p] s1" and "pipes s1 = pipes s"
    using s1(2) file_more_fields(1) [of s1 s] by (auto simp: sys_frame_def)
  then show ?case
    using s1 release_ok [OF c1, of "PipeLock p"] crit_rel [OF c1, of "PipeLock p"] Nil.prems(2,3)
    by (auto simp: write_outcome_def room_def)
next
  case (Cons b bs)
  show ?case
  proof (cases "pipe_len x = PIPESIZE")
    case True
    then show ?thesis
      using pipewrite_full [OF Cons.prems(1,2,4,5) True, of n b bs] Cons.prems(2,3)
      by (auto simp: room_def)
  next
    case False
    let ?x = "pipe_put b x"
    let ?s = "p_set p ?x s"
    have wf: "pipe_wf ?x" and ct: "contents ?x = contents x @ [b]"
      using pipe_put_ok [OF Cons.prems(3) False] by auto
    have "length (contents ?x) = length (contents x) + 1"
      using ct by simp
    then have rm: "room (b # bs) x = Suc (room bs ?x)"
      using Cons.prems(3) False by (auto simp: room_def pipe_wf_def)
    obtain r s' x' where r: "pipewrite_loop p n bs ?s = Inr (r, s')" "pipes s' p = Some x' \<and> (\<forall>q. q \<noteq> p \<longrightarrow> pipes s' q = pipes ?s q)" "pipe_wf x'"
        "contents x' = contents ?x @ take (room bs ?x) bs" "write_outcome p n bs (room bs ?x) ?x i (ptable ?s) r s'"
      using Cons.IH [of ?s ?x] Cons.prems wf by auto
    have "pp_readopen ?x = pp_readopen x"
      by (simp add: pipe_put_def)
    then have "write_outcome p n (b # bs) (room (b # bs) x) x i (ptable s) r s'"
      using r(5) unfolding rm write_outcome_def by (auto split: if_splits)
    moreover have "pipewrite_loop p n (b # bs) s = Inr (r, s')"
      using r(1) False Cons.prems(2) by (simp add: pipe_at_def full_iff)
    ultimately show ?thesis
      using r(2-4) ct rm by auto
  qed
qed

lemma piperead_copies:
  fixes s :: "'a file_st_scheme"
  assumes c: "crit [PipeLock p] s" and x: "pipes s p = Some x" "pipe_wf x" and ne: "contents x \<noteq> [] \<or> pp_writeopen x = 0"
  shows "\<exists>s' x'. piperead_loop p n s = Inr (Inl (int (length (take n (contents x))), take n (contents x)), s') \<and>
    pipes s' p = Some x' \<and> (\<forall>q. q \<noteq> p \<longrightarrow> pipes s' q = pipes s q) \<and> pipe_wf x' \<and> contents x' = drop n (contents x) \<and>
    crit [] s' \<and> ptable s' = map (wake_proc (ChPipeNwrite p)) (ptable s)"
proof -
  obtain x' where x': "pipe_copy n x = (take n (contents x), x')" "pipe_wf x'" "contents x' = drop n (contents x)"
    using pipe_copy_ok [OF x(2), of n] by auto
  have c1: "crit [PipeLock p] (p_set p x' s)"
    using c by simp
  obtain s1 where s1: "wakeup (ChPipeNwrite p) (p_set p x' s) = Inr s1" "sys_frame [PipeLock p] (p_set p x' s) s1"
      "ptable s1 = map (wake_proc (ChPipeNwrite p)) (ptable s)"
    using wakeup_ok [OF c1, of "ChPipeNwrite p"] by auto
  have c2: "crit [PipeLock p] s1" and "pipes s1 = (pipes s)(p \<mapsto> x')"
    using s1(2) file_more_fields(1) [of s1 "p_set p x' s"] by (auto simp: sys_frame_def)
  moreover have "\<not> (pp_nread x = pp_nwrite x \<and> pp_writeopen x \<noteq> 0)"
    using ne by (metis empty_iff length_0_conv length_contents)
  ultimately show ?thesis
    using x x' s1 release_ok [OF c2, of "PipeLock p"] crit_rel [OF c2, of "PipeLock p"]
    by (auto simp: piperead_loop_def pipe_at_def)
qed

section \<open>Properties\<close>

text \<open>
  C36: A pipe is a queue of at most \<open>PIPESIZE\<close> bytes. In every interleaving of writers that store a byte when there is
  room and readers that take bytes, starting from an empty pipe with its counters anywhere (they wrap around at
  2^32), the bytes read so far followed by the bytes in the buffer are exactly the bytes written, in order: nothing
  is lost, repeated or reordered.
\<close>

theorem pipe_fifo:
  assumes "pipe_wf x0" "pp_nread x0 = pp_nwrite x0" "pipe_run x0 w r x"
  shows "r @ contents x = w \<and> length (contents x) \<le> PIPESIZE"
proof -
  have "pipe_wf x \<and> r @ contents x = w"
    using assms(3)
  proof induction
    case pr_start
    then show ?case
      using assms(1,2) by (simp add: empty_iff contents_def)
  next
    case (pr_write w r x c)
    then have "length (contents x) < PIPESIZE"
      using pq.bounded [of x] full_iff [of x] by (simp add: le_less)
    then show ?case
      using pr_write.IH pq.put_keeps [of x r w c] by blast
  next
    case (pr_read w r x n)
    then show ?case
      using pq.get_keeps [of x r w n] by blast
  qed
  then show ?thesis
    using pq.bounded by blast
qed


section \<open>Witnesses\<close>

definition ex_pipe :: pipe where
  "ex_pipe = \<lparr>pp_data = replicate 512 0, pp_nread = -1, pp_nwrite = -1, pp_readopen = 1, pp_writeopen = 1\<rparr>"

lemma ex_pipe_wf: "pipe_wf ex_pipe"
  by (simp add: ex_pipe_def pipe_wf_def pipe_len_def)

theorem pipe_fifo_witness:
  "pipe_run ex_pipe [7, 8] [7] (snd (pipe_copy 1 (pipe_put 8 (pipe_put 7 ex_pipe)))) \<and>
   contents (snd (pipe_copy 1 (pipe_put 8 (pipe_put 7 ex_pipe)))) = [8]"
proof -
  have "pipe_run ex_pipe ([] @ [7]) [] (pipe_put 7 ex_pipe)"
    by (rule pr_write [OF pr_start]) (simp add: ex_pipe_def)
  then have "pipe_run ex_pipe (([] @ [7]) @ [8]) [] (pipe_put 8 (pipe_put 7 ex_pipe))"
    by (rule pr_write) (simp add: ex_pipe_def pipe_put_def)
  moreover have "fst (pipe_copy 1 (pipe_put 8 (pipe_put 7 ex_pipe))) = [7]"
  proof -
    have l: "pipe_len ex_pipe = 0"
      by (simp add: pipe_len_def ex_pipe_def)
    then have "contents ex_pipe = []"
      by (simp add: contents_def)
    then show ?thesis
      using pq.fold_put [OF ex_pipe_wf, of "[7, 8]"] l pq.get_law [of "pipe_put 8 (pipe_put 7 ex_pipe)" 1] by simp
  qed
  ultimately have r: "pipe_run ex_pipe [7, 8] [7] (snd (pipe_copy 1 (pipe_put 8 (pipe_put 7 ex_pipe))))"
    using pr_read [of ex_pipe "[7, 8]" "[]" "pipe_put 8 (pipe_put 7 ex_pipe)" 1] by simp
  moreover have "pp_nread ex_pipe = pp_nwrite ex_pipe"
    by (simp add: ex_pipe_def)
  ultimately show ?thesis
    using pipe_fifo [OF ex_pipe_wf _ r] by simp
qed

definition ex_file :: file_st where
  "ex_file = log_st.extend ex_log
     \<lparr>fsb = \<lparr>sb_size = 1000, sb_nblocks = 900, sb_ninodes = 200, sb_nlog = 30, sb_logstart = 256, sb_inodestart = 32, sb_bmapstart = 58\<rparr>,
      icache = replicate 50 \<lparr>i_dev = 0, i_inum = 0, i_ref = 0, i_valid = 0, i_type = 0, i_major = 0, i_minor = 0, i_nlink = 0,
        i_size = 0, i_addrs = replicate 13 0\<rparr>,
      ftable = replicate 100 \<lparr>f_type = FD_NONE, f_ref = 0, f_readable = False, f_writable = False, f_pipe = 0, f_ip = 0, f_off = 0\<rparr>,
      pipes = [0x80200000 \<mapsto> pipe_put 7 ex_pipe]\<rparr>"

lemma ex_file_fields: "crit [] ex_file" "live ex_file" "pipes ex_file 0x80200000 = Some (pipe_put 7 ex_pipe)"
proof -
  have "curproc ex_file = curproc ex_log" "ptable ex_file = ptable ex_log"
    by (simp_all add: ex_file_def log_st.defs curproc_def curcpu_def)
  then have "live ex_file = live ex_log"
    by (simp add: live_def split: option.split)
  then show "live ex_file"
    using ex_log_ready(1) by (simp add: bready_def)
  show "crit [] ex_file" "pipes ex_file 0x80200000 = Some (pipe_put 7 ex_pipe)"
    using ex_log_ready(3) by (simp_all add: ex_file_def log_st.defs)
qed


end
