(* ===== verification/Fs_Tx.thy ===== *)
theory Fs_Tx
  imports Fs
begin

text \<open>
  What \<open>fs.c\<close> relies on below it: the blocks of the disk as one transaction sees them. A block is read into
  a buffer, changed and handed to the log, and released; the block contents seen by later reads change at once, while
  the disk itself is untouched until the commit. The contract is stated once as a locale over \<open>bread\<close>, \<open>log_write\<close> and
  \<open>brelse\<close> and discharged on their models; the file-system operations are proved against it.
\<close>

section \<open>The blocks of a transaction\<close>

definition disk :: "'a bio_st_scheme \<Rightarrow> nat \<Rightarrow> u8 list" where
  "disk s = st_cont (store_of s)"

definition held :: "'a bio_st_scheme \<Rightarrow> nat \<Rightarrow> nat option" where
  "held s n = map_option fst (st_held (store_of s) n)"

definition lset :: "'a log_st_scheme \<Rightarrow> nat set" where
  "lset s = unat ` set (logged s)"

text \<open>A transaction is open, the log has its header clear, and the pinned buffers are the logged blocks.\<close>

definition txs :: "'a log_st_scheme \<Rightarrow> bool" where
  "txs s \<longleftrightarrow> bready s \<and> (\<forall>n i p. st_held (store_of s) n = Some (i, p) \<longrightarrow> p = mypid s) \<and>
     (\<forall>n. n \<notin> lset s \<longrightarrow> st_cont (store_of s) n = st_disk (store_of s) n) \<and>
     log_geo (log_start s) (lh_block s) (disksize s) s \<and> 0 \<le> lh_n s \<and> lh_n s \<le> 29 \<and> distinct (logged s) \<and>
     (\<forall>b \<in> set (logged s). outside (log_start s) (unat b) \<and> b < disksize s) \<and>
     pinset (store_of s) = lset s \<and> 1 \<le> log_outstanding s \<and> 30 \<le> log_size s \<and>
     ld32 (memdisk s (unat (log_start s))) 0 = 0"

text \<open>What the block operations leave alone.\<close>

definition tkeep :: "'a log_st_scheme \<Rightarrow> 'a log_st_scheme \<Rightarrow> bool" where
  "tkeep s s' \<longleftrightarrow> base_of s' = base_of s \<and> disksize s' = disksize s \<and> memdisk s' = memdisk s \<and> dwrites s' = dwrites s \<and>
     log_start s' = log_start s \<and> log_size s' = log_size s \<and> log_dev s' = log_dev s \<and>
     log_outstanding s' = log_outstanding s \<and> log_committing s' = log_committing s \<and>
     log_st.more s' = log_st.more s \<and> (\<forall>k. slocks s' (InodeLk k) = slocks s (InodeLk k))"

definition home :: "'a log_st_scheme \<Rightarrow> nat \<Rightarrow> bool" where
  "home s n \<longleftrightarrow> outside (log_start s) n \<and> n < unat (disksize s)"

lemma tkeep_refl [simp]: "tkeep s s"
  by (simp add: tkeep_def)

lemma tkeep_trans: "tkeep s t \<Longrightarrow> tkeep t u \<Longrightarrow> tkeep s u"
  by (simp add: tkeep_def)

lemma tkeep_home: "tkeep s t \<Longrightarrow> home t = home s"
  by (simp add: tkeep_def home_def fun_eq_iff)

lemma finite_lset [simp]: "finite (lset s)"
  by (simp add: lset_def)

lemma card_lset: "txs s \<Longrightarrow> card (lset s) = nat (lh_n s)"
proof -
  assume a: "txs s"
  have "card (lset s) = card (set (logged s))"
    unfolding lset_def by (rule card_image) (meson inj_onI unsigned_word_eqI)
  also have "\<dots> = length (logged s)"
    using a by (simp add: txs_def distinct_card)
  also have "\<dots> = nat (lh_n s)"
    using a by (auto simp: logged_def txs_def log_geo_def)
  finally show ?thesis .
qed

lemma txsD:
  assumes "txs s"
  shows "bready s" "st_held (store_of s) n = Some (i, p) \<Longrightarrow> p = mypid s"
    "n \<notin> lset s \<Longrightarrow> st_cont (store_of s) n = st_disk (store_of s) n" "st_pinned (store_of s) n \<longleftrightarrow> n \<in> lset s"
    "0 \<le> lh_n s" "length (lh_block s) = 30" "1 \<le> log_outstanding s" "30 \<le> log_size s" "distinct (logged s)"
    "b \<in> set (logged s) \<Longrightarrow> outside (log_start s) (unat b) \<and> b < disksize s"
  using assms by (auto simp: txs_def log_geo_def pinset_def)

lemma txs_geo:
  assumes "txs s"
  shows "log_geo (log_start s) (lh_block s) (disksize s) s" "ld32 (memdisk s (unat (log_start s))) 0 = 0"
  using assms unfolding txs_def by blast+

lemma held_only:
  assumes "txs s" "\<And>n j p. h n = Some (j, p) \<Longrightarrow> st_held (store_of s) n = Some (j, p) \<or> p = mypid s"
  shows "\<forall>n j p. h n = Some (j, p) \<longrightarrow> p = mypid s"
  using assms txsD(2) [OF assms(1)] by blast

lemma txs_tx_ok: "txs s \<Longrightarrow> held s = (\<lambda>_. None) \<Longrightarrow> tx_ok s"
  by (auto simp: txs_def tx_ok_def logged_def lset_def held_def fun_eq_iff)

lemma in_use_tx: "txs s \<Longrightarrow> in_use (store_of s) = lset s \<union> dom (held s)"
  by (auto simp: in_use_def txs_def pinset_def held_def)

lemma held_iff: "txs s \<Longrightarrow> held s n = Some i \<longleftrightarrow> st_held (store_of s) n = Some (i, mypid s)"
  by (auto simp: held_def txs_def)

lemma disk_length: "txs s \<Longrightarrow> length (disk s n) = BSIZE"
proof -
  assume "txs s"
  then have inv: "bcache_inv (bufs s) (slocks s) (memdisk s)"
    by (simp add: txs_def bready_def)
  show ?thesis
  proof (cases "find_block (bufs s) n")
    case None
    then show ?thesis
      using bcache_invD(4) [OF inv] by (simp add: disk_def store_of_def)
  next
    case (Some i)
    then have "i < NBUF"
      using find_block_iff [OF bcache_invD(1) [OF inv]] by (simp add: cachedb_def)
    then show ?thesis
      using Some bcache_invD(3) [OF inv] by (simp add: disk_def store_of_def buf_ok_def)
  qed
qed

text \<open>A step of the block cache that leaves the log alone keeps the transaction.\<close>

lemma txs_bkeep:
  fixes s s' :: "'a log_st_scheme"
  assumes t: "txs s" and r: "bready s'" and k: "bkeep s s'"
    and st: "st_cont (store_of s') = st_cont (store_of s)" "st_disk (store_of s') = st_disk (store_of s)"
      "st_pinned (store_of s') = st_pinned (store_of s)" "st_trace (store_of s') = st_trace (store_of s)"
    and h: "\<forall>n i p. st_held (store_of s') n = Some (i, p) \<longrightarrow> p = mypid s"
  shows "txs s'" "tkeep s s'" "disk s' = disk s" "lset s' = lset s"
proof -
  note f = log_more_fields [OF bkeepD(3) [OF k]]
  have l: "logged s' = logged s" "lset s' = lset s"
    using f by (simp_all add: logged_def lset_def)
  have m: "memdisk s' = memdisk s" "dwrites s' = dwrites s"
    using st(2,4) by simp_all
  show "txs s'"
    unfolding txs_def using t r st h f l m bkeepD(1,2) [OF k] by (simp add: txs_def log_geo_def pinset_def)
  show "tkeep s s'"
    using k f m by (simp add: tkeep_def bkeep_def)
  show "disk s' = disk s" "lset s' = lset s"
    using st(1) l by (simp_all add: disk_def)
qed

lemma tx_read:
  fixes s :: "'a log_st_scheme"
  assumes t: "txs s" and b: "b < disksize s" and h: "held s (unat b) = None" and c: "card (lset s \<union> dom (held s)) < NBUF"
  shows "\<exists>i s'. bread 1 b s = Inr (i, s') \<and> txs s' \<and> tkeep s s' \<and> disk s' = disk s \<and> lset s' = lset s \<and>
    held s' = (held s)(unat b \<mapsto> i)"
proof -
  have r: "bready s"
    by (rule txsD(1) [OF t])
  obtain i s' where s': "bread 1 b s = Inr (i, s')" "bready s'" "bkeep s s'"
      "store_of s' = (store_of s)\<lparr>st_held := (st_held (store_of s))(unat b \<mapsto> (i, mypid s))\<rparr>"
    using bread_ok [OF r b] h c in_use_tx [OF t] by (auto simp: held_def)
  have h': "\<forall>n i p. st_held (store_of s') n = Some (i, p) \<longrightarrow> p = mypid s"
    by (rule held_only [OF t]) (simp add: s'(4) split: if_splits)
  have "txs s'" "tkeep s s'" "disk s' = disk s" "lset s' = lset s"
    by (rule txs_bkeep [OF t s'(2,3) _ _ _ _ h'], simp_all add: s'(4))+
  moreover have "held s' = (held s)(unat b \<mapsto> i)"
    using s'(4) by (auto simp: held_def fun_eq_iff)
  ultimately show ?thesis
    using s'(1) by blast
qed

lemma tx_data: "txs s \<Longrightarrow> held s n = Some i \<Longrightarrow> bdata i s = disk s n"
  using bc.getd_law [OF txsD(1), of s n i "mypid s"] by (simp add: held_iff disk_def)

lemma tx_release:
  fixes s :: "'a log_st_scheme"
  assumes t: "txs s" and h: "held s n = Some i"
  shows "\<exists>s'. brelse i s = Inr s' \<and> txs s' \<and> tkeep s s' \<and> disk s' = disk s \<and> lset s' = lset s \<and> held s' = (held s)(n := None)"
proof -
  have r: "bready s"
    by (rule txsD(1) [OF t])
  have cl: "st_pinned (store_of s) n \<or> st_cont (store_of s) n = st_disk (store_of s) n"
    using txsD(3,4) [OF t] by blast
  obtain s' where s': "brelse i s = Inr s'" "bready s'" "bkeep s s'"
      "store_of s' = (store_of s)\<lparr>st_held := (st_held (store_of s))(n := None)\<rparr>"
    using brelse_ok [OF r _ cl] h held_iff [OF t] by blast
  have h': "\<forall>n i p. st_held (store_of s') n = Some (i, p) \<longrightarrow> p = mypid s"
    by (rule held_only [OF t]) (simp add: s'(4) split: if_splits)
  have "txs s'" "tkeep s s'" "disk s' = disk s" "lset s' = lset s"
    by (rule txs_bkeep [OF t s'(2,3) _ _ _ _ h'], simp_all add: s'(4))+
  moreover have "held s' = (held s)(n := None)"
    using s'(4) by (auto simp: held_def fun_eq_iff)
  ultimately show ?thesis
    using s'(1) by blast
qed

lemma tx_write:
  fixes s :: "'a log_st_scheme"
  assumes t: "txs s" and h: "held s n = Some i" and c: "card (lset s) < 29" and o: "home s n" and d: "length d = BSIZE"
  shows "\<exists>s'. log_write i (bdata_set i d s) = Inr s' \<and> txs s' \<and> tkeep s s' \<and> disk s' = (disk s)(n := d) \<and>
    lset s' = insert n (lset s) \<and> held s' = held s"
proof -
  let ?s = "bdata_set i d s"
  have h': "st_held (store_of s) n = Some (i, mypid s)" and r: "bready s"
    using h held_iff [OF t] txsD(1) [OF t] by simp_all
  note b = bdata_set_ok [OF r h' d]
  note f = log_more_fields [OF bkeepD(3) [OF b(2)]]
  have hb: "st_held (store_of ?s) n = Some (i, mypid s)"
    using h' b(3) by simp
  have bn: "unat (b_blockno (bufs ?s ! i)) = n"
    using heldD(3) [OF b(1) hb] .
  have lg: "logged ?s = logged s"
    using f by (simp add: logged_def)
  have n: "0 \<le> lh_n ?s" "lh_n ?s < 30" "lh_n ?s < log_size ?s - 1" "length (lh_block ?s) = 30" "1 \<le> log_outstanding ?s" "crit [] ?s"
    using txsD(5-8) [OF t] f c card_lset [OF t] b(1) by (auto simp: bready_def)
  let ?x = "b_blockno (bufs ?s ! i)"
  obtain s' where s': "log_write i ?s = Inr s'" "crit [] s'" "base_of s' = base_of ?s" "slocks s' = slocks ?s" "memdisk s' = memdisk ?s"
      "disksize s' = disksize ?s" "dwrites s' = dwrites ?s"
      "bufs s' = (bufs ?s)[i := (bufs ?s ! i)\<lparr>b_flags := b_flags (bufs ?s ! i) OR B_DIRTY\<rparr>]"
      "logged s' = (if ?x \<in> set (logged ?s) then logged ?s else logged ?s @ [?x])"
      "lh_n s' = (if ?x \<in> set (logged ?s) then lh_n ?s else lh_n ?s + 1)" "length (lh_block s') = 30"
      "log_start s' = log_start ?s" "log_size s' = log_size ?s" "log_dev s' = log_dev ?s" "log_outstanding s' = log_outstanding ?s"
      "log_committing s' = log_committing ?s" "log_st.more s' = log_st.more ?s"
    using log_write_ok [OF n(6,1,2,3,4,5), of i] by blast
  let ?p = "b_set i (\<lambda>x. x\<lparr>b_flags := b_flags x OR B_DIRTY\<rparr>) ?s"
  note bp = bpin_ok [OF b(1) hb]
  have p: "bufs s' = bufs ?p" "slocks s' = slocks ?p" "memdisk s' = memdisk ?p" "dwrites s' = dwrites ?p" "base_of s' = base_of ?p"
    using s' by (simp_all add: b_set_def)
  have r': "bready s'"
    using ready_cong [OF bp(1) s'(2) p(5,1,2,3)] .
  have st: "store_of s' = (store_of s)\<lparr>st_cont := (st_cont (store_of s))(n := d), st_pinned := (st_pinned (store_of s))(n := True)\<rparr>"
    using store_cong [OF p(1,3,2,4)] bp(3) b(3) by simp
  have pid: "mypid s' = mypid s"
    using base_ofD(4) [OF s'(3)] bkeepD(1) [OF b(2)] by simp
  have ls: "lset s' = insert n (lset s)"
    using s'(9) bn lg by (auto simp: lset_def)
  have m: "memdisk s' = memdisk s" "dwrites s' = dwrites s"
    using store_of_simps [of s'] store_of_simps [of s] st by simp_all
  have lh: "0 \<le> lh_n s'" "lh_n s' \<le> 29" "distinct (logged s')"
    using s'(9,10) n(1) f txsD(9) [OF t] c card_lset [OF t] lg by auto
  have "?x < disksize s" "outside (log_start s) (unat ?x)"
    using o bn by (auto simp: home_def word_less_nat_alt)
  then have bl: "\<forall>b \<in> set (logged s'). outside (log_start s') (unat b) \<and> b < disksize s'"
    using txsD(10) [OF t] s'(6,9,12) lg f bkeepD(2) [OF b(2)] by auto
  have geo: "log_geo (log_start s') (lh_block s') (disksize s') s'"
    using txs_geo [OF t] s'(6,11,12,14) f bkeepD(2) [OF b(2)] by (simp add: log_geo_def)
  have pn: "pinset (store_of s') = lset s'"
    using txsD(4) [OF t] ls by (auto simp: pinset_def st)
  have cd: "\<forall>n. n \<notin> lset s' \<longrightarrow> st_cont (store_of s') n = st_disk (store_of s') n"
    using txsD(3) [OF t] ls by (simp add: st)
  have hh: "\<forall>n i p. st_held (store_of s') n = Some (i, p) \<longrightarrow> p = mypid s'"
    unfolding pid by (rule held_only [OF t]) (simp add: st)
  have misc: "1 \<le> log_outstanding s'" "30 \<le> log_size s'" "ld32 (memdisk s' (unat (log_start s'))) 0 = 0"
    using txsD(7,8) [OF t] txs_geo(2) [OF t] s'(12,13,15) f m by simp_all
  have "txs s'"
    unfolding txs_def using r' hh cd geo lh bl pn misc by blast
  moreover have "tkeep s s'"
    using s' m f bkeepD [OF b(2)] by (simp add: tkeep_def)
  moreover have "disk s' = (disk s)(n := d)" "held s' = held s"
    using st by (simp_all add: disk_def held_def fun_eq_iff)
  ultimately show ?thesis
    using s'(1) ls by blast
qed

section \<open>The contract the file system relies on\<close>

locale tx_blocks =
  fixes ok :: "'s \<Rightarrow> bool" and keep :: "'s \<Rightarrow> 's \<Rightarrow> bool" and dk :: "'s \<Rightarrow> nat \<Rightarrow> u8 list"
    and hd :: "'s \<Rightarrow> nat \<Rightarrow> nat option" and ls :: "'s \<Rightarrow> nat set" and hm :: "'s \<Rightarrow> nat \<Rightarrow> bool"
    and rd :: "u32 \<Rightarrow> 's \<Rightarrow> (nat \<times> 's) kres" and dat :: "nat \<Rightarrow> 's \<Rightarrow> u8 list"
    and upd :: "nat \<Rightarrow> u8 list \<Rightarrow> 's \<Rightarrow> 's kres" and rl :: "nat \<Rightarrow> 's \<Rightarrow> 's kres"
  assumes keep_trans: "keep s t \<Longrightarrow> keep t u \<Longrightarrow> keep s u" and keep_home: "keep s t \<Longrightarrow> hm t = hm s"
    and rd_law: "\<lbrakk>ok s; hm s (unat b); hd s (unat b) = None; card (ls s \<union> dom (hd s)) < NBUF\<rbrakk> \<Longrightarrow>
      \<exists>i s'. rd b s = Inr (i, s') \<and> ok s' \<and> keep s s' \<and> dk s' = dk s \<and> ls s' = ls s \<and> hd s' = (hd s)(unat b \<mapsto> i)"
    and dat_law: "\<lbrakk>ok s; hd s n = Some i\<rbrakk> \<Longrightarrow> dat i s = dk s n"
    and upd_law: "\<lbrakk>ok s; hd s n = Some i; card (ls s) < 29; hm s n; length d = BSIZE\<rbrakk> \<Longrightarrow>
      \<exists>s'. upd i d s = Inr s' \<and> ok s' \<and> keep s s' \<and> dk s' = (dk s)(n := d) \<and> ls s' = insert n (ls s) \<and> hd s' = hd s"
    and rl_law: "\<lbrakk>ok s; hd s n = Some i\<rbrakk> \<Longrightarrow>
      \<exists>s'. rl i s = Inr s' \<and> ok s' \<and> keep s s' \<and> dk s' = dk s \<and> ls s' = ls s \<and> hd s' = (hd s)(n := None)"
begin

text \<open>Read a block and release it.\<close>

lemma peek:
  assumes "ok s" "hm s (unat b)" "hd s (unat b) = None" "card (ls s \<union> dom (hd s)) < NBUF"
  shows "\<exists>i s1 s2. rd b s = Inr (i, s1) \<and> dat i s1 = dk s (unat b) \<and> rl i s1 = Inr s2 \<and>
    keep s s1 \<and> ok s2 \<and> keep s s2 \<and> dk s2 = dk s \<and> ls s2 = ls s \<and> hd s2 = hd s"
proof -
  obtain i s1 where s1: "rd b s = Inr (i, s1)" "ok s1" "keep s s1" "dk s1 = dk s" "ls s1 = ls s" "hd s1 = (hd s)(unat b \<mapsto> i)"
    using rd_law [OF assms] by blast
  obtain s2 where s2: "rl i s1 = Inr s2" "ok s2" "keep s1 s2" "dk s2 = dk s1" "ls s2 = ls s1" "hd s2 = (hd s1)(unat b := None)"
    using rl_law [OF s1(2), of "unat b" i] s1(6) by auto
  have "hd s2 = hd s"
    using s2(6) s1(6) assms(3) by (simp add: fun_upd_idem)
  then show ?thesis
    using s1 s2 dat_law [OF s1(2), of "unat b" i] keep_trans [OF s1(3) s2(3)] by auto
qed

text \<open>Read a block, change it in the transaction and release it.\<close>

lemma modify:
  assumes "ok s" "hm s (unat b)" "hd s (unat b) = None" "card (ls s \<union> dom (hd s)) < NBUF" "card (ls s) < 29" "length d = BSIZE"
  shows "\<exists>i s1 s2 s3. rd b s = Inr (i, s1) \<and> dat i s1 = dk s (unat b) \<and> upd i d s1 = Inr s2 \<and> rl i s2 = Inr s3 \<and>
    keep s s1 \<and> keep s s2 \<and> ok s3 \<and> keep s s3 \<and> dk s3 = (dk s)(unat b := d) \<and> ls s3 = insert (unat b) (ls s) \<and> hd s3 = hd s"
proof -
  obtain i s1 where s1: "rd b s = Inr (i, s1)" "ok s1" "keep s s1" "dk s1 = dk s" "ls s1 = ls s" "hd s1 = (hd s)(unat b \<mapsto> i)"
    using rd_law [OF assms(1-4)] by blast
  obtain s2 where s2: "upd i d s1 = Inr s2" "ok s2" "keep s1 s2" "dk s2 = (dk s1)(unat b := d)" "ls s2 = insert (unat b) (ls s1)" "hd s2 = hd s1"
    using upd_law [OF s1(2), of "unat b" i d] s1 assms(2,5,6) keep_home [OF s1(3)] by auto
  obtain s3 where s3: "rl i s2 = Inr s3" "ok s3" "keep s2 s3" "dk s3 = dk s2" "ls s3 = ls s2" "hd s3 = (hd s2)(unat b := None)"
    using rl_law [OF s2(2), of "unat b" i] s1(6) s2(6) by auto
  have "hd s3 = hd s"
    using s3(6) s2(6) s1(6) assms(3) by (simp add: fun_upd_idem)
  then show ?thesis
    using s1 s2 s3 dat_law [OF s1(2), of "unat b" i] keep_trans [OF s1(3) s2(3)] keep_trans [OF keep_trans [OF s1(3) s2(3)] s3(3)] by auto
qed

end

interpretation tb: tx_blocks txs tkeep disk held lset home "bread 1" bdata "\<lambda>i d s. log_write i (bdata_set i d s)" brelse
proof
  fix s t u :: "'a log_st_scheme" and b :: u32 and n i :: nat and d :: "u8 list"
  show "tkeep s t \<Longrightarrow> tkeep t u \<Longrightarrow> tkeep s u"
    by (rule tkeep_trans)
  show "tkeep s t \<Longrightarrow> home t = home s"
    by (rule tkeep_home)
  show "\<lbrakk>txs s; home s (unat b); held s (unat b) = None; card (lset s \<union> dom (held s)) < NBUF\<rbrakk> \<Longrightarrow>
      \<exists>i s'. bread 1 b s = Inr (i, s') \<and> txs s' \<and> tkeep s s' \<and> disk s' = disk s \<and> lset s' = lset s \<and> held s' = (held s)(unat b \<mapsto> i)"
    by (rule tx_read) (auto simp: home_def word_less_nat_alt)
  show "\<lbrakk>txs s; held s n = Some i\<rbrakk> \<Longrightarrow> bdata i s = disk s n"
    by (rule tx_data)
  show "\<lbrakk>txs s; held s n = Some i; card (lset s) < 29; home s n; length d = BSIZE\<rbrakk> \<Longrightarrow>
      \<exists>s'. log_write i (bdata_set i d s) = Inr s' \<and> txs s' \<and> tkeep s s' \<and> disk s' = (disk s)(n := d) \<and>
        lset s' = insert n (lset s) \<and> held s' = held s"
    by (rule tx_write)
  show "\<lbrakk>txs s; held s n = Some i\<rbrakk> \<Longrightarrow>
      \<exists>s'. brelse i s = Inr s' \<and> txs s' \<and> tkeep s s' \<and> disk s' = disk s \<and> lset s' = lset s \<and> held s' = (held s)(n := None)"
    by (rule tx_release)
qed

end
