(* ===== verification/Fs_Alloc.thy ===== *)
theory Fs_Alloc
  imports Fs_Tx
begin

text \<open>
  The free map of the disk, read off the blocks of a transaction: \<open>balloc\<close> takes the first free block, zeroes it and
  changes no other, or panics when there is none to take; \<open>bfree\<close> gives a block back.
\<close>

section \<open>The free map\<close>

definition nbmap :: "superblock \<Rightarrow> nat" where
  "nbmap sb = (unat (sb_size sb) + 4095) div 4096"

definition dstart :: "superblock \<Rightarrow> nat" where
  "dstart sb = unat (sb_bmapstart sb) + nbmap sb"

definition bmaps :: "superblock \<Rightarrow> nat set" where
  "bmaps sb = {unat (sb_bmapstart sb)..<dstart sb}"

definition bblk :: "superblock \<Rightarrow> nat \<Rightarrow> nat" where
  "bblk sb b = b div 4096 + unat (sb_bmapstart sb)"

definition used :: "(nat \<Rightarrow> u8 list) \<Rightarrow> superblock \<Rightarrow> nat \<Rightarrow> bool" where
  "used dk sb b \<longleftrightarrow> bit (dk (bblk sb b) ! (b mod 4096 div 8)) (b mod 8)"

definition ufree :: "'a fs_st_scheme \<Rightarrow> nat set" where
  "ufree s = {b. b < unat (sb_size (fsb s)) \<and> \<not> used (disk s) (fsb s) b}"

text \<open>The layout of \<open>mkfs\<close>: log, inode blocks, free map and data blocks, in this order.\<close>

definition fs_geo :: "'a fs_st_scheme \<Rightarrow> bool" where
  "fs_geo s \<longleftrightarrow> unat (log_start s) + LOGSIZE \<le> unat (sb_inodestart (fsb s)) \<and>
     unat (sb_inodestart (fsb s)) + unat (sb_ninodes (fsb s)) div IPB + 1 \<le> unat (sb_bmapstart (fsb s)) \<and>
     dstart (fsb s) \<le> unat (sb_size (fsb s)) \<and> unat (sb_size (fsb s)) \<le> unat (disksize s)"

definition fsok :: "'a fs_st_scheme \<Rightarrow> bool" where
  "fsok s \<longleftrightarrow> txs s \<and> fs_geo s \<and> (\<forall>b < dstart (fsb s). used (disk s) (fsb s) b)"

lemma fsokD:
  assumes "fsok s"
  shows "txs s" "fs_geo s" "b < dstart (fsb s) \<Longrightarrow> used (disk s) (fsb s) b"
  using assms by (auto simp: fsok_def)

lemma ufreeD:
  assumes "fsok s" "b \<in> ufree s"
  shows "dstart (fsb s) \<le> b" "b < unat (sb_size (fsb s))" "\<not> used (disk s) (fsb s) b" "home s b" "b \<notin> bmaps (fsb s)" "b < 2 ^ 32"
    "0 < b"
proof -
  show u: "b < unat (sb_size (fsb s))" "\<not> used (disk s) (fsb s) b"
    using assms(2) by (auto simp: ufree_def)
  show d: "dstart (fsb s) \<le> b"
    using fsokD(3) [OF assms(1)] u(2) by (meson not_le)
  show "b \<notin> bmaps (fsb s)"
    using d by (simp add: bmaps_def)
  show "home s b"
    using d u fsokD(2) [OF assms(1)] by (auto simp: home_def fs_geo_def outside_def dstart_def)
  show "0 < b"
    using d fsokD(2) [OF assms(1)] by (auto simp: fs_geo_def dstart_def)
  show "b < 2 ^ 32"
    using u(1) unat_u32_less [of "sb_size (fsb s)"] by simp
qed

lemma bmaps_home:
  assumes "fsok s" "b \<in> bmaps (fsb s)"
  shows "home s b"
  using assms(2) fsokD(2) [OF assms(1)] by (auto simp: home_def fs_geo_def outside_def bmaps_def dstart_def)

lemma bblk_in: "b < unat (sb_size sb) \<Longrightarrow> bblk sb b \<in> bmaps sb"
  by (auto simp: bblk_def bmaps_def dstart_def nbmap_def)

lemma BBLOCK_bblk:
  assumes "fs_geo s" "b < unat (sb_size (fsb s))"
  shows "unat (BBLOCK (of_nat b) (fsb s)) = bblk (fsb s) b"
proof -
  have b: "unat (of_nat b :: u32) = b"
    using assms(2) unat_u32_less [of "sb_size (fsb s)"] by (simp add: unat_of_nat)
  have "b div 4096 + unat (sb_bmapstart (fsb s)) < unat (sb_size (fsb s))"
    using bblk_in [OF assms(2)] assms(1) by (auto simp: bblk_def bmaps_def fs_geo_def)
  then have "b div 4096 + unat (sb_bmapstart (fsb s)) < 2 ^ 32"
    using unat_u32_less [of "sb_size (fsb s)"] by simp
  then show ?thesis
    by (simp add: BBLOCK_def bblk_def unat_word_ariths unat_div b)
qed

lemma mask_bit: "and x (bit_mask bi) = 0 \<longleftrightarrow> \<not> bit x (bi mod 8)"
  by (simp add: bit_mask_def push_bit_eq_mult and_exp_eq_0_iff_not_bit)

lemma bit_set_mask: "n < 8 \<Longrightarrow> bit (or x (bit_mask bi)) n \<longleftrightarrow> bit x n \<or> n = bi mod 8"
  by (auto simp: bit_mask_def bit_simps)

lemma bit_clear_mask: "n < 8 \<Longrightarrow> bit (and x (not (bit_mask bi))) n \<longleftrightarrow> bit x n \<and> n \<noteq> bi mod 8"
  by (auto simp: bit_mask_def bit_simps)

lemma free_bit_Some:
  assumes "bi \<le> j" "j < bi + n" "\<not> bit (d ! (j div 8)) (j mod 8)" "\<forall>i. bi \<le> i \<and> i < j \<longrightarrow> bit (d ! (i div 8)) (i mod 8)"
  shows "free_bit d n bi = Some j"
  using assms
proof (induction n arbitrary: bi)
  case (Suc n)
  then show ?case
    by (cases "bi = j") (auto simp: mask_bit)
qed simp

lemma free_bit_None: "\<forall>i. bi \<le> i \<and> i < bi + n \<longrightarrow> bit (d ! (i div 8)) (i mod 8) \<Longrightarrow> free_bit d n bi = None"
  by (induction n arbitrary: bi) (auto simp: mask_bit)

lemma card_insert_less: "card A < n \<Longrightarrow> card (insert x A) < Suc n"
  using card_insert_le_m1 [of "Suc n - 1" A x] by (cases n) auto

text \<open>The block of the free map that holds bit \<open>a\<close> after that bit is set or cleared.\<close>

lemma used_set:
  assumes l: "length (dk (bblk sb a)) = 512" and a: "a < unat (sb_size sb)" "a \<notin> bmaps sb" and b: "b < unat (sb_size sb)"
  defines "d \<equiv> dk (bblk sb a)" and "i \<equiv> a mod 4096 div 8"
  shows "used (dk(bblk sb a := d[i := or (d ! i) (bit_mask (a mod 4096))], a := z)) sb b \<longleftrightarrow> used dk sb b \<or> b = a"
    "used (dk(bblk sb a := d[i := and (d ! i) (not (bit_mask (a mod 4096)))])) sb b \<longleftrightarrow> used dk sb b \<and> b \<noteq> a"
proof -
  have i: "i < 512"
    by (auto simp: i_def)
  have ne: "bblk sb b \<noteq> a"
    using bblk_in [OF b] a(2) by auto
  have m8: "a mod 4096 mod 8 = a mod 8"
    by (simp add: mod_mod_cancel)
  have same: "b = a" if "bblk sb b = bblk sb a" "b mod 4096 div 8 = i" "b mod 8 = a mod 8"
  proof -
    have "b div 4096 = a div 4096"
      using that(1) by (simp add: bblk_def)
    moreover have "b mod 4096 = a mod 4096"
      using that(2,3) m8 mod_mod_cancel [of 8 4096 b] div_mult_mod_eq [of "b mod 4096" 8] div_mult_mod_eq [of "a mod 4096" 8]
      by (simp add: i_def)
    ultimately show ?thesis
      by (metis div_mult_mod_eq)
  qed
  show "used (dk(bblk sb a := d[i := or (d ! i) (bit_mask (a mod 4096))], a := z)) sb b \<longleftrightarrow> used dk sb b \<or> b = a"
    using i l ne same by (auto simp: used_def d_def i_def [symmetric] nth_list_update bit_set_mask m8)
  show "used (dk(bblk sb a := d[i := and (d ! i) (not (bit_mask (a mod 4096)))])) sb b \<longleftrightarrow> used dk sb b \<and> b \<noteq> a"
    using i l ne same by (auto simp: used_def d_def i_def [symmetric] nth_list_update bit_clear_mask m8)
qed

lemma tkeep_more:
  fixes s s' :: "'a fs_st_scheme"
  assumes "tkeep s s'"
  shows "fsb s' = fsb s" "icache s' = icache s" "fs_st.more s' = fs_st.more s"
proof -
  have "log_st.more s' = log_st.more s"
    using assms by (simp add: tkeep_def)
  then show "fsb s' = fsb s" "icache s' = icache s" "fs_st.more s' = fs_st.more s"
    by (cases s; cases s'; simp)+
qed

lemma geo_keep: "tkeep s s' \<Longrightarrow> fs_geo s' = fs_geo s"
  by (frule tkeep_more(1)) (simp add: fs_geo_def tkeep_def)

text \<open>Marking a free block, as \<open>balloc\<close> does it, with the block zeroed.\<close>

definition take_block :: "'a fs_st_scheme \<Rightarrow> nat \<Rightarrow> 'a fs_st_scheme \<Rightarrow> bool" where
  "take_block s a s' \<longleftrightarrow> fsok s' \<and> tkeep s s' \<and> held s' = held s \<and> ufree s' = ufree s - {a} \<and> disk s' a = replicate 512 0 \<and>
     (\<forall>b. b \<noteq> a \<and> b \<notin> bmaps (fsb s) \<longrightarrow> disk s' b = disk s b) \<and>
     lset s \<subseteq> lset s' \<and> a \<in> lset s' \<and> lset s' \<subseteq> insert a (lset s \<union> bmaps (fsb s))"

lemma take_blockI:
  fixes s s' :: "'a fs_st_scheme"
  assumes f: "fsok s" and a: "a \<in> ufree s" and t: "txs s'" "tkeep s s'" "held s' = held s"
    and d: "disk s' = (disk s)(bblk (fsb s) a := (disk s (bblk (fsb s) a))[a mod 4096 div 8 :=
          or (disk s (bblk (fsb s) a) ! (a mod 4096 div 8)) (bit_mask (a mod 4096))], a := replicate 512 0)"
    and l: "lset s' = insert a (insert (bblk (fsb s) a) (lset s))"
  shows "take_block s a s'"
proof -
  note u = ufreeD [OF f a]
  have len: "length (disk s (bblk (fsb s) a)) = 512"
    by (rule disk_length [OF fsokD(1) [OF f]])
  have us: "used (disk s') (fsb s) b \<longleftrightarrow> used (disk s) (fsb s) b \<or> b = a" if "b < unat (sb_size (fsb s))" for b
    unfolding d by (rule used_set(1) [where dk = "disk s", OF len u(2,5) that])
  have "dstart (fsb s) \<le> unat (sb_size (fsb s))"
    using fsokD(2) [OF f] by (simp add: fs_geo_def)
  then have "\<forall>b < dstart (fsb s). used (disk s') (fsb s) b"
    using us fsokD(3) [OF f] by simp
  then have "fsok s'"
    using t(1) geo_keep [OF t(2)] fsokD(2) [OF f] tkeep_more(1) [OF t(2)] by (simp add: fsok_def)
  moreover have "ufree s' = ufree s - {a}"
    using us tkeep_more(1) [OF t(2)] by (auto simp: ufree_def)
  ultimately show ?thesis
    using t d l bblk_in [OF u(2)] by (auto simp: take_block_def)
qed

text \<open>What \<open>balloc\<close> needs: buffers to work with, room in the log, and no held block of the map.\<close>

definition can_alloc :: "'a fs_st_scheme \<Rightarrow> bool" where
  "can_alloc s \<longleftrightarrow> fsok s \<and> card (lset s \<union> dom (held s)) < 29 \<and> card (lset s) < 28 \<and>
     (\<forall>b \<in> bmaps (fsb s) \<union> ufree s. held s b = None)"

lemma bzero_ok:
  fixes s :: "'a log_st_scheme"
  assumes "txs s" "home s (unat b)" "held s (unat b) = None" "card (lset s \<union> dom (held s)) < NBUF" "card (lset s) < 29"
  shows "\<exists>s'. bzero 1 b s = Inr s' \<and> txs s' \<and> tkeep s s' \<and> held s' = held s \<and> disk s' = (disk s)(unat b := replicate 512 0) \<and>
    lset s' = insert (unat b) (lset s)"
  using tb.modify [OF assms, of "replicate 512 0"] by (auto simp: bzero_def)

lemma balloc_hit:
  fixes s :: "'a fs_st_scheme"
  assumes c: "can_alloc s" and a: "a \<in> ufree s" "\<forall>b < a. used (disk s) (fsb s) b"
  shows "\<exists>s'. balloc_loop 1 ((a div 4096 * 4096) # bs) s = Inr (of_nat a, s') \<and> take_block s a s'"
proof -
  have f: "fsok s"
    using c by (simp add: can_alloc_def)
  note u = ufreeD [OF f a(1)]
  let ?b = "a div 4096 * 4096" and ?B = "bblk (fsb s) a" and ?j = "a mod 4096"
  have b: "?b < unat (sb_size (fsb s))" "?b + ?j = a" "bblk (fsb s) ?b = ?B"
    using u(2) by (auto simp: bblk_def intro: le_less_trans [of _ a])
  have B: "unat (BBLOCK (of_nat ?b) (fsb s)) = ?B"
    using BBLOCK_bblk [OF fsokD(2) [OF f] b(1)] b(3) by simp
  have h: "home s ?B" "held s ?B = None" "held s a = None"
    using bmaps_home [OF f bblk_in [OF u(2)]] c bblk_in [OF u(2)] a(1) by (auto simp: can_alloc_def)
  let ?d = "disk s ?B"
  let ?d' = "?d[?j div 8 := or (?d ! (?j div 8)) (bit_mask ?j)]"
  have len: "length ?d = 512"
    by (rule disk_length [OF fsokD(1) [OF f]])
  obtain i s1 s2 s3 where s: "bread 1 (BBLOCK (of_nat ?b) (fsb s)) s = Inr (i, s1)" "bdata i s1 = ?d"
      "log_write i (bdata_set i ?d' s1) = Inr s2" "brelse i s2 = Inr s3" "tkeep s s1" "txs s3" "tkeep s s3"
      "disk s3 = (disk s)(?B := ?d')" "lset s3 = insert ?B (lset s)" "held s3 = held s"
    using tb.modify [OF fsokD(1) [OF f], of "BBLOCK (of_nat ?b) (fsb s)" ?d'] h len c unfolding B by (auto simp: can_alloc_def)
  have "free_bit ?d (min 4096 (unat (sb_size (fsb s)) - ?b)) 0 = Some ?j"
  proof (rule free_bit_Some)
    show "?j < 0 + min 4096 (unat (sb_size (fsb s)) - ?b)"
      using u(2) b(2) by (simp add: less_diff_conv)
    show "\<not> bit (?d ! (?j div 8)) (?j mod 8)"
      using u(3) by (simp add: used_def mod_mod_cancel)
    show "\<forall>i. 0 \<le> i \<and> i < ?j \<longrightarrow> bit (?d ! (i div 8)) (i mod 8)"
    proof (intro allI impI)
      fix i assume i: "0 \<le> i \<and> i < ?j"
      have "?j < 4096"
        by simp
      then have m: "i < 4096" "?b + i < a"
        using i b(2) by linarith+
      have "bblk (fsb s) (?b + i) = ?B" "(?b + i) mod 4096 = i" "(?b + i) mod 8 = i mod 8"
        using m mod_mod_cancel [of 8 4096 "?b + i"] by (simp_all add: bblk_def)
      then show "bit (?d ! (i div 8)) (i mod 8)"
        using a(2) m(2) by (auto simp: used_def)
    qed
  qed simp
  moreover have a32: "unat (of_nat a :: u32) = a"
    using u(6) by (simp add: unat_of_nat)
  moreover have "card (lset s3 \<union> dom (held s3)) < NBUF" "card (lset s3) < 29"
    using s(9,10) c card_insert_less [of "lset s \<union> dom (held s)" 29 ?B] card_insert_less [of "lset s" 28 ?B]
    by (simp_all add: can_alloc_def)
  moreover have "home s3 a" "held s3 a = None"
    using u(4) tkeep_home [OF s(7)] s(10) h(3) by simp_all
  ultimately obtain s4 where s4: "bzero 1 (of_nat a) s3 = Inr s4" "txs s4" "tkeep s3 s4" "held s4 = held s3"
      "disk s4 = (disk s3)(a := replicate 512 0)" "lset s4 = insert a (lset s3)"
      and fb: "free_bit ?d (min 4096 (unat (sb_size (fsb s)) - ?b)) 0 = Some ?j"
    using bzero_ok [OF s(6), of "of_nat a"] by auto
  have "take_block s a s4"
    by (rule take_blockI [OF f a(1) s4(2) tkeep_trans [OF s(7) s4(3)]]) (use s s4 in simp_all)
  moreover have "balloc_loop 1 (?b # bs) s = Inr (of_nat a, s4)"
    using s(1-4) s4(1) fb tkeep_more(1) [OF s(5)] b(2) by (simp add: Let_def del: of_nat_add of_nat_mult)
  ultimately show ?thesis
    by blast
qed

text \<open>A block of the map without a clear bit is passed over.\<close>

lemma balloc_miss:
  fixes s :: "'a fs_st_scheme"
  assumes c: "can_alloc s" and k: "k * 4096 < unat (sb_size (fsb s))"
    and u: "\<forall>b. k * 4096 \<le> b \<and> b < Suc k * 4096 \<and> b < unat (sb_size (fsb s)) \<longrightarrow> used (disk s) (fsb s) b"
  shows "\<exists>s'. balloc_loop 1 (k * 4096 # bs) s = balloc_loop 1 bs s' \<and> txs s' \<and> tkeep s s' \<and> disk s' = disk s \<and> lset s' = lset s \<and> held s' = held s"
proof -
  have f: "fsok s"
    using c by (simp add: can_alloc_def)
  let ?B = "bblk (fsb s) (k * 4096)"
  have B: "unat (BBLOCK (of_nat (k * 4096)) (fsb s)) = ?B"
    by (rule BBLOCK_bblk [OF fsokD(2) [OF f] k])
  have h: "home s ?B" "held s ?B = None"
    using bmaps_home [OF f bblk_in [OF k]] c bblk_in [OF k] by (auto simp: can_alloc_def)
  obtain i s1 s2 where s: "bread 1 (BBLOCK (of_nat (k * 4096)) (fsb s)) s = Inr (i, s1)" "bdata i s1 = disk s ?B" "brelse i s1 = Inr s2"
      "tkeep s s1" "txs s2" "tkeep s s2" "disk s2 = disk s" "lset s2 = lset s" "held s2 = held s"
    using tb.peek [OF fsokD(1) [OF f], of "BBLOCK (of_nat (k * 4096)) (fsb s)"] h c unfolding B by (auto simp: can_alloc_def)
  have "free_bit (disk s ?B) (min 4096 (unat (sb_size (fsb s)) - k * 4096)) 0 = None"
  proof (rule free_bit_None, intro allI impI)
    fix i assume "0 \<le> i \<and> i < 0 + min 4096 (unat (sb_size (fsb s)) - k * 4096)"
    then have i: "i < 4096" "k * 4096 + i < unat (sb_size (fsb s))"
      by auto
    have "bblk (fsb s) (k * 4096 + i) = ?B" "(k * 4096 + i) mod 4096 = i" "(k * 4096 + i) mod 8 = i mod 8"
      using i(1) mod_mod_cancel [of 8 4096 "k * 4096 + i"] by (simp_all add: bblk_def)
    then show "bit (disk s ?B ! (i div 8)) (i mod 8)"
      using u [rule_format, of "k * 4096 + i"] i by (simp add: used_def)
  qed
  then show ?thesis
    using s tkeep_more(1) [OF s(4)] by (auto simp del: of_nat_mult)
qed

lemma can_alloc_cong:
  fixes s s' :: "'a fs_st_scheme"
  assumes c: "can_alloc s" and t: "txs s'" "tkeep s s'" "disk s' = disk s" "lset s' = lset s" "held s' = held s"
  shows "can_alloc s'" "ufree s' = ufree s" "take_block s' a s'' \<Longrightarrow> take_block s a s''"
proof -
  note m = tkeep_more [OF t(2)]
  show u: "ufree s' = ufree s"
    using t m by (simp add: ufree_def)
  then show "can_alloc s'"
    using c t m geo_keep [OF t(2)] by (simp add: can_alloc_def fsok_def)
  show "take_block s' a s'' \<Longrightarrow> take_block s a s''"
    using t m u tkeep_trans [OF t(2)] by (simp add: take_block_def)
qed

lemma balloc_ok:
  fixes s :: "'a fs_st_scheme"
  assumes c: "can_alloc s" and ne: "ufree s \<noteq> {}"
  shows "\<exists>a s'. a \<in> ufree s \<and> (\<forall>b < a. used (disk s) (fsb s) b) \<and> balloc 1 s = Inr (of_nat a, s') \<and> take_block s a s'"
proof -
  define a where "a = (LEAST b. b \<in> ufree s)"
  have a: "a \<in> ufree s"
    unfolding a_def using ne by (auto intro: LeastI)
  have less: "\<forall>b < a. used (disk s) (fsb s) b"
  proof (intro allI impI)
    fix b assume "b < a"
    then have "b \<notin> ufree s" "b < unat (sb_size (fsb s))"
      using a not_less_Least [of b "\<lambda>b. b \<in> ufree s"] by (auto simp: a_def ufree_def)
    then show "used (disk s) (fsb s) b"
      by (simp add: ufree_def)
  qed
  have "\<exists>s'. balloc_loop 1 (map (\<lambda>k. k * 4096) [k..<n]) t = Inr (of_nat a, s') \<and> take_block t a s'"
    if "k \<le> a div 4096" "a div 4096 < n" "can_alloc t" "a \<in> ufree t" "\<forall>b < a. used (disk t) (fsb t) b" for k n and t :: "'a fs_st_scheme"
    using that
  proof (induction "a div 4096 - k" arbitrary: k t)
    case 0
    then have "k = a div 4096" "map (\<lambda>k. k * 4096) [k..<n] = k * 4096 # map (\<lambda>k. k * 4096) [Suc k..<n]"
      by (simp_all add: upt_conv_Cons)
    then show ?case
      using balloc_hit [OF 0(4,5,6), of "map (\<lambda>k. k * 4096) [Suc k..<n]"] by simp
  next
    case (Suc d)
    then have k: "k < a div 4096"
      by simp
    then have l: "Suc k * 4096 \<le> a"
      by (metis Suc_leI div_times_less_eq_dividend le_trans mult_le_mono1)
    have m: "map (\<lambda>k. k * 4096) [k..<n] = k * 4096 # map (\<lambda>k. k * 4096) [Suc k..<n]"
      using k Suc.prems(2) by (simp add: upt_conv_Cons)
    obtain t' where t': "balloc_loop 1 (map (\<lambda>k. k * 4096) [k..<n]) t = balloc_loop 1 (map (\<lambda>k. k * 4096) [Suc k..<n]) t'"
        "txs t'" "tkeep t t'" "disk t' = disk t" "lset t' = lset t" "held t' = held t"
      using balloc_miss [OF Suc.prems(3), of k "map (\<lambda>k. k * 4096) [Suc k..<n]"] Suc.prems(4,5) l unfolding m
      by (auto simp: ufree_def)
    note cc = can_alloc_cong [OF Suc.prems(3) t'(2-6)]
    have "\<exists>s'. balloc_loop 1 (map (\<lambda>k. k * 4096) [Suc k..<n]) t' = Inr (of_nat a, s') \<and> take_block t' a s'"
      using Suc.hyps(2) k Suc.prems(2,4,5) cc(1,2) t'(4) tkeep_more(1) [OF t'(3)] by (intro Suc.hyps(1)) auto
    then show ?case
      using t'(1) cc(3) by auto
  qed
  moreover have "a div 4096 < (unat (sb_size (fsb s)) + 4095) div 4096"
    using a by (auto simp: ufree_def)
  ultimately show ?thesis
    using a less c by (auto simp: balloc_def intro!: exI [of _ a])
qed

lemma bfree_ok:
  fixes s :: "'a fs_st_scheme"
  assumes f: "fsok s" and c: "card (lset s \<union> dom (held s)) < NBUF" "card (lset s) < 29" and h: "\<forall>b \<in> bmaps (fsb s). held s b = None"
    and b: "dstart (fsb s) \<le> unat b" "unat b < unat (sb_size (fsb s))"
  shows "used (disk s) (fsb s) (unat b) \<Longrightarrow>
      \<exists>s'. bfree 1 b s = Inr s' \<and> fsok s' \<and> tkeep s s' \<and> held s' = held s \<and> ufree s' = insert (unat b) (ufree s) \<and>
        (\<forall>n. n \<notin> bmaps (fsb s) \<longrightarrow> disk s' n = disk s n) \<and> lset s \<subseteq> lset s' \<and> lset s' \<subseteq> lset s \<union> bmaps (fsb s)"
    "\<not> used (disk s) (fsb s) (unat b) \<Longrightarrow> bfree 1 b s = Inl (Panic ''freeing free block'')"
proof -
  let ?a = "unat b" and ?B = "bblk (fsb s) (unat b)" and ?j = "unat b mod 4096"
  have B: "unat (BBLOCK b (fsb s)) = ?B"
    using BBLOCK_bblk [OF fsokD(2) [OF f] b(2)] by simp
  have hB: "home s ?B" "held s ?B = None"
    using bmaps_home [OF f bblk_in [OF b(2)]] h bblk_in [OF b(2)] by auto
  let ?d = "disk s ?B"
  let ?d' = "?d[?j div 8 := and (?d ! (?j div 8)) (not (bit_mask ?j))]"
  have len: "length ?d = 512"
    by (rule disk_length [OF fsokD(1) [OF f]])
  obtain i s1 s2 s3 where s: "bread 1 (BBLOCK b (fsb s)) s = Inr (i, s1)" "bdata i s1 = ?d"
      "log_write i (bdata_set i ?d' s1) = Inr s2" "brelse i s2 = Inr s3" "tkeep s s1" "txs s3" "tkeep s s3"
      "disk s3 = (disk s)(?B := ?d')" "lset s3 = insert ?B (lset s)" "held s3 = held s"
    using tb.modify [OF fsokD(1) [OF f], of "BBLOCK b (fsb s)" ?d'] hB len c unfolding B by auto
  have m: "and (?d ! (?j div 8)) (bit_mask ?j) = 0 \<longleftrightarrow> \<not> used (disk s) (fsb s) ?a"
    by (simp add: mask_bit used_def mod_mod_cancel)
  show "\<not> used (disk s) (fsb s) ?a \<Longrightarrow> bfree 1 b s = Inl (Panic ''freeing free block'')"
    using s(1,2) m by (simp add: bfree_def Let_def)
  assume u: "used (disk s) (fsb s) ?a"
  have us: "used (disk s3) (fsb s) n \<longleftrightarrow> used (disk s) (fsb s) n \<and> n \<noteq> ?a" if "n < unat (sb_size (fsb s))" for n
    unfolding s(8) by (rule used_set(2) [where dk = "disk s", OF len b(2) _ that]) (use b(1) in \<open>simp add: bmaps_def\<close>)
  have "dstart (fsb s) \<le> unat (sb_size (fsb s))"
    using fsokD(2) [OF f] by (simp add: fs_geo_def)
  then have "\<forall>n < dstart (fsb s). used (disk s3) (fsb s) n"
    using us fsokD(3) [OF f] b(1) by auto
  then have "fsok s3"
    using s(6) geo_keep [OF s(7)] fsokD(2) [OF f] tkeep_more(1) [OF s(7)] by (simp add: fsok_def)
  moreover have "ufree s3 = insert ?a (ufree s)"
    using us tkeep_more(1) [OF s(7)] b(2) by (auto simp: ufree_def)
  moreover have "bfree 1 b s = Inr s3"
    using s(1-4) m u by (simp add: bfree_def Let_def)
  ultimately show "\<exists>s'. bfree 1 b s = Inr s' \<and> fsok s' \<and> tkeep s s' \<and> held s' = held s \<and> ufree s' = insert (unat b) (ufree s) \<and>
      (\<forall>n. n \<notin> bmaps (fsb s) \<longrightarrow> disk s' n = disk s n) \<and> lset s \<subseteq> lset s' \<and> lset s' \<subseteq> lset s \<union> bmaps (fsb s)"
    using s(7-10) bblk_in [OF b(2)] by (intro exI [of _ s3]) auto
qed

section \<open>Properties\<close>

text \<open>
  C17: In a transaction with a free block, \<open>balloc\<close> returns the lowest block whose bit in the free map is clear, sets that bit, zeroes
  the block and changes no other block or bit, and writes nothing to the disk before the commit. \<open>bfree\<close> of that block puts it back
  into the free set and nothing else, so that the free map is as before; freeing a block that is free panics.
\<close>

theorem balloc_bfree:
  fixes s :: "'a fs_st_scheme"
  assumes "fsok s" "held s = (\<lambda>_. None)" "card (lset s \<union> bmaps (fsb s)) < 27" "ufree s \<noteq> {}"
  shows "\<exists>a s1. balloc 1 s = Inr (of_nat a, s1) \<and> a \<in> ufree s \<and> (\<forall>b < a. used (disk s) (fsb s) b) \<and> disk s1 a = replicate 512 0 \<and>
    ufree s1 = ufree s - {a} \<and> (\<forall>b. b \<noteq> a \<and> b \<notin> bmaps (fsb s) \<longrightarrow> disk s1 b = disk s b) \<and> memdisk s1 = memdisk s \<and>
    (\<exists>s2. bfree 1 (of_nat a) s1 = Inr s2 \<and> ufree s2 = ufree s \<and> (\<forall>b. b \<notin> bmaps (fsb s) \<longrightarrow> disk s2 b = disk s1 b) \<and>
      bfree 1 (of_nat a) s2 = Inl (Panic ''freeing free block''))"
proof -
  have "card (lset s) \<le> card (lset s \<union> bmaps (fsb s))"
    by (rule card_mono) (simp_all add: bmaps_def)
  then have "can_alloc s"
    using assms by (simp add: can_alloc_def)
  then obtain a s1 where a: "a \<in> ufree s" "\<forall>b < a. used (disk s) (fsb s) b" "balloc 1 s = Inr (of_nat a, s1)" "take_block s a s1"
    using balloc_ok assms(4) by blast
  note u = ufreeD [OF assms(1) a(1)]
  have t: "fsok s1" "held s1 = (\<lambda>_. None)" "ufree s1 = ufree s - {a}" "disk s1 a = replicate 512 0" "tkeep s s1"
    "\<forall>b. b \<noteq> a \<and> b \<notin> bmaps (fsb s) \<longrightarrow> disk s1 b = disk s b" "lset s1 \<subseteq> insert a (lset s \<union> bmaps (fsb s))"
    using a(4) assms(2) by (auto simp: take_block_def)
  note m1 = tkeep_more [OF t(5)]
  have a32: "unat (of_nat a :: u32) = a"
    using u(6) by (simp add: unat_of_nat)
  have small: "card A < 29" if "A \<subseteq> insert a (lset s \<union> bmaps (fsb s))" for A
    using card_mono [OF _ that] card_insert_less [OF assms(3), of a] by (simp add: bmaps_def)
  have us: "used (disk s1) (fsb s1) a"
    using t(3) m1(1) u(2) by (auto simp: ufree_def)
  obtain s2 where s2: "bfree 1 (of_nat a) s1 = Inr s2" "fsok s2" "tkeep s1 s2" "held s2 = held s1" "ufree s2 = insert a (ufree s1)"
      "\<forall>n. n \<notin> bmaps (fsb s1) \<longrightarrow> disk s2 n = disk s1 n" "lset s2 \<subseteq> lset s1 \<union> bmaps (fsb s1)"
    using bfree_ok(1) [OF t(1), of "of_nat a"] small [OF t(7)] us u(1,2) m1(1) t(2) a32 by auto
  note m2 = tkeep_more [OF s2(3)]
  have "lset s2 \<subseteq> insert a (lset s \<union> bmaps (fsb s))"
    using s2(7) t(7) m1(1) by auto
  moreover have "\<not> used (disk s2) (fsb s2) a"
    using s2(5) by (auto simp: ufree_def)
  ultimately have "bfree 1 (of_nat a) s2 = Inl (Panic ''freeing free block'')"
    using bfree_ok(2) [OF s2(2), of "of_nat a"] small u(1,2) m1(1) m2(1) s2(4) t(2) a32 by simp
  moreover have "ufree s2 = ufree s" "memdisk s1 = memdisk s"
    using s2(5) t(3,5) a(1) by (auto simp: tkeep_def)
  ultimately show ?thesis
    using a t s2(1,6) m1(1) by auto
qed

section \<open>Witnesses\<close>

text \<open>
  A disk of 1000 blocks: the log at 256, one block of inodes at 286, the free map at 288 and the data from 289 on; inode 1 is a file of
  three bytes in block 289.
\<close>

definition ex_sb :: superblock where
  "ex_sb = \<lparr>sb_size = 1000, sb_nblocks = 711, sb_ninodes = 8, sb_nlog = 30, sb_logstart = 256, sb_inodestart = 286, sb_bmapstart = 288\<rparr>"

definition ex_dinode :: dinode where
  "ex_dinode = \<lparr>d_type = T_FILE, d_major = 0, d_minor = 0, d_nlink = 1, d_size = 3, d_addrs = 289 # replicate 12 0\<rparr>"

definition ex_disk :: "nat \<Rightarrow> u8 list" where
  "ex_disk = (\<lambda>_. replicate 512 0)(286 := put_dinode (replicate 512 0) 64 ex_dinode, 288 := replicate 36 255 @ 3 # replicate 475 0,
     289 := [65, 66, 67] @ replicate 509 0)"

definition ex_inode :: inode where
  "ex_inode = \<lparr>i_dev = 1, i_inum = 1, i_ref = 1, i_valid = 1, i_type = T_FILE, i_major = 0, i_minor = 0, i_nlink = 1, i_size = 3,
     i_addrs = 289 # replicate 12 0\<rparr>"

definition ex_fs :: fs_st where
  "ex_fs = log_st.extend ((ex_log_on ex_disk)\<lparr>log_outstanding := 1\<rparr>) \<lparr>fsb = ex_sb, icache = [ex_inode]\<rparr>"

lemma ex_disk_length: "length (ex_disk n) = 512"
  by (simp add: ex_disk_def put_dinode_def)

lemma ex_fs_tx: "txs ex_fs" "disk ex_fs = ex_disk" "held ex_fs = (\<lambda>_. None)" "lset ex_fs = {}" "fsb ex_fs = ex_sb" "icache ex_fs = [ex_inode]"
    "log_start ex_fs = 256" "disksize ex_fs = 1000"
proof -
  note r = ex_log_on_ready [where d = ex_disk, OF ex_disk_length] and e = ex_log_on_fields [of ex_disk]
  let ?l = "ex_log_on ex_disk"
  have fl: "bufs ex_fs = bufs ?l" "memdisk ex_fs = memdisk ?l" "slocks ex_fs = slocks ?l" "dwrites ex_fs = dwrites ?l"
    by (simp_all add: ex_fs_def log_st.defs)
  have st: "store_of ex_fs = store_of ?l"
    by (simp only: store_of_def fl)
  have "curproc ex_fs = curproc ?l" "ptable ex_fs = ptable ?l"
    by (simp_all add: ex_fs_def log_st.defs curproc_def curcpu_def)
  then have "live ex_fs = live ?l"
    by (simp add: live_def split: option.split)
  moreover have "crit [] ex_fs"
    using r(3) by (simp add: ex_fs_def log_st.defs)
  ultimately have b: "bready ex_fs"
    using r(1) fl by (simp add: bready_def)
  have lf: "log_start ex_fs = 256" "disksize ex_fs = 1000" "log_size ex_fs = 30" "log_outstanding ex_fs = 1" "log_dev ex_fs = 1" "lh_n ex_fs = 0"
    "lh_block ex_fs = replicate 30 0"
    using e by (simp_all add: ex_fs_def log_st.defs)
  show ls: "lset ex_fs = {}"
    using lf by (simp add: lset_def logged_def)
  have m: "memdisk ex_fs = ex_disk"
    using r(2) store_of_simps(1) [of ?l] fl(2) by simp
  have "ld32 (ex_disk 256) 0 = 0"
    by (simp add: ex_disk_def ld32_def)
  then show "txs ex_fs"
    unfolding txs_def using b st r(2) lf ls m by (simp add: log_geo_def logged_def pinset_def)
  show "disk ex_fs = ex_disk" "held ex_fs = (\<lambda>_. None)"
    using st r(2) by (auto simp: disk_def held_def)
  show "fsb ex_fs = ex_sb" "icache ex_fs = [ex_inode]" "log_start ex_fs = 256" "disksize ex_fs = 1000"
    using lf by (simp_all add: ex_fs_def log_st.defs)
qed

lemma ex_used:
  assumes "b < 1000"
  shows "used ex_disk ex_sb b \<longleftrightarrow> b < 290"
proof -
  have b: "bblk ex_sb b = 288" "b mod 4096 = b"
    using assms by (simp_all add: bblk_def ex_sb_def)
  have d: "ex_disk 288 = replicate 36 255 @ 3 # replicate 475 0"
    by (simp add: ex_disk_def)
  have full: "bit (255 :: u8) (b mod 8)"
    using bit_mask_iff [of 8 "b mod 8", where ?'a = u8] by (simp add: mask_eq_exp_minus_1)
  consider "b < 288" | "b = 288" | "b = 289" | "290 \<le> b" "b < 296" | "296 \<le> b"
    by linarith
  then show ?thesis
  proof cases
    case 1
    then have "b div 8 < 36"
      by (simp add: less_mult_imp_div_less)
    then show ?thesis
      using 1 b d full by (simp add: used_def nth_append)
  next
    case 4
    then have "b \<in> {290, 291, 292, 293, 294, 295}"
      by auto
    then show ?thesis
      using b d by (auto simp: used_def nth_append)
  next
    case 5
    then have "37 \<le> b div 8"
      using div_le_mono [of 296 b 8] by simp
    moreover have "b div 8 < 512"
      using assms by (simp add: less_mult_imp_div_less)
    ultimately show ?thesis
      using 5 b d by (simp add: used_def nth_append)
  qed (use b d in \<open>simp_all add: used_def nth_append\<close>)
qed

lemma ex_fsok: "fsok ex_fs" "ufree ex_fs = {290..<1000}" "bmaps (fsb ex_fs) = {288}"
proof -
  have s: "dstart ex_sb = 289" "unat (sb_size ex_sb) = 1000"
    by (simp_all add: dstart_def nbmap_def ex_sb_def)
  show "ufree ex_fs = {290..<1000}"
    using s ex_used ex_fs_tx(2,5) by (auto simp: ufree_def)
  show "bmaps (fsb ex_fs) = {288}"
    using s ex_fs_tx(5) by (auto simp: bmaps_def ex_sb_def)
  have "fs_geo ex_fs"
    using ex_fs_tx s by (simp add: fs_geo_def ex_sb_def)
  then show "fsok ex_fs"
    using ex_fs_tx(1,2,5) s ex_used by (simp add: fsok_def)
qed

theorem balloc_bfree_witness: "\<exists>s1. balloc 1 ex_fs = Inr (290, s1) \<and> disk s1 290 = replicate 512 0 \<and> 290 \<notin> ufree s1"
proof -
  have "card (lset ex_fs \<union> bmaps (fsb ex_fs)) < 27" "ufree ex_fs \<noteq> {}"
    using ex_fs_tx(4) ex_fsok(2,3) by simp_all
  then obtain a s1 where a: "balloc 1 ex_fs = Inr (of_nat a, s1)" "a \<in> ufree ex_fs" "\<forall>b < a. used (disk ex_fs) (fsb ex_fs) b"
      "disk s1 a = replicate 512 0" "ufree s1 = ufree ex_fs - {a}"
    using balloc_bfree [OF ex_fsok(1) ex_fs_tx(3)] by blast
  have "a = 290"
    using a(2,3) ex_used [of 290] ex_fsok(2) ex_fs_tx(2,5) by (cases "290 < a") auto
  then show ?thesis
    using a by auto
qed

end
