(* ===== verification/Fs_Data.thy ===== *)
theory Fs_Data
  imports Fs_Alloc
begin

text \<open>
  The contents of files. The block addresses of an inode are read off its cached copy and its indirect block. \<open>bmap\<close> is
  shown to extend them by fresh blocks only, and \<open>writei\<close> and \<open>readi\<close> to change and return exactly the bytes asked for.
\<close>

section \<open>The block addresses of an inode\<close>

text \<open>The address of file block \<open>k < MAXFILE\<close>, 0 if there is none; slot \<open>MAXFILE\<close> stands for the indirect block itself.\<close>

definition amap :: "(nat \<Rightarrow> u8 list) \<Rightarrow> u32 list \<Rightarrow> nat \<Rightarrow> u32" where
  "amap dk ad k =
     (if k < NDIRECT then ad ! k else if k = MAXFILE then ad ! NDIRECT else if ad ! NDIRECT = 0 then 0
      else ld32 (dk (unat (ad ! NDIRECT))) (4 * (k - NDIRECT)))"

definition ads :: "'a fs_st_scheme \<Rightarrow> nat \<Rightarrow> u32 list" where
  "ads s ip = i_addrs (icache s ! ip)"

definition am :: "'a fs_st_scheme \<Rightarrow> nat \<Rightarrow> nat \<Rightarrow> u32" where
  "am s ip = amap (disk s) (ads s ip)"

definition dblk :: "'a fs_st_scheme \<Rightarrow> nat \<Rightarrow> bool" where
  "dblk s b \<longleftrightarrow> dstart (fsb s) \<le> b \<and> b < unat (sb_size (fsb s)) \<and> b \<notin> ufree s"

text \<open>The addresses of an inode are data blocks in use, all different.\<close>

definition ino_ok :: "'a fs_st_scheme \<Rightarrow> nat \<Rightarrow> bool" where
  "ino_ok s ip \<longleftrightarrow> ip < length (icache s) \<and> i_dev (icache s ! ip) = 1 \<and> length (ads s ip) = NDIRECT + 1 \<and>
     (\<forall>k \<le> MAXFILE. am s ip k \<noteq> 0 \<longrightarrow> dblk s (unat (am s ip k))) \<and>
     (\<forall>j \<le> MAXFILE. \<forall>k \<le> MAXFILE. am s ip j \<noteq> 0 \<and> am s ip j = am s ip k \<longrightarrow> j = k)"

definition fkeep :: "'a fs_st_scheme \<Rightarrow> 'a fs_st_scheme \<Rightarrow> bool" where
  "fkeep s s' \<longleftrightarrow> base_of s' = base_of s \<and> disksize s' = disksize s \<and> memdisk s' = memdisk s \<and> dwrites s' = dwrites s \<and>
     log_start s' = log_start s \<and> log_size s' = log_size s \<and> log_dev s' = log_dev s \<and>
     log_outstanding s' = log_outstanding s \<and> log_committing s' = log_committing s \<and>
     fsb s' = fsb s \<and> fs_st.more s' = fs_st.more s \<and> (\<forall>k. slocks s' (InodeLk k) = slocks s (InodeLk k))"

lemma fkeep_refl [simp]: "fkeep s s"
  by (simp add: fkeep_def)

lemma fkeep_trans: "fkeep s t \<Longrightarrow> fkeep t u \<Longrightarrow> fkeep s u"
  by (simp add: fkeep_def)

lemma tkeep_fkeep: "tkeep s s' \<Longrightarrow> fkeep s s'"
  using tkeep_more [of s s'] by (simp add: tkeep_def fkeep_def)

lemma fkeepD:
  assumes "fkeep s s'"
  shows "fsb s' = fsb s" "home s' = home s" "fs_geo s' = fs_geo s"
  using assms by (simp_all add: fkeep_def home_def fs_geo_def fun_eq_iff)

text \<open>Changing the cached inode touches no block.\<close>

lemma i_set_tx [simp]:
  fixes s :: "'a fs_st_scheme"
  shows "txs (i_set ip f s) = txs s" "disk (i_set ip f s) = disk s" "held (i_set ip f s) = held s" "lset (i_set ip f s) = lset s"
    "fsb (i_set ip f s) = fsb s" "fkeep s (i_set ip f s)" "ufree (i_set ip f s) = ufree s" "fsok (i_set ip f s) = fsok s"
    "icache (i_set ip f s) = (icache s)[ip := f (icache s ! ip)]"
proof -
  have c: "curproc (i_set ip f s) = curproc s" "ptable (i_set ip f s) = ptable s" "bufs (i_set ip f s) = bufs s"
    "slocks (i_set ip f s) = slocks s" "memdisk (i_set ip f s) = memdisk s" "dwrites (i_set ip f s) = dwrites s" "disksize (i_set ip f s) = disksize s"
    by (simp_all add: i_set_def curproc_def curcpu_def)
  have st: "store_of (i_set ip f s) = store_of s"
    by (rule store_cong) (simp_all add: c)
  then show d: "disk (i_set ip f s) = disk s" "held (i_set ip f s) = held s"
    by (simp_all add: disk_def held_def fun_eq_iff)
  have p: "mypid (i_set ip f s) = mypid s" "live (i_set ip f s) = live s"
    using c by (simp_all add: mypid_def live_def cong: option.case_cong)
  have "crit [] (i_set ip f s) = crit [] s"
    by (simp add: i_set_def)
  then have b: "bready (i_set ip f s) = bready s"
    using c p by (simp add: bready_def)
  show l: "lset (i_set ip f s) = lset s"
    by (simp add: lset_def logged_def i_set_def)
  show "fsb (i_set ip f s) = fsb s" "icache (i_set ip f s) = (icache s)[ip := f (icache s ! ip)]"
    by (simp_all add: i_set_def)
  show k: "fkeep s (i_set ip f s)"
    using c by (simp add: fkeep_def base_of_def) (simp add: i_set_def)
  have "log_start (i_set ip f s) = log_start s" "lh_block (i_set ip f s) = lh_block s" "lh_n (i_set ip f s) = lh_n s" "logged (i_set ip f s) = logged s"
    "log_outstanding (i_set ip f s) = log_outstanding s" "log_size (i_set ip f s) = log_size s" "log_dev (i_set ip f s) = log_dev s"
    by (simp_all add: i_set_def logged_def)
  then show t: "txs (i_set ip f s) = txs s"
    unfolding txs_def log_geo_def st p b l c by simp
  show u: "ufree (i_set ip f s) = ufree s"
    using fkeepD(1) [OF k] d by (simp add: ufree_def)
  show "fsok (i_set ip f s) = fsok s"
    using fkeepD [OF k] d t by (simp add: fsok_def)
qed

text \<open>
  \<open>ext ip n s s'\<close>: going from \<open>s\<close> to \<open>s'\<close>, inode \<open>ip\<close> has taken up to \<open>n\<close> free blocks into empty slots; what it had is where it was,
  and no block in use by anything else has changed.
\<close>

definition ext :: "nat \<Rightarrow> nat \<Rightarrow> 'a fs_st_scheme \<Rightarrow> 'a fs_st_scheme \<Rightarrow> bool" where
  "ext ip n s s' \<longleftrightarrow> fsok s' \<and> fkeep s s' \<and> held s' = held s \<and> ino_ok s' ip \<and>
     icache s' = (icache s)[ip := (icache s ! ip)\<lparr>i_addrs := ads s' ip\<rparr>] \<and>
     (\<forall>k \<le> MAXFILE. am s' ip k \<noteq> am s ip k \<longrightarrow> am s ip k = 0 \<and> unat (am s' ip k) \<in> ufree s) \<and>
     (\<forall>k < MAXFILE. am s ip k \<noteq> 0 \<longrightarrow> disk s' (unat (am s ip k)) = disk s (unat (am s ip k))) \<and>
     (\<forall>b. b \<notin> bmaps (fsb s) \<and> b \<notin> ufree s \<and> (am s ip MAXFILE \<noteq> 0 \<longrightarrow> b \<noteq> unat (am s ip MAXFILE)) \<longrightarrow> disk s' b = disk s b) \<and>
     ufree s' \<subseteq> ufree s \<and> card (ufree s) \<le> card (ufree s') + n \<and> lset s \<subseteq> lset s'"

lemma ext_am: "ext ip n s s' \<Longrightarrow> k \<le> MAXFILE \<Longrightarrow> am s ip k \<noteq> 0 \<Longrightarrow> am s' ip k = am s ip k"
  by (auto simp: ext_def)

lemma ext_trans:
  assumes st: "ext ip n s t" and tu: "ext ip m t u"
  shows "ext ip (n + m) s u"
proof -
  have ic: "icache u = (icache s)[ip := (icache s ! ip)\<lparr>i_addrs := ads u ip\<rparr>]"
    using st tu by (cases "ip < length (icache s)") (auto simp: ext_def not_less list_update_beyond)
  have "am s ip k = 0 \<and> unat (am u ip k) \<in> ufree s" if "k \<le> MAXFILE" "am u ip k \<noteq> am s ip k" for k
    using that st tu by (cases "am t ip k = am s ip k") (auto simp: ext_def)
  moreover have "disk u (unat (am s ip k)) = disk s (unat (am s ip k))" if "k < MAXFILE" "am s ip k \<noteq> 0" for k
  proof -
    have "am t ip k = am s ip k"
      using ext_am [OF st] that by simp
    then show ?thesis
      using that st tu unfolding ext_def by metis
  qed
  moreover have "disk u b = disk s b" if b: "b \<notin> bmaps (fsb s)" "b \<notin> ufree s" "am s ip MAXFILE \<noteq> 0 \<longrightarrow> b \<noteq> unat (am s ip MAXFILE)" for b
  proof -
    have "am t ip MAXFILE \<noteq> 0 \<longrightarrow> b \<noteq> unat (am t ip MAXFILE)"
      using st b by (cases "am t ip MAXFILE = am s ip MAXFILE") (auto simp: ext_def)
    moreover have "b \<notin> ufree t" "fsb t = fsb s"
      using st b by (auto simp: ext_def fkeep_def)
    ultimately show ?thesis
      using st tu b by (simp add: ext_def)
  qed
  ultimately show ?thesis
    using st tu ic fkeep_trans [of s t u] unfolding ext_def by (simp, force)
qed

lemma ino_okD:
  assumes "ino_ok s ip"
  shows "ip < length (icache s)" "i_dev (icache s ! ip) = 1" "length (ads s ip) = 13"
    "k \<le> MAXFILE \<Longrightarrow> am s ip k \<noteq> 0 \<Longrightarrow> dblk s (unat (am s ip k))"
    "j \<le> MAXFILE \<Longrightarrow> k \<le> MAXFILE \<Longrightarrow> am s ip j \<noteq> 0 \<Longrightarrow> am s ip j = am s ip k \<Longrightarrow> j = k"
  using assms by (auto simp: ino_ok_def)

lemma dblkD:
  assumes "fsok s" "dblk s b"
  shows "home s b" "b \<notin> bmaps (fsb s)" "b \<notin> ufree s" "used (disk s) (fsb s) b" "b < unat (sb_size (fsb s))" "dstart (fsb s) \<le> b"
  using assms fsokD(2) [OF assms(1)] by (auto simp: dblk_def ufree_def home_def fs_geo_def outside_def dstart_def bmaps_def)

lemma view_cong:
  fixes s s' :: "'a fs_st_scheme"
  assumes "disk s' = disk s" "icache s' = icache s" "fsb s' = fsb s"
  shows "ads s' = ads s" "ufree s' = ufree s" "am s' = am s" "dblk s' = dblk s" "ino_ok s' = ino_ok s"
proof -
  show b: "ads s' = ads s" "ufree s' = ufree s"
    using assms by (auto intro!: HOL.ext simp: ads_def ufree_def)
  show c: "am s' = am s" "dblk s' = dblk s"
    using assms b by (auto intro!: HOL.ext simp: am_def dblk_def)
  show "ino_ok s' = ino_ok s"
    using assms b c by (intro HOL.ext) (simp add: ino_ok_def)
qed

text \<open>A block just taken, put into an empty slot.\<close>

lemma ext_slot:
  fixes s t u :: "'a fs_st_scheme"
  assumes i: "ino_ok s ip" and f: "fsok s" and a: "a \<in> ufree s" and k: "k \<le> MAXFILE" "am s ip k = 0"
    and u: "fsok u" "fkeep s u" "held u = held s" "ufree u = ufree s - {a}" "lset s \<subseteq> lset u"
    and ic: "icache u = (icache s)[ip := (icache s ! ip)\<lparr>i_addrs := ads u ip\<rparr>]" "length (ads u ip) = 13"
    and am: "\<And>j. j \<le> MAXFILE \<Longrightarrow> am u ip j = (if j = k then of_nat a else am s ip j)"
    and d: "\<And>b. b \<noteq> a \<Longrightarrow> b \<notin> bmaps (fsb s) \<Longrightarrow> am s ip MAXFILE \<noteq> 0 \<longrightarrow> b \<noteq> unat (am s ip MAXFILE) \<Longrightarrow> disk u b = disk s b"
  shows "ext ip 1 s u"
proof -
  note fr = ufreeD [OF f a]
  have a32: "unat (of_nat a :: u32) = a"
    using fr(6) by (simp add: unat_of_nat)
  then have a0: "(of_nat a :: u32) \<noteq> 0"
    using fr(7) by (metis less_numeral_extra(3) unsigned_0)
  have fs: "fsb u = fsb s"
    using u(2) by (simp add: fkeep_def)
  have ne: "am s ip j \<noteq> of_nat a" if "j \<le> MAXFILE" for j
    using ino_okD(4) [OF i that] a a0 a32 by (auto simp: dblk_def)
  have ino: "ino_ok u ip"
    unfolding ino_ok_def
  proof (intro conjI allI impI)
    show "ip < length (icache u)" "i_dev (icache u ! ip) = 1" "length (ads u ip) = NDIRECT + 1"
      using ino_okD(1,2) [OF i] ic by simp_all
    fix j assume j: "j \<le> MAXFILE"
    show "dblk u (unat (am u ip j))" if "am u ip j \<noteq> 0"
      using that am [OF j] ino_okD(4) [OF i j] fr(1,2) fs u(4) a32 by (auto simp: dblk_def split: if_splits)
    fix j' assume "j' \<le> MAXFILE" "am u ip j \<noteq> 0 \<and> am u ip j = am u ip j'"
    then show "j = j'"
      using am [OF j] am [of j'] ne [OF j] ne [of j'] ino_okD(5) [OF i j, of j'] by (auto split: if_splits)
  qed
  have "am s ip j = 0 \<and> unat (am u ip j) \<in> ufree s" if "j \<le> MAXFILE" "am u ip j \<noteq> am s ip j" for j
    using that am [OF that(1)] k a a32 by (auto split: if_splits)
  moreover have "disk u (unat (am s ip j)) = disk s (unat (am s ip j))" if "j < MAXFILE" "am s ip j \<noteq> 0" for j
  proof (rule d)
    show "unat (am s ip j) \<noteq> a" "unat (am s ip j) \<notin> bmaps (fsb s)"
      using ino_okD(4) [OF i, of j] that a dblkD(2) [OF f] by (auto simp: dblk_def)
    show "am s ip MAXFILE \<noteq> 0 \<longrightarrow> unat (am s ip j) \<noteq> unat (am s ip MAXFILE)"
      using ino_okD(5) [OF i, of j MAXFILE] that unsigned_word_eqI by fastforce
  qed
  moreover have "disk u b = disk s b" if "b \<notin> bmaps (fsb s)" "b \<notin> ufree s" "am s ip MAXFILE \<noteq> 0 \<longrightarrow> b \<noteq> unat (am s ip MAXFILE)" for b
    using that a by (intro d) auto
  moreover have "card (ufree s) \<le> card (ufree u) + 1"
    using u(4) a card_Suc_Diff1 [of "ufree s" a] by (simp add: ufree_def)
  ultimately show ?thesis
    using u ic(1) ino by (auto simp: ext_def)
qed

lemma take_blockD:
  assumes "take_block s a s'"
  shows "fsok s'" "tkeep s s'" "held s' = held s" "ufree s' = ufree s - {a}" "disk s' a = replicate 512 0"
    "b \<noteq> a \<Longrightarrow> b \<notin> bmaps (fsb s) \<Longrightarrow> disk s' b = disk s b" "lset s \<subseteq> lset s'" "a \<in> lset s'"
    "lset s' \<subseteq> insert a (lset s \<union> bmaps (fsb s))" "fsb s' = fsb s" "icache s' = icache s"
  using assms tkeep_more [of s s'] by (auto simp: take_block_def)

lemma indirect_kept:
  fixes s s' :: "'a fs_st_scheme"
  assumes "ino_ok s ip" "fsok s" "a \<in> ufree s" "take_block s a s'" "ads s ip ! 12 \<noteq> 0"
  shows "disk s' (unat (ads s ip ! 12)) = disk s (unat (ads s ip ! 12))"
proof -
  have "am s ip 140 = ads s ip ! 12"
    by (simp add: am_def amap_def)
  then have d: "dblk s (unat (ads s ip ! 12))"
    using ino_okD(4) [OF assms(1), of 140] assms(5) by simp
  show ?thesis
    by (rule take_blockD(6) [OF assms(4)]) (use dblkD(2,3) [OF assms(2) d] assms(3) in auto)
qed

lemma ld32_zeros: "a + 4 \<le> n \<Longrightarrow> ld32 (replicate n 0) a = 0"
  by (simp add: ld32_def)

text \<open>The slots inside the inode: a direct address, or the indirect block.\<close>

lemma attach_addr:
  fixes s s' :: "'a fs_st_scheme"
  assumes i: "ino_ok s ip" and f: "fsok s" and a: "a \<in> ufree s" and t: "take_block s a s'" and n: "n \<le> 12" "ads s ip ! n = 0"
  defines "u \<equiv> i_set ip (\<lambda>x. x\<lparr>i_addrs := (i_addrs x)[n := of_nat a]\<rparr>) s'"
  defines "k \<equiv> (if n = 12 then 140 else n)"
  shows "ext ip 1 s u" "am u ip k = of_nat a" "\<And>j. j < 140 \<Longrightarrow> j \<noteq> k \<Longrightarrow> am u ip j = am s ip j"
    "lset u = lset s'" "disk u = disk s'"
proof -
  note tb = take_blockD [OF t]
  have ip: "ip < length (icache s')"
    using ino_okD(1) [OF i] tb(11) by simp
  have ad: "ads u ip = (ads s ip)[n := of_nat a]"
    using ip tb(11) by (simp add: ads_def u_def)
  have du: "disk u = disk s'"
    by (simp add: u_def)
  have l: "length (ads s ip) = 13"
    by (rule ino_okD(3) [OF i])
  have "am u ip j = (if j = k then of_nat a else am s ip j)" if j: "j \<le> 140" for j
  proof -
    consider "j < 12" | "j = 140" | "12 \<le> j" "j < 140" "n = 12" | "12 \<le> j" "j < 140" "n \<noteq> 12"
      using j by linarith
    then show ?thesis
    proof cases
      case 3
      moreover have "unat (of_nat a :: u32) = a"
        using ufreeD(6) [OF f a] by (simp add: unat_of_nat)
      ultimately show ?thesis
        using n l tb(5) by (simp add: am_def amap_def ad du k_def ld32_zeros)
    next
      case 4
      then show ?thesis
        using n l indirect_kept [OF i f a t] by (auto simp: am_def amap_def ad du k_def)
    qed (use n l in \<open>auto simp: am_def amap_def ad du k_def nth_list_update\<close>)
  qed
  note amu = this
  have "am s ip k = 0" "k \<le> 140"
    using n by (auto simp: am_def amap_def k_def)
  moreover have "icache u = (icache s)[ip := (icache s ! ip)\<lparr>i_addrs := ads u ip\<rparr>]"
    unfolding ad using tb(11) by (simp add: u_def ads_def)
  moreover have "length (ads u ip) = 13"
    using l ad by simp
  moreover have "fsok u" "fkeep s u" "held u = held s" "ufree u = ufree s - {a}" "lset s \<subseteq> lset u"
    using tb(1,3,4,7) fkeep_trans [OF tkeep_fkeep [OF tb(2)], of u] by (simp_all add: u_def)
  ultimately show "ext ip 1 s u"
    using amu tb(6) du by (intro ext_slot [OF i f a]) auto
  show "am u ip k = of_nat a" "\<And>j. j < 140 \<Longrightarrow> j \<noteq> k \<Longrightarrow> am u ip j = am s ip j"
    using amu n by (auto simp: k_def)
  show "lset u = lset s'" "disk u = disk s'"
    by (simp_all add: u_def)
qed

text \<open>A slot in the indirect block.\<close>

lemma attach_leaf:
  fixes s s0 s' u :: "'a fs_st_scheme"
  assumes i: "ino_ok s ip" and f: "fsok s" and a: "a \<in> ufree s" and s0: "tkeep s s0" "disk s0 = disk s" "lset s0 = lset s"
    and t: "take_block s0 a s'"
    and n: "n < 128" "ads s ip ! 12 \<noteq> 0" "am s ip (n + 12) = 0"
    and u: "txs u" "tkeep s' u" "held u = held s" "lset u = insert (unat (ads s ip ! 12)) (lset s')"
    and d: "disk u = (disk s')(unat (ads s ip ! 12) := st32 (disk s (unat (ads s ip ! 12))) (4 * n) (of_nat a))"
  shows "ext ip 1 s u" "am u ip (n + 12) = of_nat a" "\<And>j. j < 140 \<Longrightarrow> j \<noteq> n + 12 \<Longrightarrow> am u ip j = am s ip j"
proof -
  note tb = take_blockD [OF t] and m0 = tkeep_more [OF s0(1)]
  note vw = view_cong [OF s0(2) m0(2,1)]
  let ?I = "unat (ads s ip ! 12)"
  have ic: "icache u = icache s"
    using tb(11) tkeep_more(2) [OF u(2)] m0(2) by simp
  have ad: "ads u ip = ads s ip"
    by (simp add: ads_def ic)
  have len: "length (disk s ?I) = 512"
    by (rule disk_length [OF fsokD(1) [OF f]])
  have amu: "am u ip j = (if j = n + 12 then of_nat a else am s ip j)" if j: "j \<le> 140" for j
  proof -
    consider "j < 12" | "j = 140" | "12 \<le> j" "j < 140"
      using j by linarith
    then show ?thesis
    proof cases
      case 3
      show ?thesis
      proof (cases "j = n + 12")
        case True
        then show ?thesis
          using 3 n len by (simp add: am_def amap_def ad d)
      next
        case False
        then have "4 * (j - 12) + 4 \<le> 4 * n \<or> 4 * n + 4 \<le> 4 * (j - 12)"
          using 3 by linarith
        then show ?thesis
          using 3 False n by (simp add: am_def amap_def ad d ld32_st32_other)
      qed
    qed (use n in \<open>auto simp: am_def amap_def ad\<close>)
  qed
  have dI: "dblk s ?I"
    using ino_okD(4) [OF i, of 140] n(2) by (simp add: am_def amap_def)
  have us: "used (disk u) (fsb s) b = used (disk s') (fsb s) b" if "b < unat (sb_size (fsb s))" for b
    using bblk_in [OF that] dblkD(2) [OF f dI] by (auto simp: used_def d)
  have fs: "fsb u = fsb s" "fsb s' = fsb s"
    using tkeep_more(1) [OF u(2)] tb(10) m0(1) by simp_all
  have "dstart (fsb s) \<le> unat (sb_size (fsb s))"
    using fsokD(2) [OF f] by (simp add: fs_geo_def)
  then have fu: "fsok u"
    using u(1) geo_keep [OF u(2)] fsokD(2,3) [OF tb(1)] fs us by (auto simp: fsok_def)
  have "ufree u = ufree s'"
    using us fs by (auto simp: ufree_def)
  then have "ufree u = ufree s - {a}"
    using tb(4) vw(2) by simp
  moreover have "icache u = (icache s)[ip := (icache s ! ip)\<lparr>i_addrs := ads u ip\<rparr>]"
    using ic ad by (simp add: ads_def)
  moreover have "length (ads u ip) = 13" "fkeep s u"
    using ad ino_okD(3) [OF i] tkeep_fkeep [OF tkeep_trans [OF tkeep_trans [OF s0(1) tb(2)] u(2)]] by simp_all
  moreover have "disk u b = disk s b" if "b \<noteq> a" "b \<notin> bmaps (fsb s)" "am s ip 140 \<noteq> 0 \<longrightarrow> b \<noteq> unat (am s ip 140)" for b
    using that tb(6) [of b] s0(2) m0(1) n(2) by (simp add: d am_def amap_def)
  ultimately show "ext ip 1 s u"
    using amu fu u(3,4) tb(7) s0(3) n(1,3) by (intro ext_slot [OF i f a, of "n + 12"]) auto
  show "am u ip (n + 12) = of_nat a" "\<And>j. j < 140 \<Longrightarrow> j \<noteq> n + 12 \<Longrightarrow> am u ip j = am s ip j"
    using amu n(1) by auto
qed

section \<open>bmap\<close>

text \<open>A step that reads only.\<close>

definition same :: "'a fs_st_scheme \<Rightarrow> 'a fs_st_scheme \<Rightarrow> bool" where
  "same s s' \<longleftrightarrow> txs s' \<and> tkeep s s' \<and> disk s' = disk s \<and> lset s' = lset s \<and> held s' = held s"

lemma sameD:
  fixes s s' :: "'a fs_st_scheme"
  assumes "same s s'"
  shows "txs s'" "disk s' = disk s" "lset s' = lset s" "held s' = held s" "icache s' = icache s" "fsb s' = fsb s"
    "am s' = am s" "ads s' = ads s" "ufree s' = ufree s" "dblk s' = dblk s" "ino_ok s' = ino_ok s" "fkeep s s'" "fsok s \<Longrightarrow> fsok s'"
proof -
  show a: "txs s'" "disk s' = disk s" "lset s' = lset s" "held s' = held s" "icache s' = icache s" "fsb s' = fsb s" "fkeep s s'"
    using assms tkeep_more [of s s'] tkeep_fkeep [of s s'] by (auto simp: same_def)
  then show "am s' = am s" "ads s' = ads s" "ufree s' = ufree s" "dblk s' = dblk s" "ino_ok s' = ino_ok s"
    using view_cong [of s' s] by blast+
  show "fsok s \<Longrightarrow> fsok s'"
    using a geo_keep [of s s'] assms by (simp add: fsok_def same_def)
qed

lemma same_trans: "same s t \<Longrightarrow> same t u \<Longrightarrow> same s u"
  using tkeep_trans [of s t u] by (simp add: same_def)

lemma same_ext: "fsok s \<Longrightarrow> ino_ok s ip \<Longrightarrow> same s s' \<Longrightarrow> ext ip n s s'"
  using sameD [of s s'] by (simp add: ext_def ads_def)

lemma peek_same:
  fixes s :: "'a fs_st_scheme"
  assumes "fsok s" "dblk s (unat b)" "held s = (\<lambda>_. None)" "card (lset s) < NBUF"
  shows "\<exists>i s1 s2. bread 1 b s = Inr (i, s1) \<and> bdata i s1 = disk s (unat b) \<and> brelse i s1 = Inr s2 \<and> tkeep s s1 \<and> same s s2"
  using tb.peek [OF fsokD(1) [OF assms(1)], of b] dblkD(1) [OF assms(1,2)] assms(3,4) by (auto simp: same_def)

lemma bmap_mapped:
  fixes s :: "'a fs_st_scheme"
  assumes i: "ino_ok s ip" and f: "fsok s" and n: "bn < 140" "am s ip bn \<noteq> 0" and h: "held s = (\<lambda>_. None)" and c: "card (lset s) < NBUF"
  shows "\<exists>s'. bmap ip bn s = Inr (am s ip bn, s') \<and> same s s'"
proof (cases "bn < 12")
  case True
  then have "bmap ip bn s = Inr (am s ip bn, s)"
    using n by (simp add: bmap_def am_def amap_def ads_def)
  then show ?thesis
    using fsokD(1) [OF f] by (auto simp: same_def)
next
  case False
  let ?I = "ads s ip ! 12"
  have I: "?I \<noteq> 0" "am s ip bn = ld32 (disk s (unat ?I)) (4 * (bn - 12))"
    using n False by (auto simp: am_def amap_def split: if_splits)
  then have "dblk s (unat ?I)"
    using ino_okD(4) [OF i, of 140] by (simp add: am_def amap_def)
  then obtain b s1 s2 where s: "bread 1 ?I s = Inr (b, s1)" "bdata b s1 = disk s (unat ?I)" "brelse b s1 = Inr s2" "same s s2"
    using peek_same [OF f _ h c] by blast
  have "bmap ip bn s = Inr (am s ip bn, s2)"
    using False n I s ino_okD(2) [OF i] by (simp add: bmap_def Let_def ads_def)
  then show ?thesis
    using s(4) by blast
qed

text \<open>The two halves of the indirect case: find or make the indirect block, then the entry in it.\<close>

definition bmap_root :: "nat \<Rightarrow> 'a fs_st_scheme \<Rightarrow> (u32 \<times> 'a fs_st_scheme) kres" where
  "bmap_root ip s =
     (let addr = i_addrs (icache s ! ip) ! NDIRECT in
      if addr = 0 then
        bindE (balloc 1 s) (\<lambda>(addr, s). Inr (addr, i_set ip (\<lambda>x. x\<lparr>i_addrs := (i_addrs x)[NDIRECT := addr]\<rparr>) s))
      else Inr (addr, s))"

definition bmap_leaf :: "nat \<Rightarrow> u32 \<Rightarrow> 'a fs_st_scheme \<Rightarrow> (u32 \<times> 'a fs_st_scheme) kres" where
  "bmap_leaf n addr s =
     bindE (bread 1 addr s) (\<lambda>(bp, s).
     let addr = ld32 (bdata bp s) (4 * n) in
     bindE (if addr = 0 then
              bindE (balloc 1 s) (\<lambda>(addr, s).
              bindE (log_write bp (bdata_set bp (st32 (bdata bp s) (4 * n) addr) s)) (\<lambda>s. Inr (addr, s)))
            else Inr (addr, s)) (\<lambda>(addr, s).
     bindE (brelse bp s) (\<lambda>s. Inr (addr, s))))"

lemma bmap_indirect:
  "i_dev (icache s ! ip) = 1 \<Longrightarrow> 12 \<le> bn \<Longrightarrow> bn < 140 \<Longrightarrow> bmap ip bn s = bindE (bmap_root ip s) (\<lambda>(addr, s). bmap_leaf (bn - 12) addr s)"
proof -
  assume a: "i_dev (icache s ! ip) = 1" "12 \<le> bn" "bn < 140"
  then have "bn - 12 < 128"
    by linarith
  then show ?thesis
    using a by (simp add: bmap_def bmap_root_def bmap_leaf_def Let_def)
qed

definition fits :: "'a fs_st_scheme \<Rightarrow> nat \<Rightarrow> bool" where
  "fits s n \<longleftrightarrow> card (lset s \<union> bmaps (fsb s)) + n \<le> 27"

lemma finite_bmaps [simp]: "finite (bmaps sb)"
  by (simp add: bmaps_def)

lemma fits_card: "fits s n \<Longrightarrow> card (lset s) \<le> 27 - n"
  using card_mono [of "lset s \<union> bmaps (fsb s)" "lset s"] by (auto simp: fits_def)

lemma bmap_root_ok:
  fixes s :: "'a fs_st_scheme"
  assumes i: "ino_ok s ip" and f: "fsok s" and h: "held s = (\<lambda>_. None)" and c: "fits s 1" and u: "ufree s \<noteq> {}"
  shows "\<exists>s'. bmap_root ip s = Inr (ads s' ip ! 12, s') \<and> ads s' ip ! 12 \<noteq> 0 \<and> ext ip 1 s s' \<and> (\<forall>j < 140. am s' ip j = am s ip j) \<and>
    lset s' \<subseteq> insert (unat (ads s' ip ! 12)) (lset s \<union> bmaps (fsb s))"
proof (cases "ads s ip ! 12 = 0")
  case False
  then show ?thesis
    using same_ext [OF f i, of s 1] fsokD(1) [OF f] by (intro exI [of _ s]) (auto simp: bmap_root_def ads_def same_def)
next
  case True
  have "can_alloc s"
    using f h fits_card [OF c] by (auto simp: can_alloc_def)
  then obtain a s1 where s1: "a \<in> ufree s" "balloc 1 s = Inr (of_nat a, s1)" "take_block s a s1"
    using balloc_ok u by blast
  let ?u = "i_set ip (\<lambda>x. x\<lparr>i_addrs := (i_addrs x)[12 := of_nat a]\<rparr>) s1"
  note at = attach_addr [OF i f s1(1,3) order.refl True, simplified if_True refl]
  have a: "ads ?u ip ! 12 = of_nat a"
    using at(2) by (simp add: am_def amap_def)
  have "unat (of_nat a :: u32) = a" "0 < a"
    using ufreeD(6,7) [OF f s1(1)] by (simp_all add: unat_of_nat)
  moreover from this have "(of_nat a :: u32) \<noteq> 0"
    by (metis less_numeral_extra(3) unsigned_0)
  moreover have "bmap_root ip s = Inr (of_nat a, ?u)"
    using s1(2) True by (simp add: bmap_root_def ads_def)
  ultimately show ?thesis
    using at(1,3,4) a take_blockD(9) [OF s1(3)] by (intro exI [of _ ?u]) auto
qed

lemma bmap_leaf_ok:
  fixes s :: "'a fs_st_scheme"
  assumes i: "ino_ok s ip" and f: "fsok s" and h: "held s = (\<lambda>_. None)" and c: "fits s 1" and u: "ufree s \<noteq> {}"
    and n: "n < 128" "ads s ip ! 12 \<noteq> 0" "am s ip (n + 12) = 0"
  shows "\<exists>s'. bmap_leaf n (ads s ip ! 12) s = Inr (am s' ip (n + 12), s') \<and> am s' ip (n + 12) \<noteq> 0 \<and> ext ip 1 s s' \<and>
    (\<forall>j < 140. j \<noteq> n + 12 \<longrightarrow> am s' ip j = am s ip j) \<and>
    lset s' \<subseteq> insert (unat (am s' ip (n + 12))) (insert (unat (ads s ip ! 12)) (lset s \<union> bmaps (fsb s)))"
proof -
  let ?I = "unat (ads s ip ! 12)"
  have dI: "dblk s ?I"
    using ino_okD(4) [OF i, of 140] n(2) by (simp add: am_def amap_def)
  note hI = dblkD [OF f dI]
  obtain b s1 where s1: "bread 1 (ads s ip ! 12) s = Inr (b, s1)" "txs s1" "tkeep s s1" "disk s1 = disk s" "lset s1 = lset s"
      "held s1 = (\<lambda>_. None)(?I \<mapsto> b)"
    using tb.rd_law [OF fsokD(1) [OF f], of "ads s ip ! 12"] hI(1) h fits_card [OF c] by auto
  note m1 = tkeep_more [OF s1(3)]
  have f1: "fsok s1" "ufree s1 = ufree s"
    using s1 m1 f geo_keep [OF s1(3)] by (simp_all add: fsok_def ufree_def)
  have "can_alloc s1"
    using f1 s1(5,6) m1 hI(2,3) fits_card [OF c] card_insert_less [of "lset s" 28 ?I] by (auto simp: can_alloc_def)
  then obtain a s2 where s2: "a \<in> ufree s" "balloc 1 s1 = Inr (of_nat a, s2)" "take_block s1 a s2"
    using balloc_ok [of s1] u f1(2) by auto
  note tb = take_blockD [OF s2(3)]
  have i1: "ino_ok s1 ip" "ads s1 = ads s" "am s1 = am s"
    using i view_cong [OF s1(4) m1(2,1)] by simp_all
  have dk2: "disk s2 ?I = disk s ?I"
    using indirect_kept [OF i1(1) f1(1) _ s2(3)] s2(1) f1(2) n(2) i1(2) s1(4) by simp
  have cl: "card (lset s2) < 29"
    using card_mono [OF _ tb(9)] card_insert_less [of "lset s \<union> bmaps (fsb s)" 28 a] c s1(5) m1(1) by (auto simp: fits_def)
  have a32: "unat (of_nat a :: u32) = a" "(of_nat a :: u32) \<noteq> 0"
    using ufreeD(6,7) [OF f s2(1)] by (simp_all add: unat_of_nat word_of_nat_eq_0_iff nat_dvd_not_less)
  have h2: "held s2 ?I = Some b"
    using tb(3) s1(6) by simp
  obtain s3 where s3: "log_write b (bdata_set b (st32 (disk s ?I) (4 * n) (of_nat a)) s2) = Inr s3" "txs s3" "tkeep s2 s3"
      "disk s3 = (disk s2)(?I := st32 (disk s ?I) (4 * n) (of_nat a))" "lset s3 = insert ?I (lset s2)" "held s3 = held s2"
    using tx_write [OF fsokD(1) [OF tb(1)] h2 cl, of "st32 (disk s ?I) (4 * n) (of_nat a)"]
      tkeep_home [OF tkeep_trans [OF s1(3) tb(2)]] hI(1) disk_length [OF fsokD(1) [OF f], of ?I] by auto
  obtain s4 where s4: "brelse b s3 = Inr s4" "txs s4" "tkeep s3 s4" "disk s4 = disk s3" "lset s4 = lset s3" "held s4 = (held s3)(?I := None)"
    using tx_release [OF s3(2), of ?I b] s3(6) h2 by auto
  have hd4: "held s4 = (\<lambda>_. None)"
    using s4(6) s3(6) tb(3) s1(6) by simp
  have k4: "tkeep s2 s4"
    using tkeep_trans [OF s3(3) s4(3)] .
  have l4: "lset s4 = insert ?I (lset s2)" "disk s4 = (disk s2)(?I := st32 (disk s ?I) (4 * n) (of_nat a))" "held s4 = held s"
    using s4 s3 hd4 h by simp_all
  note at = attach_leaf [OF i f s2(1) s1(3,4,5) s2(3) n s4(2) k4 l4(3,1,2)]
  have "ld32 (bdata b s1) (4 * n) = 0"
    using tx_data [OF s1(2), of ?I b] s1(4,6) n by (simp add: am_def amap_def)
  moreover have "bdata b s2 = disk s ?I"
    using tx_data [OF fsokD(1) [OF tb(1)] h2] dk2 by simp
  ultimately have "bmap_leaf n (ads s ip ! 12) s = Inr (of_nat a, s4)"
    using s1(1) s2(2) s3(1) s4(1) by (simp add: bmap_leaf_def)
  then show ?thesis
    using at a32 l4(1) tb(9) s1(5) m1(1) by (intro exI [of _ s4]) auto
qed

lemma bmap_ok:
  fixes s :: "'a fs_st_scheme"
  assumes i: "ino_ok s ip" and f: "fsok s" and n: "bn < 140" and h: "held s = (\<lambda>_. None)" and c: "fits s 2" and u: "2 \<le> card (ufree s)"
  shows "\<exists>s'. bmap ip bn s = Inr (am s' ip bn, s') \<and> am s' ip bn \<noteq> 0 \<and> ext ip 2 s s' \<and> (\<forall>j < 140. j \<noteq> bn \<longrightarrow> am s' ip j = am s ip j) \<and>
    card (insert (unat (am s' ip bn)) (lset s' \<union> bmaps (fsb s))) \<le> card (lset s \<union> bmaps (fsb s)) + 2 \<and>
    (am s ip bn \<noteq> 0 \<longrightarrow> icache s' = icache s)"
proof -
  let ?L = "lset s \<union> bmaps (fsb s)"
  have c1: "fits s 1" and un: "ufree s \<noteq> {}" and cL: "card (lset s) < NBUF"
    using c u fits_card [OF c] by (auto simp: fits_def)
  have cd: "card (insert x X) \<le> card ?L + 2" if "X \<subseteq> insert x (insert y ?L)" for x y X
    using card_mono [of "insert x (insert y ?L)" "insert x X"] that card_insert_less [of "insert y ?L" "card ?L + 2" x]
      card_insert_less [of ?L "card ?L + 1" y] by auto
  show ?thesis
  proof (cases "am s ip bn = 0")
    case False
    then obtain s' where s': "bmap ip bn s = Inr (am s ip bn, s')" "same s s'"
      using bmap_mapped [OF i f n _ h cL] by blast
    then show ?thesis
      using False sameD [OF s'(2)] same_ext [OF f i s'(2)] cd [of ?L _ 0] by (intro exI [of _ s']) auto
  next
    case z: True
    show ?thesis
    proof (cases "bn < 12")
      case True
      have z': "ads s ip ! bn = 0"
        using z True by (simp add: am_def amap_def)
      have "can_alloc s"
        using f h fits_card [OF c] by (auto simp: can_alloc_def)
      then obtain a s1 where s1: "a \<in> ufree s" "balloc 1 s = Inr (of_nat a, s1)" "take_block s a s1"
        using balloc_ok un by blast
      let ?u = "i_set ip (\<lambda>x. x\<lparr>i_addrs := (i_addrs x)[bn := of_nat a]\<rparr>) s1"
      note at = attach_addr [OF i f s1(1,3) less_imp_le [OF True] z']
      have a32: "unat (of_nat a :: u32) = a" "(of_nat a :: u32) \<noteq> 0"
        using ufreeD(6,7) [OF f s1(1)] by (simp_all add: unat_of_nat word_of_nat_eq_0_iff nat_dvd_not_less)
      have "bmap ip bn s = Inr (of_nat a, ?u)"
        using True z' s1(2) ino_okD(2) [OF i] by (simp add: bmap_def ads_def)
      moreover have "am ?u ip bn = of_nat a" "\<forall>j < 140. j \<noteq> bn \<longrightarrow> am ?u ip j = am s ip j" "lset ?u = lset s1"
        using at(2,3,4) True by auto
      moreover have "ext ip 2 s ?u"
        using at(1) by (auto simp: ext_def)
      moreover have "lset s1 \<union> bmaps (fsb s) \<subseteq> insert a (insert 0 ?L)"
        using take_blockD(9) [OF s1(3)] by auto
      ultimately show ?thesis
        using a32 z cd [of "lset s1 \<union> bmaps (fsb s)" a 0] by (intro exI [of _ ?u]) simp
    next
      case False
      let ?n = "bn - 12"
      have n12: "?n < 128" "?n + 12 = bn"
        using False n by linarith+
      obtain s1 where s1: "bmap_root ip s = Inr (ads s1 ip ! 12, s1)" "ads s1 ip ! 12 \<noteq> 0" "ext ip 1 s s1" "\<forall>j < 140. am s1 ip j = am s ip j"
          "lset s1 \<subseteq> insert (unat (ads s1 ip ! 12)) ?L"
        using bmap_root_ok [OF i f h c1 un] by blast
      have e1: "ino_ok s1 ip" "fsok s1" "held s1 = (\<lambda>_. None)" "fsb s1 = fsb s" "card (ufree s) \<le> card (ufree s1) + 1"
        using s1(3) h by (auto simp: ext_def fkeep_def)
      then have un1: "ufree s1 \<noteq> {}"
        using u by auto
      have "lset s1 \<union> bmaps (fsb s) \<subseteq> insert (unat (ads s1 ip ! 12)) ?L"
        using s1(5) by auto
      then have "card (lset s1 \<union> bmaps (fsb s)) \<le> card ?L + 1"
        using card_mono [of "insert (unat (ads s1 ip ! 12)) ?L" "lset s1 \<union> bmaps (fsb s)"]
          card_insert_less [of ?L "card ?L + 1" "unat (ads s1 ip ! 12)"] by auto
      then have c2: "fits s1 1"
        using c e1(4) by (auto simp: fits_def)
      obtain s2 where s2: "bmap_leaf ?n (ads s1 ip ! 12) s1 = Inr (am s2 ip bn, s2)" "am s2 ip bn \<noteq> 0" "ext ip 1 s1 s2"
          "\<forall>j < 140. j \<noteq> bn \<longrightarrow> am s2 ip j = am s1 ip j"
          "lset s2 \<subseteq> insert (unat (am s2 ip bn)) (insert (unat (ads s1 ip ! 12)) (lset s1 \<union> bmaps (fsb s1)))"
        using bmap_leaf_ok [OF e1(1,2,3) c2 un1 n12(1) s1(2)] n12(2) z s1(4) n by auto
      have "bmap ip bn s = Inr (am s2 ip bn, s2)"
        using bmap_indirect [OF ino_okD(2) [OF i] _ n] False s1(1) s2(1) by simp
      moreover have "ext ip 2 s s2"
        using ext_trans [OF s1(3) s2(3)] by (simp add: numeral_2_eq_2)
      moreover have "lset s2 \<union> bmaps (fsb s) \<subseteq> insert (unat (am s2 ip bn)) (insert (unat (ads s1 ip ! 12)) ?L)"
        using s2(5) s1(5) e1(4) by auto
      ultimately show ?thesis
        using z s2(2,4) s1(4) cd [of "lset s2 \<union> bmaps (fsb s)"] by (intro exI [of _ s2]) simp
    qed
  qed
qed

end
