(* ===== verification/Fs_File.thy ===== *)
theory Fs_File
  imports Fs_Data
begin

text \<open>
  Files as byte lists: \<open>readi\<close> returns the bytes at an offset, \<open>writei\<close> replaces or appends bytes, growing the file by
  fresh blocks, and keeps the inode on disk in step. Every other file and every other inode is untouched, and the number of
  blocks a write logs is bounded, so that it fits the space \<open>begin_op\<close> reserves.
\<close>

section \<open>Bytes of a file\<close>

definition fbyte :: "'a fs_st_scheme \<Rightarrow> nat \<Rightarrow> nat \<Rightarrow> u8" where
  "fbyte s ip p = disk s (unat (am s ip (p div BSIZE))) ! (p mod BSIZE)"

definition mapped :: "'a fs_st_scheme \<Rightarrow> nat \<Rightarrow> nat \<Rightarrow> nat \<Rightarrow> bool" where
  "mapped s ip off n \<longleftrightarrow> (\<forall>p. off \<le> p \<and> p < off + n \<longrightarrow> am s ip (p div BSIZE) \<noteq> 0)"

lemma chunk_le: "chunk off n \<le> n" "chunk off n \<le> 512 - off mod 512" "off mod 512 + chunk off n \<le> 512"
  by (auto simp: chunk_def)

lemma chunk_same: "i < chunk off n \<Longrightarrow> (off + i) div 512 = off div 512 \<and> (off + i) mod 512 = off mod 512 + i"
proof -
  assume "i < chunk off n"
  then have i: "off mod 512 + i < 512"
    using chunk_le(3) [of off n] by linarith
  have "off + i = off div 512 * 512 + (off mod 512 + i)"
    by simp
  then show ?thesis
    using i by (metis div_mult_self3 mod_mult_self3 div_less mod_less zero_neq_numeral add.commute add_0)
qed

lemma slice_bytes:
  assumes "length (disk s (unat (am s ip (off div 512)))) = 512" "m = chunk off n"
  shows "slice (disk s (unat (am s ip (off div 512)))) (off mod 512) m = map (fbyte s ip) [off..<off + m]"
proof (rule nth_equalityI)
  show "length (slice (disk s (unat (am s ip (off div 512)))) (off mod 512) m) = length (map (fbyte s ip) [off..<off + m])"
    using assms chunk_le(3) [of off n] by simp
  fix i assume "i < length (slice (disk s (unat (am s ip (off div 512)))) (off mod 512) m)"
  then have "i < m"
    using assms chunk_le(3) [of off n] by simp
  then show "slice (disk s (unat (am s ip (off div 512)))) (off mod 512) m ! i = map (fbyte s ip) [off..<off + m] ! i"
    using assms chunk_le(3) [of off n] chunk_same [of i off n] by (simp add: nth_slice fbyte_def)
qed

lemma div_bound: "p < 140 * 512 \<Longrightarrow> p div 512 < (140 :: nat)"
  by (simp add: less_mult_imp_div_less)

lemma sint_unat: "unat (x :: u32) \<le> 140 * 512 \<Longrightarrow> sint x = int (unat x)"
proof -
  have "sint (of_nat n :: u32) = int n" if "n \<le> 140 * 512" for n
    using that by (simp add: signed_of_nat signed_take_bit_int_eq_self)
  from this [of "unat x"] show "unat x \<le> 140 * 512 \<Longrightarrow> sint x = int (unat x)"
    by simp
qed

section \<open>readi\<close>

lemma readi_loop_ok:
  fixes s :: "'a fs_st_scheme"
  assumes "ino_ok s ip" "fsok s" "held s = (\<lambda>_. None)" "card (lset s) < NBUF" "off + n \<le> 140 * 512" "mapped s ip off n"
  shows "\<exists>s'. readi_loop ip off n s = Inr (map (fbyte s ip) [off..<off + n], s') \<and> same s s'"
  using assms
proof (induction n arbitrary: off s rule: less_induct)
  case (less n)
  note i = less.prems(1) and f = less.prems(2) and h = less.prems(3) and c = less.prems(4) and b = less.prems(5) and mp = less.prems(6)
  show ?case
  proof (cases "n = 0")
    case True
    then show ?thesis
      using fsokD(1) [OF f] by (simp add: readi_loop.simps [of ip off] same_def)
  next
    case False
    let ?m = "chunk off n" and ?a = "am s ip (off div 512)"
    have m: "0 < ?m" "?m \<le> n"
      using chunk_pos [of n off] chunk_le(1) [of off n] False by simp_all
    have a: "?a \<noteq> 0" "off div 512 < 140"
      using mp False b div_bound [of off] by (auto simp: mapped_def)
    obtain s1 where s1: "bmap ip (off div 512) s = Inr (?a, s1)" "same s s1"
      using bmap_mapped [OF i f a(2,1) h c] by blast
    note v1 = sameD [OF s1(2)]
    have f1: "fsok s1" "dblk s1 (unat ?a)"
      using v1(13) [OF f] v1(10) ino_okD(4) [OF i, of "off div 512"] a by simp_all
    obtain k s2 s3 where s3: "bread 1 ?a s1 = Inr (k, s2)" "bdata k s2 = disk s (unat ?a)" "brelse k s2 = Inr s3" "same s1 s3"
      using peek_same [OF f1] v1(2,3,4) h c by auto
    have sm: "same s s3"
      using same_trans [OF s1(2) s3(4)] .
    note v3 = sameD [OF sm]
    have fb: "fbyte s3 ip = fbyte s ip"
      using v3(2,7) by (auto simp: fbyte_def)
    have "mapped s3 ip (off + ?m) (n - ?m)"
      using mp v3(7) m by (auto simp: mapped_def)
    then obtain s4 where s4: "readi_loop ip (off + ?m) (n - ?m) s3 = Inr (map (fbyte s ip) [off + ?m..<off + n], s4)" "same s3 s4"
      using less.IH [of "n - ?m" s3 "off + ?m"] i v3(3,4,11) v3(13) [OF f] h c b m fb by auto
    have "slice (disk s (unat ?a)) (off mod 512) ?m @ map (fbyte s ip) [off + ?m..<off + n] = map (fbyte s ip) [off..<off + n]"
      using slice_bytes [OF disk_length [OF fsokD(1) [OF f]] refl, of ip off n] upt_add_eq_append [of off "off + ?m" "n - ?m"] m
      by (simp flip: map_append)
    then have "readi_loop ip off n s = Inr (map (fbyte s ip) [off..<off + n], s4)"
      using False s1(1) v1(5) ino_okD(2) [OF i] s3(1,2,3) s4(1) by (simp add: readi_loop.simps [of ip off])
    then show ?thesis
      using same_trans [OF sm s4(2)] by blast
  qed
qed

definition fsize :: "'a fs_st_scheme \<Rightarrow> nat \<Rightarrow> nat" where
  "fsize s ip = unat (i_size (icache s ! ip))"

definition fcont :: "'a fs_st_scheme \<Rightarrow> nat \<Rightarrow> u8 list" where
  "fcont s ip = map (fbyte s ip) [0..<fsize s ip]"

text \<open>The inode as it is on disk.\<close>

definition iblk :: "superblock \<Rightarrow> u32 \<Rightarrow> nat" where
  "iblk sb inum = unat inum div IPB + unat (sb_inodestart sb)"

definition disk_ino :: "'a fs_st_scheme \<Rightarrow> u32 \<Rightarrow> dinode" where
  "disk_ino s inum = get_dinode (disk s (iblk (fsb s) inum)) (ioff inum)"

definition dino_of :: "inode \<Rightarrow> dinode" where
  "dino_of x = \<lparr>d_type = i_type x, d_major = i_major x, d_minor = i_minor x, d_nlink = i_nlink x, d_size = i_size x, d_addrs = i_addrs x\<rparr>"

text \<open>A file in a good state: its blocks are mapped up to its size, and its inode is the one on disk.\<close>

definition file_ok :: "'a fs_st_scheme \<Rightarrow> nat \<Rightarrow> bool" where
  "file_ok s ip \<longleftrightarrow> fsok s \<and> ino_ok s ip \<and> held s = (\<lambda>_. None) \<and> fsize s ip \<le> MAXFILE * BSIZE \<and> mapped s ip 0 (fsize s ip) \<and>
     i_type (icache s ! ip) \<noteq> T_DEV \<and> i_inum (icache s ! ip) < sb_ninodes (fsb s) \<and>
     disk_ino s (i_inum (icache s ! ip)) = dino_of (icache s ! ip)"

lemma readi_ok:
  fixes s :: "'a fs_st_scheme"
  assumes f: "file_ok s ip" and o: "unat off \<le> fsize s ip" "unat off + unat n < 2 ^ 32" and c: "card (lset s) < NBUF"
  defines "d \<equiv> slice (fcont s ip) (unat off) (unat n)"
  shows "\<exists>s'. readi dv ip off n s = Inr ((int (length d), d), s') \<and> same s s'"
proof -
  let ?z = "i_size (icache s ! ip)"
  let ?n = "if off + n > ?z then ?z - off else n"
  have on: "unat (off + n) = unat off + unat n"
    using o(2) by (simp add: unat_word_ariths)
  have un: "unat ?n = min (unat n) (fsize s ip - unat off)"
    using on o(1) by (auto simp: fsize_def word_less_nat_alt word_le_nat_alt unat_sub)
  have sz: "fsize s ip \<le> 140 * 512" "mapped s ip 0 (fsize s ip)"
    using f by (simp_all add: file_ok_def)
  have mp: "mapped s ip (unat off) (unat ?n)"
    using sz(2) un o(1) by (auto simp: mapped_def)
  have fo: "ino_ok s ip" "fsok s" "held s = (\<lambda>_. None)"
    using f by (simp_all add: file_ok_def)
  have "unat off + unat ?n \<le> 140 * 512"
    using un o(1) sz(1) by linarith
  then obtain s' where s': "readi_loop ip (unat off) (unat ?n) s = Inr (map (fbyte s ip) [unat off..<unat off + unat ?n], s')" "same s s'"
    using readi_loop_ok [OF fo c _ mp] by blast
  have dl: "map (fbyte s ip) [unat off..<unat off + unat ?n] = d"
    unfolding d_def slice_def fcont_def using un o(1) by (simp add: drop_map take_map min_def)
  have "unat ?n \<le> 140 * 512"
    using un sz(1) by linarith
  then have si: "sint ?n = int (unat ?n)"
    by (rule sint_unat)
  moreover have "length d = unat ?n"
    using dl by (metis add_diff_cancel_left' length_map length_upt)
  moreover have "\<not> off > ?z" "\<not> off + n < off" "i_type (icache s ! ip) \<noteq> T_DEV"
    using o(1) on f by (auto simp: fsize_def word_less_nat_alt file_ok_def)
  ultimately show ?thesis
    using s' dl by (auto simp: readi_def Let_def)
qed

section \<open>writei\<close>

text \<open>
  \<open>wext ip n s s'\<close>: inode \<open>ip\<close> may have taken up to \<open>n\<close> free blocks into empty slots, and its blocks may have changed; no block
  in use by anything else has.
\<close>

definition wext :: "nat \<Rightarrow> nat \<Rightarrow> 'a fs_st_scheme \<Rightarrow> 'a fs_st_scheme \<Rightarrow> bool" where
  "wext ip n s s' \<longleftrightarrow> fsok s' \<and> fkeep s s' \<and> held s' = held s \<and> ino_ok s' ip \<and>
     icache s' = (icache s)[ip := (icache s ! ip)\<lparr>i_addrs := ads s' ip\<rparr>] \<and>
     (\<forall>k \<le> MAXFILE. am s' ip k \<noteq> am s ip k \<longrightarrow> am s ip k = 0 \<and> unat (am s' ip k) \<in> ufree s) \<and>
     (\<forall>b. b \<notin> bmaps (fsb s) \<and> b \<notin> ufree s \<and> (\<forall>k \<le> MAXFILE. am s ip k \<noteq> 0 \<longrightarrow> b \<noteq> unat (am s ip k)) \<longrightarrow> disk s' b = disk s b) \<and>
     ufree s' \<subseteq> ufree s \<and> card (ufree s) \<le> card (ufree s') + n \<and> lset s \<subseteq> lset s'"

lemma wext_am: "wext ip n s s' \<Longrightarrow> k \<le> 140 \<Longrightarrow> am s ip k \<noteq> 0 \<Longrightarrow> am s' ip k = am s ip k"
  by (auto simp: wext_def)

lemma wext_refl: "fsok s \<Longrightarrow> ino_ok s ip \<Longrightarrow> wext ip n s s"
  by (simp add: wext_def ads_def)

lemma ext_wext: "ext ip n s s' \<Longrightarrow> wext ip n s s'"
  unfolding ext_def wext_def by blast

lemma wext_trans:
  assumes st: "wext ip n s t" and tu: "wext ip m t u"
  shows "wext ip (n + m) s u"
proof -
  have ic: "icache u = (icache s)[ip := (icache s ! ip)\<lparr>i_addrs := ads u ip\<rparr>]"
    using st tu by (cases "ip < length (icache s)") (auto simp: wext_def not_less list_update_beyond)
  have ne: "am s ip k = 0 \<and> unat (am u ip k) \<in> ufree s" if "k \<le> 140" "am u ip k \<noteq> am s ip k" for k
    using that st tu by (cases "am t ip k = am s ip k") (auto simp: wext_def)
  have fr: "disk u b = disk s b" if b: "b \<notin> bmaps (fsb s)" "b \<notin> ufree s" "\<forall>k \<le> 140. am s ip k \<noteq> 0 \<longrightarrow> b \<noteq> unat (am s ip k)" for b
  proof -
    have "b \<noteq> unat (am t ip k)" if "k \<le> 140" "am t ip k \<noteq> 0" for k
      using that st b by (cases "am t ip k = am s ip k") (auto simp: wext_def)
    moreover have "b \<notin> ufree t" "fsb t = fsb s"
      using st b by (auto simp: wext_def fkeep_def)
    ultimately have "disk u b = disk t b"
      using tu b(1) unfolding wext_def by metis
    moreover have "disk t b = disk s b"
      using st b unfolding wext_def by blast
    ultimately show ?thesis
      by simp
  qed
  show ?thesis
    unfolding wext_def
  proof (intro conjI)
    show "fsok u" "fkeep s u" "held u = held s" "ino_ok u ip" "ufree u \<subseteq> ufree s" "card (ufree s) \<le> card (ufree u) + (n + m)" "lset s \<subseteq> lset u"
      using st tu fkeep_trans [of s t u] by (auto simp: wext_def)
  qed (use ic ne fr in blast)+
qed

text \<open>Changing a data block of the file.\<close>

lemma write_data:
  fixes s :: "'a fs_st_scheme"
  assumes i: "ino_ok s ip" and f: "fsok s" and h: "held s = (\<lambda>_. None)" and k: "k < 140" "am s ip k \<noteq> 0" and c: "card (lset s) < 29"
    and d: "length d = 512"
  shows "\<exists>b s1 s2 s3. bread 1 (am s ip k) s = Inr (b, s1) \<and> bdata b s1 = disk s (unat (am s ip k)) \<and>
    log_write b (bdata_set b d s1) = Inr s2 \<and> brelse b s2 = Inr s3 \<and> tkeep s s1 \<and> wext ip 0 s s3 \<and> am s3 ip = am s ip \<and> icache s3 = icache s \<and>
    disk s3 = (disk s)(unat (am s ip k) := d) \<and> lset s3 = insert (unat (am s ip k)) (lset s)"
proof -
  let ?a = "am s ip k"
  have da: "dblk s (unat ?a)"
    using ino_okD(4) [OF i, of k] k by simp
  obtain b s1 s2 s3 where s: "bread 1 ?a s = Inr (b, s1)" "bdata b s1 = disk s (unat ?a)" "log_write b (bdata_set b d s1) = Inr s2"
      "brelse b s2 = Inr s3" "tkeep s s1" "txs s3" "tkeep s s3" "disk s3 = (disk s)(unat ?a := d)" "lset s3 = insert (unat ?a) (lset s)" "held s3 = held s"
    using tb.modify [OF fsokD(1) [OF f], of ?a d] dblkD(1) [OF f da] h c d by auto
  note m = tkeep_more [OF s(7)]
  have us: "used (disk s3) (fsb s) n = used (disk s) (fsb s) n" if "n < unat (sb_size (fsb s))" for n
    using bblk_in [OF that] dblkD(2) [OF f da] by (auto simp: used_def s(8))
  have "dstart (fsb s) \<le> unat (sb_size (fsb s))"
    using fsokD(2) [OF f] by (simp add: fs_geo_def)
  then have f3: "fsok s3"
    using s(6) geo_keep [OF s(7)] fsokD(2,3) [OF f] m(1) us by (simp add: fsok_def)
  have uf: "ufree s3 = ufree s"
    using us m(1) by (auto simp: ufree_def)
  have ad: "ads s3 = ads s"
    using m(2) by (auto simp: ads_def)
  have "ads s ip ! 12 \<noteq> 0 \<longrightarrow> unat (ads s ip ! 12) \<noteq> unat ?a"
    using ino_okD(5) [OF i, of k 140] k by (auto simp: am_def amap_def dest!: unsigned_word_eqI)
  then have am: "am s3 ip = am s ip"
    by (intro HOL.ext) (auto simp: am_def amap_def ad s(8))
  have db: "dblk s3 = dblk s"
    using uf m(1) by (auto simp: dblk_def)
  have "ino_ok s3 ip"
    using i unfolding ino_ok_def am ad m(2) db .
  then have "wext ip 0 s s3"
    unfolding wext_def using f3 tkeep_fkeep [OF s(7)] s(8,9,10) am uf m(2) ad k by (auto simp: ads_def)
  then show ?thesis
    using s am m(2) by blast
qed

text \<open>The number of blocks that \<open>n\<close> bytes at an offset touch.\<close>

definition nch :: "nat \<Rightarrow> nat \<Rightarrow> nat" where
  "nch off n = (if n = 0 then 0 else (off mod BSIZE + n + 511) div BSIZE)"

lemma nch_step:
  assumes "0 < n"
  shows "nch off n = 1 + nch (off + chunk off n) (n - chunk off n)"
proof (cases "n \<le> 512 - off mod 512")
  case True
  then have "chunk off n = n"
    by (simp add: chunk_def)
  moreover have "off mod 512 < 512"
    by simp
  then have "(off mod 512 + n + 511) div 512 = 1"
    using assms True by (intro div_nat_eqI) simp_all
  ultimately show ?thesis
    using assms by (simp add: nch_def)
next
  case False
  have o: "off mod 512 < 512"
    by simp
  have m: "chunk off n = 512 - off mod 512"
    using False by (simp add: chunk_def)
  have "off + (512 - off mod 512) = (off div 512 + 1) * 512"
    using o div_mult_mod_eq [of off 512] unfolding add_mult_distrib by linarith
  then have z: "(off + (512 - off mod 512)) mod 512 = 0"
    by (metis mod_mult_self2_is_0)
  have "off mod 512 + n + 511 = 512 + (n - (512 - off mod 512) + 511)"
    using False o by linarith
  then have "(off mod 512 + n + 511) div 512 = 1 + (n - (512 - off mod 512) + 511) div 512"
    by (metis div_add_self1 zero_neq_numeral add.commute)
  moreover have "n - (512 - off mod 512) \<noteq> 0"
    using False by linarith
  ultimately show ?thesis
    unfolding m nch_def z using assms by simp
qed

definition ucard :: "'a fs_st_scheme \<Rightarrow> nat" where
  "ucard s = card (lset s \<union> bmaps (fsb s))"

text \<open>One turn of the loop.\<close>

definition write_step :: "nat \<Rightarrow> nat \<Rightarrow> u8 list \<Rightarrow> 'a fs_st_scheme \<Rightarrow> ('a fs_st_scheme) kres" where
  "write_step ip off src s =
     bindE (bmap ip (off div BSIZE) s) (\<lambda>(addr, s).
     bindE (bread (i_dev (icache s ! ip)) addr s) (\<lambda>(bp, s).
     bindE (log_write bp (bdata_set bp (blit (bdata bp s) (off mod BSIZE) src) s)) (\<lambda>s. brelse bp s)))"

lemma writei_loop_step:
  "src \<noteq> [] \<Longrightarrow> writei_loop ip off src s = bindE (write_step ip off (take (chunk off (length src)) src) s)
     (\<lambda>s. writei_loop ip (off + chunk off (length src)) (drop (chunk off (length src)) src) s)"
  by (simp add: writei_loop.simps [of ip off src] write_step_def bindE_assoc split_def Let_def)

lemma write_step_ok:
  fixes s :: "'a fs_st_scheme"
  assumes i: "ino_ok s ip" and f: "fsok s" and h: "held s = (\<lambda>_. None)" and c: "fits s 2" and u: "2 \<le> card (ufree s)"
    and o: "off < 140 * 512" "off mod 512 + length src \<le> 512"
  shows "\<exists>s'. write_step ip off src s = Inr s' \<and> wext ip 2 s s' \<and> ucard s' \<le> ucard s + 2 \<and>
    am s' ip (off div 512) \<noteq> 0 \<and> (\<forall>j < 140. j \<noteq> off div 512 \<longrightarrow> am s' ip j = am s ip j) \<and>
    disk s' (unat (am s' ip (off div 512))) = blit (disk s' (unat (am s' ip (off div 512)))) (off mod 512) src \<and>
    (am s ip (off div 512) \<noteq> 0 \<longrightarrow> icache s' = icache s \<and>
      disk s' (unat (am s ip (off div 512))) = blit (disk s (unat (am s ip (off div 512)))) (off mod 512) src) \<and>
    (\<forall>j < 140. j \<noteq> off div 512 \<and> am s ip j \<noteq> 0 \<longrightarrow> disk s' (unat (am s ip j)) = disk s (unat (am s ip j)))"
proof -
  let ?n = "off div 512"
  have n: "?n < 140"
    using div_bound [OF o(1)] .
  obtain s1 where s1: "bmap ip ?n s = Inr (am s1 ip ?n, s1)" "am s1 ip ?n \<noteq> 0" "ext ip 2 s s1" "\<forall>j < 140. j \<noteq> ?n \<longrightarrow> am s1 ip j = am s ip j"
      "card (insert (unat (am s1 ip ?n)) (lset s1 \<union> bmaps (fsb s))) \<le> ucard s + 2" "am s ip ?n \<noteq> 0 \<longrightarrow> icache s1 = icache s"
    using bmap_ok [OF i f n h c u] by (auto simp: ucard_def)
  let ?a = "unat (am s1 ip ?n)"
  have e1: "ino_ok s1 ip" "fsok s1" "held s1 = (\<lambda>_. None)" "fsb s1 = fsb s"
    using s1(3) h by (auto simp: ext_def fkeep_def)
  have "card (lset s1) \<le> card (insert ?a (lset s1 \<union> bmaps (fsb s)))"
    by (rule card_mono) auto
  then have c1: "card (lset s1) < 29"
    using s1(5) c by (simp add: fits_def ucard_def)
  let ?d = "blit (disk s1 ?a) (off mod 512) src"
  have len: "length (disk s1 ?a) = 512"
    by (rule disk_length [OF fsokD(1) [OF e1(2)]])
  then have ld: "length ?d = 512"
    using o(2) by simp
  obtain b s2 s3 s4 where s4: "bread 1 (am s1 ip ?n) s1 = Inr (b, s2)" "bdata b s2 = disk s1 ?a" "log_write b (bdata_set b ?d s2) = Inr s3"
      "brelse b s3 = Inr s4" "wext ip 0 s1 s4" "am s4 ip = am s1 ip" "icache s4 = icache s1" "disk s4 = (disk s1)(?a := ?d)" "lset s4 = insert ?a (lset s1)"
    using write_data [OF e1(1,2,3) n s1(2) c1 ld] by blast
  have ws: "write_step ip off src s = Inr s4"
    using s1(1) s4(1-4) ino_okD(2) [OF e1(1)] by (simp add: write_step_def)
  have we: "wext ip 2 s s4"
    using wext_trans [OF ext_wext [OF s1(3)] s4(5)] by simp
  have "fsb s4 = fsb s"
    using s4(5) e1(4) by (simp add: wext_def fkeep_def)
  then have uc: "ucard s4 \<le> ucard s + 2"
    using s1(5) s4(9) by (simp add: ucard_def)
  have bl: "disk s4 ?a = ?d" "blit ?d (off mod 512) src = ?d"
    using len o(2) s4(8) by (simp_all add: blit_def)
  have old: "disk s4 (unat (am s ip ?n)) = blit (disk s (unat (am s ip ?n))) (off mod 512) src" if "am s ip ?n \<noteq> 0"
  proof -
    have "am s1 ip ?n = am s ip ?n" "disk s1 (unat (am s ip ?n)) = disk s (unat (am s ip ?n))"
      using that s1(3) ext_am [OF s1(3), of ?n] n by (simp_all add: ext_def)
    then show ?thesis
      using bl(1) by simp
  qed
  have oth: "disk s4 (unat (am s ip j)) = disk s (unat (am s ip j))" if j: "j < 140" "j \<noteq> ?n" "am s ip j \<noteq> 0" for j
  proof -
    have aj: "am s1 ip j = am s ip j"
      using s1(4) j by simp
    then have "am s ip j \<noteq> am s1 ip ?n"
      using ino_okD(5) [OF e1(1), of j ?n] j n by auto
    then have "unat (am s ip j) \<noteq> ?a"
      using unsigned_word_eqI by blast
    moreover have "disk s1 (unat (am s ip j)) = disk s (unat (am s ip j))"
      using s1(3) j by (simp add: ext_def)
    ultimately show ?thesis
      by (simp add: s4(8))
  qed
  show ?thesis
    using ws we uc s1(2,4,6) old oth bl unfolding s4(6,7) [symmetric] by (intro exI [of _ s4]) simp
qed

text \<open>The effect on the bytes: \<open>src\<close> at \<open>off\<close>, everything else as before.\<close>

definition patched :: "nat \<Rightarrow> nat \<Rightarrow> u8 list \<Rightarrow> 'a fs_st_scheme \<Rightarrow> 'a fs_st_scheme \<Rightarrow> bool" where
  "patched ip off src s s' \<longleftrightarrow>
     (\<forall>p. off \<le> p \<and> p < off + length src \<longrightarrow> am s' ip (p div BSIZE) \<noteq> 0 \<and> fbyte s' ip p = src ! (p - off)) \<and>
     (\<forall>p < MAXFILE * BSIZE. \<not> (off \<le> p \<and> p < off + length src) \<and> am s ip (p div BSIZE) \<noteq> 0 \<longrightarrow> fbyte s' ip p = fbyte s ip p) \<and>
     (mapped s ip off (length src) \<longrightarrow> icache s' = icache s)"

lemma write_step_bytes:
  fixes s :: "'a fs_st_scheme"
  assumes i: "ino_ok s ip" and f: "fsok s" and h: "held s = (\<lambda>_. None)" and c: "fits s 2" and u: "2 \<le> card (ufree s)"
    and o: "off + length src \<le> 140 * 512" "off mod 512 + length src \<le> 512" "src \<noteq> []"
  shows "\<exists>s'. write_step ip off src s = Inr s' \<and> wext ip 2 s s' \<and> ucard s' \<le> ucard s + 2 \<and> patched ip off src s s'"
proof -
  let ?n = "off div 512"
  have "off < 140 * 512"
    using o(1,3) by (cases src) auto
  then obtain s' where s': "write_step ip off src s = Inr s'" "wext ip 2 s s'" "ucard s' \<le> ucard s + 2" "am s' ip ?n \<noteq> 0"
    "\<forall>j < 140. j \<noteq> ?n \<longrightarrow> am s' ip j = am s ip j"
    "disk s' (unat (am s' ip ?n)) = blit (disk s' (unat (am s' ip ?n))) (off mod 512) src"
    "am s ip ?n \<noteq> 0 \<longrightarrow> icache s' = icache s \<and> disk s' (unat (am s ip ?n)) = blit (disk s (unat (am s ip ?n))) (off mod 512) src"
    "\<forall>j < 140. j \<noteq> ?n \<and> am s ip j \<noteq> 0 \<longrightarrow> disk s' (unat (am s ip j)) = disk s (unat (am s ip j))"
    using write_step_ok [OF i f h c u _ o(2)] by blast
  have f': "fsok s'"
    using s'(2) by (simp add: wext_def)
  have ch: "chunk off (length src) = length src"
    using o(2) by (simp add: chunk_def)
  have new: "am s' ip (p div 512) \<noteq> 0 \<and> fbyte s' ip p = src ! (p - off)" if p: "off \<le> p \<and> p < off + length src" for p
  proof -
    define q where "q = p - off"
    have q: "q < length src" "p = off + q"
      using p by (auto simp: q_def)
    then have pq: "p div 512 = ?n \<and> p mod 512 = off mod 512 + q"
      using chunk_same [of q off "length src"] ch by simp
    have "disk s' (unat (am s' ip ?n)) ! (off mod 512 + q) = src ! q"
      using s'(6) nth_blit [of "off mod 512" src "disk s' (unat (am s' ip ?n))" "off mod 512 + q"]
        disk_length [OF fsokD(1) [OF f'], of "unat (am s' ip ?n)"] o(2) q(1) by simp
    then show ?thesis
      using pq s'(4) q(2) by (simp add: fbyte_def)
  qed
  have old: "fbyte s' ip p = fbyte s ip p" if p: "p < 140 * 512" "\<not> (off \<le> p \<and> p < off + length src)" "am s ip (p div 512) \<noteq> 0" for p
  proof (cases "p div 512 = ?n")
    case False
    then show ?thesis
      using s'(5,8) div_bound [OF p(1)] p(3) by (simp add: fbyte_def)
  next
    case True
    then have am: "am s' ip ?n = am s ip ?n"
      using wext_am [OF s'(2), of ?n] p div_bound [OF p(1)] by simp
    have "p = ?n * 512 + p mod 512" "off = ?n * 512 + off mod 512"
      using True by (metis div_mult_mod_eq, simp)
    then have out: "\<not> (off mod 512 \<le> p mod 512 \<and> p mod 512 < off mod 512 + length src)"
      using p(2) by linarith
    then have "blit (disk s (unat (am s ip ?n))) (off mod 512) src ! (p mod 512) = disk s (unat (am s ip ?n)) ! (p mod 512)"
      using nth_blit [of "off mod 512" src "disk s (unat (am s ip ?n))" "p mod 512"] disk_length [OF fsokD(1) [OF f], of "unat (am s ip ?n)"] o(2)
      by auto
    then show ?thesis
      using True am s'(7) p(3) by (simp add: fbyte_def)
  qed
  have "icache s' = icache s" if "mapped s ip off (length src)"
    using that s'(7) o(3) by (simp add: mapped_def)
  then show ?thesis
    using s'(1-3) new old unfolding patched_def by blast
qed

lemma patched_append:
  assumes 1: "patched ip off xs s t" and 2: "patched ip (off + length xs) ys t u" and w: "wext ip n s t" "wext ip m t u"
    and o: "off + length xs + length ys \<le> 140 * 512"
  shows "patched ip off (xs @ ys) s u"
proof -
  have new: "am u ip (p div 512) \<noteq> 0 \<and> fbyte u ip p = (xs @ ys) ! (p - off)" if p: "off \<le> p \<and> p < off + length (xs @ ys)" for p
  proof (cases "p < off + length xs")
    case True
    then have t: "am t ip (p div 512) \<noteq> 0" "fbyte t ip p = xs ! (p - off)"
      using 1 p by (auto simp: patched_def)
    have b: "p < 140 * 512"
      using p o by simp
    have "am u ip (p div 512) = am t ip (p div 512)"
      using wext_am [OF w(2) _ t(1)] div_bound [OF b] by simp
    moreover have "fbyte u ip p = fbyte t ip p"
      using 2 b t(1) True by (simp add: patched_def)
    ultimately show ?thesis
      using t True p by (simp add: nth_append less_diff_conv2)
  next
    case False
    then have "am u ip (p div 512) \<noteq> 0 \<and> fbyte u ip p = ys ! (p - (off + length xs))"
      using 2 p by (auto simp: patched_def)
    moreover have "(xs @ ys) ! (p - off) = ys ! (p - (off + length xs))"
      using False p by (simp add: nth_append diff_diff_eq less_diff_conv2)
    ultimately show ?thesis
      by simp
  qed
  have old: "fbyte u ip p = fbyte s ip p" if p: "p < 140 * 512" "\<not> (off \<le> p \<and> p < off + length (xs @ ys))" "am s ip (p div 512) \<noteq> 0" for p
  proof -
    have "am t ip (p div 512) \<noteq> 0"
      using wext_am [OF w(1) _ p(3)] div_bound [OF p(1)] p(3) by simp
    moreover have "\<not> (off + length xs \<le> p \<and> p < off + length xs + length ys)"
      using p(2) by auto
    ultimately have "fbyte u ip p = fbyte t ip p"
      using 2 p(1) unfolding patched_def by blast
    also have "\<dots> = fbyte s ip p"
      using 1 p unfolding patched_def by auto
    finally show ?thesis .
  qed
  have ic: "icache u = icache s" if m: "mapped s ip off (length (xs @ ys))"
  proof -
    have "mapped t ip (off + length xs) (length ys)"
      unfolding mapped_def
    proof (intro allI impI)
      fix p assume p: "off + length xs \<le> p \<and> p < off + length xs + length ys"
      then have "am s ip (p div 512) \<noteq> 0" "p < 140 * 512"
        using m o by (auto simp: mapped_def)
      then show "am t ip (p div BSIZE) \<noteq> 0"
        using wext_am [OF w(1), of "p div 512"] div_bound [of p] by simp
    qed
    moreover have "mapped s ip off (length xs)"
      using m by (simp add: mapped_def)
    ultimately show ?thesis
      using 1 2 by (simp add: patched_def)
  qed
  show ?thesis
    unfolding patched_def using new old ic by blast
qed

lemma writei_loop_ok:
  fixes s :: "'a fs_st_scheme"
  assumes "ino_ok s ip" "fsok s" "held s = (\<lambda>_. None)" "off + length src \<le> 140 * 512" "fits s (2 * nch off (length src))"
    "2 * nch off (length src) \<le> card (ufree s)"
  shows "\<exists>s'. writei_loop ip off src s = Inr s' \<and> wext ip (2 * nch off (length src)) s s' \<and>
    ucard s' \<le> ucard s + 2 * nch off (length src) \<and> patched ip off src s s'"
  using assms
proof (induction "length src" arbitrary: off src s rule: less_induct)
  case less
  note i = less.prems(1) and f = less.prems(2) and h = less.prems(3) and b = less.prems(4) and c = less.prems(5) and u = less.prems(6)
  show ?case
  proof (cases "src = []")
    case True
    then show ?thesis
      using wext_refl [OF f i] by (auto simp: writei_loop.simps [of ip off] patched_def)
  next
    case False
    let ?m = "chunk off (length src)"
    let ?xs = "take ?m src" and ?ys = "drop ?m src"
    have m: "0 < ?m" "?m \<le> length src"
      using chunk_pos [of "length src" off] chunk_le(1) [of off "length src"] False by simp_all
    have n: "nch off (length src) = 1 + nch (off + ?m) (length ?ys)"
      using nch_step [of "length src" off] False by simp
    have lx: "length ?xs = ?m"
      using m by simp
    obtain s1 where s1: "write_step ip off ?xs s = Inr s1" "wext ip 2 s s1" "ucard s1 \<le> ucard s + 2" "patched ip off ?xs s s1"
      using write_step_bytes [OF i f h, of off ?xs] c u n b m chunk_le(3) [of off "length src"] False by (auto simp: fits_def)
    have e: "ino_ok s1 ip" "fsok s1" "held s1 = (\<lambda>_. None)" "fsb s1 = fsb s" "card (ufree s) \<le> card (ufree s1) + 2"
      using s1(2) h by (simp_all add: wext_def fkeep_def)
    have c1: "fits s1 (2 * nch (off + ?m) (length ?ys))"
      using c n s1(3) e(4) by (simp add: fits_def ucard_def)
    have ly: "length ?ys < length src"
      using m by (simp add: diff_less)
    obtain s2 where s2: "writei_loop ip (off + ?m) ?ys s1 = Inr s2" "wext ip (2 * nch (off + ?m) (length ?ys)) s1 s2"
        "ucard s2 \<le> ucard s1 + 2 * nch (off + ?m) (length ?ys)" "patched ip (off + ?m) ?ys s1 s2"
      using less.hyps [of ?ys, OF ly e(1,2,3) _ c1] m b u n e(5) by auto
    have "writei_loop ip off src s = Inr s2"
      using writei_loop_step [OF False, of ip off s] s1(1) s2(1) by simp
    moreover have "wext ip (2 * nch off (length src)) s s2"
      using wext_trans [OF s1(2) s2(2)] n by simp
    moreover have "patched ip off src s s2"
      using patched_append [OF s1(4) _ s1(2) s2(2), of ?ys] s2(4) lx b m by simp
    ultimately show ?thesis
      using s1(3) s2(3) n by auto
  qed
qed

section \<open>The inode on disk\<close>

lemma length_put_dinode [simp]: "length (put_dinode d a x) = length d"
  by (simp add: put_dinode_def)

lemma get_put_dinode:
  assumes "a + 64 \<le> length d" "length (d_addrs x) = 13"
  shows "get_dinode (put_dinode d a x) a = x"
proof -
  have "get_words (put_dinode d a x) (a + 12) 13 = d_addrs x"
    using get_put_words [of "a + 12" "d_addrs x"] assms by (simp add: put_dinode_def)
  moreover have "ld16 (put_words e (a + 12) vs) b = ld16 e b" if "b + 2 \<le> a + 12" for e vs b
    using that by (simp add: ld16_def nth_put_words)
  ultimately show ?thesis
    using assms by (simp add: get_dinode_def) (simp add: put_dinode_def ld16_st32_other ld16_st16_other ld32_put_words_other)
qed

lemma get_put_dinode_other:
  assumes "a + 64 \<le> b \<or> b + 64 \<le> a" "length (d_addrs x) = 13"
  shows "get_dinode (put_dinode d a x) b = get_dinode d b"
proof -
  have n: "put_dinode d a x ! i = d ! i" if "i < a \<or> a + 64 \<le> i" for i
    using that assms(2) by (auto simp: put_dinode_def nth_put_words nth_st32 nth_st16)
  then show ?thesis
    using assms(1) by (auto simp: get_dinode_def ld16_def ld32_def get_words_def)
qed

lemma ioff_le: "ioff inum + 64 \<le> 512"
proof -
  have "unat inum mod 8 < 8"
    by simp
  then show ?thesis
    unfolding ioff_def by linarith
qed

lemma IBLOCK_iblk:
  assumes "fs_geo s" "inum < sb_ninodes (fsb s)"
  shows "unat (IBLOCK inum (fsb s)) = iblk (fsb s) inum" "iblk (fsb s) inum < unat (sb_bmapstart (fsb s))"
    "unat (log_start s) + 30 \<le> iblk (fsb s) inum"
proof -
  have "unat inum div 8 \<le> unat (sb_ninodes (fsb s)) div 8"
    using assms(2) by (intro div_le_mono) (simp add: word_less_nat_alt)
  then show b: "iblk (fsb s) inum < unat (sb_bmapstart (fsb s))" "unat (log_start s) + 30 \<le> iblk (fsb s) inum"
    using assms(1) by (auto simp: iblk_def fs_geo_def)
  show "unat (IBLOCK inum (fsb s)) = iblk (fsb s) inum"
    using b(1) unat_u32_less [of "sb_bmapstart (fsb s)"] by (simp add: IBLOCK_def iblk_def unat_word_ariths unat_div)
qed

lemma iblk_home:
  assumes "fsok s" "inum < sb_ninodes (fsb s)"
  shows "home s (iblk (fsb s) inum)" "iblk (fsb s) inum \<notin> bmaps (fsb s)" "iblk (fsb s) inum < dstart (fsb s)" "iblk (fsb s) inum \<notin> ufree s"
proof -
  note b = IBLOCK_iblk [OF fsokD(2) [OF assms(1)] assms(2)]
  show "iblk (fsb s) inum \<notin> bmaps (fsb s)" "iblk (fsb s) inum < dstart (fsb s)"
    using b(2) by (simp_all add: bmaps_def dstart_def)
  then show "iblk (fsb s) inum \<notin> ufree s"
    using fsokD(3) [OF assms(1)] by (auto simp: ufree_def)
  show "home s (iblk (fsb s) inum)"
    using b fsokD(2) [OF assms(1)] by (auto simp: home_def outside_def fs_geo_def dstart_def)
qed

lemma ino_slot:
  assumes "inum' \<noteq> inum" "iblk sb inum' = iblk sb inum"
  shows "ioff inum + 64 \<le> ioff inum' \<or> ioff inum' + 64 \<le> ioff inum"
proof -
  have "unat inum' \<noteq> unat inum"
    using assms(1) unsigned_word_eqI by blast
  moreover have "unat inum' div 8 = unat inum div 8"
    using assms(2) by (simp add: iblk_def)
  ultimately have "unat inum' mod 8 \<noteq> unat inum mod 8"
    by (metis div_mult_mod_eq)
  then show ?thesis
    unfolding ioff_def by linarith
qed

text \<open>\<open>iupdate\<close> writes the cached inode to its place and touches no other inode and no data.\<close>

lemma iupdate_ok:
  fixes s :: "'a fs_st_scheme"
  assumes f: "fsok s" and h: "held s = (\<lambda>_. None)" and c: "card (lset s) < 29" and x: "i_dev (icache s ! ip) = 1"
    "i_inum (icache s ! ip) < sb_ninodes (fsb s)" "length (i_addrs (icache s ! ip)) = 13"
  defines "inum \<equiv> i_inum (icache s ! ip)"
  shows "\<exists>s'. iupdate ip s = Inr s' \<and> fsok s' \<and> tkeep s s' \<and> held s' = held s \<and> ufree s' = ufree s \<and>
    lset s' = insert (iblk (fsb s) inum) (lset s) \<and> (\<forall>b. b \<noteq> iblk (fsb s) inum \<longrightarrow> disk s' b = disk s b) \<and>
    disk_ino s' inum = dino_of (icache s ! ip) \<and> (\<forall>i. i \<noteq> inum \<longrightarrow> disk_ino s' i = disk_ino s i)"
proof -
  let ?B = "iblk (fsb s) inum" and ?x = "icache s ! ip"
  let ?d = "put_dinode (disk s ?B) (ioff inum) (dino_of ?x)"
  have inum: "inum < sb_ninodes (fsb s)"
    using x(2) by (simp add: inum_def)
  have B: "unat (IBLOCK inum (fsb s)) = ?B"
    by (rule IBLOCK_iblk(1) [OF fsokD(2) [OF f] inum])
  note hb = iblk_home [OF f inum]
  have len: "length (disk s ?B) = 512"
    by (rule disk_length [OF fsokD(1) [OF f]])
  obtain b s1 s2 s3 where s: "bread 1 (IBLOCK inum (fsb s)) s = Inr (b, s1)" "bdata b s1 = disk s ?B" "log_write b (bdata_set b ?d s1) = Inr s2"
      "brelse b s2 = Inr s3" "tkeep s s1" "txs s3" "tkeep s s3" "disk s3 = (disk s)(?B := ?d)" "lset s3 = insert ?B (lset s)" "held s3 = held s"
    using tb.modify [OF fsokD(1) [OF f], of "IBLOCK inum (fsb s)" ?d] hb(1) h c len unfolding B by auto
  note m = tkeep_more [OF s(7)]
  have us: "used (disk s3) (fsb s) n = used (disk s) (fsb s) n" if "n < unat (sb_size (fsb s))" for n
    using bblk_in [OF that] hb(2) by (auto simp: used_def s(8))
  have "dstart (fsb s) \<le> unat (sb_size (fsb s))"
    using fsokD(2) [OF f] by (simp add: fs_geo_def)
  then have "fsok s3"
    using s(6) geo_keep [OF s(7)] fsokD(2,3) [OF f] m(1) us by (simp add: fsok_def)
  moreover have "ufree s3 = ufree s"
    using us m(1) by (auto simp: ufree_def)
  moreover have "disk_ino s3 inum = dino_of ?x"
    using m(1) s(8) get_put_dinode [of "ioff inum" "disk s ?B" "dino_of ?x"] len ioff_le [of inum] x(3) by (simp add: disk_ino_def dino_of_def)
  moreover have "disk_ino s3 i = disk_ino s i" if "i \<noteq> inum" for i
    using m(1) s(8) ino_slot [OF that, of "fsb s"] get_put_dinode_other [of "ioff inum" "ioff i" "dino_of ?x" "disk s ?B"] x(3)
    by (auto simp: disk_ino_def dino_of_def)
  moreover have "iupdate ip s = Inr s3"
    using s(1-4) m x(1) tkeep_more [OF s(5)] by (simp add: iupdate_def inum_def dino_of_def)
  ultimately show ?thesis
    using s(7,8,9,10) by (intro exI [of _ s3]) auto
qed

text \<open>Data and addresses survive a change of blocks outside the data region.\<close>

lemma data_kept:
  fixes s s' :: "'a fs_st_scheme"
  assumes i: "ino_ok s ip" and f: "fsok s" and v: "icache s' = icache s" "fsb s' = fsb s" "ufree s' = ufree s"
    and d: "\<And>b. dblk s b \<Longrightarrow> disk s' b = disk s b"
  shows "am s' ip = am s ip" "ino_ok s' ip" "p < 140 * 512 \<Longrightarrow> am s ip (p div 512) \<noteq> 0 \<Longrightarrow> fbyte s' ip p = fbyte s ip p"
proof -
  have ad: "ads s' = ads s" "dblk s' = dblk s"
    using v by (auto simp: ads_def dblk_def)
  have "disk s' (unat (ads s ip ! 12)) = disk s (unat (ads s ip ! 12))" if "ads s ip ! 12 \<noteq> 0"
    using ino_okD(4) [OF i, of 140] that by (intro d) (simp add: am_def amap_def)
  then show am: "am s' ip = am s ip"
    by (intro HOL.ext) (auto simp: am_def amap_def ad)
  show "ino_ok s' ip"
    using i unfolding ino_ok_def am ad v .
  show "p < 140 * 512 \<Longrightarrow> am s ip (p div 512) \<noteq> 0 \<Longrightarrow> fbyte s' ip p = fbyte s ip p"
    using d [OF ino_okD(4) [OF i, of "p div 512"]] div_bound [of p] by (simp add: fbyte_def am)
qed

text \<open>The blocks of other files, the other inodes on disk and in the cache, and the disk itself.\<close>

definition others_kept :: "nat \<Rightarrow> 'a fs_st_scheme \<Rightarrow> 'a fs_st_scheme \<Rightarrow> bool" where
  "others_kept ip s s' \<longleftrightarrow>
     (\<forall>b. dblk s b \<and> (\<forall>k \<le> MAXFILE. am s ip k \<noteq> 0 \<longrightarrow> b \<noteq> unat (am s ip k)) \<longrightarrow> dblk s' b \<and> disk s' b = disk s b) \<and>
     (\<forall>i < sb_ninodes (fsb s). i \<noteq> i_inum (icache s ! ip) \<longrightarrow> disk_ino s' i = disk_ino s i) \<and>
     (\<forall>j. j \<noteq> ip \<longrightarrow> icache s' ! j = icache s ! j) \<and> memdisk s' = memdisk s \<and> fsb s' = fsb s"

lemma wext_frame:
  fixes s s' :: "'a fs_st_scheme"
  assumes i: "ino_ok s ip" and f: "fsok s" and w: "wext ip n s s'"
  shows "i < sb_ninodes (fsb s) \<Longrightarrow> disk s' (iblk (fsb s) i) = disk s (iblk (fsb s) i)" "others_kept ip s s'"
proof -
  have ib: "disk s' (iblk (fsb s) i) = disk s (iblk (fsb s) i)" if "i < sb_ninodes (fsb s)" for i
  proof -
    note h = iblk_home [OF f that]
    have "iblk (fsb s) i \<noteq> unat (am s ip k)" if "k \<le> 140" "am s ip k \<noteq> 0" for k
      using ino_okD(4) [OF i that] h(3) by (auto simp: dblk_def)
    then show ?thesis
      using w h(2,4) unfolding wext_def by blast
  qed
  then show "i < sb_ninodes (fsb s) \<Longrightarrow> disk s' (iblk (fsb s) i) = disk s (iblk (fsb s) i)" .
  have fs: "fsb s' = fsb s" "memdisk s' = memdisk s" "ufree s' \<subseteq> ufree s"
    and ic: "icache s' = (icache s)[ip := (icache s ! ip)\<lparr>i_addrs := ads s' ip\<rparr>]"
    using w by (simp_all add: wext_def fkeep_def)
  have "dblk s' b \<and> disk s' b = disk s b" if b: "dblk s b" "\<forall>k \<le> 140. am s ip k \<noteq> 0 \<longrightarrow> b \<noteq> unat (am s ip k)" for b
  proof -
    have "disk s' b = disk s b"
      using w dblkD(2,3) [OF f b(1)] b(2) unfolding wext_def by blast
    then show ?thesis
      using b(1) fs by (auto simp: dblk_def)
  qed
  then show "others_kept ip s s'"
    using ib fs ic unfolding others_kept_def disk_ino_def by simp
qed

lemma fcont_patch:
  assumes l: "length c = z" "z' = max z (off + length src)" "off \<le> z"
    and b: "\<And>p. p < z' \<Longrightarrow> g p = (if off \<le> p \<and> p < off + length src then src ! (p - off) else c ! p)"
  shows "map g [0..<z'] = take off c @ src @ drop (off + length src) c"
proof (rule nth_equalityI)
  show "length (map g [0..<z']) = length (take off c @ src @ drop (off + length src) c)"
    using l by (simp add: max_def)
  fix p assume "p < length (map g [0..<z'])"
  then have p: "p < z'"
    by simp
  consider "p < off" | "off \<le> p" "p < off + length src" | "off + length src \<le> p"
    by linarith
  then show "map g [0..<z'] ! p = (take off c @ src @ drop (off + length src) c) ! p"
  proof cases
    case 1
    then show ?thesis
      using p b [OF p] l by (simp add: nth_append)
  next
    case 2
    then show ?thesis
      using p b [OF p] l by (simp add: nth_append less_diff_conv2)
  next
    case 3
    then have "p < z" "p - off - length src + (off + length src) = p"
      using p l by auto
    then show ?thesis
      using 3 p b [OF p] l by (simp add: nth_append less_diff_conv2)
  qed
qed

text \<open>After the loop: the bytes and addresses a grown or overwritten file must have.\<close>

lemma patched_mapped:
  assumes m: "mapped s ip 0 z" "z \<le> 140 * 512" and w: "wext ip n s s'" and p: "patched ip off src s s'" and o: "off \<le> z" "off + length src \<le> 140 * 512"
  defines "z' \<equiv> max z (off + length src)"
  shows "mapped s' ip 0 z'" "\<And>q. q < z' \<Longrightarrow> fbyte s' ip q = (if off \<le> q \<and> q < off + length src then src ! (q - off) else fbyte s ip q)"
proof -
  have nz: "am s' ip (q div 512) \<noteq> 0" if q: "q < z'" for q
  proof (cases "off \<le> q \<and> q < off + length src")
    case True
    then show ?thesis
      using p by (simp add: patched_def)
  next
    case False
    then have "q < z"
      using q o(1) by (auto simp: z'_def)
    then have "am s ip (q div 512) \<noteq> 0" "q div 512 < 140"
      using m div_bound [of q] by (auto simp: mapped_def)
    then show ?thesis
      using wext_am [OF w, of "q div 512"] by simp
  qed
  then show "mapped s' ip 0 z'"
    by (simp add: mapped_def)
  fix q assume q: "q < z'"
  show "fbyte s' ip q = (if off \<le> q \<and> q < off + length src then src ! (q - off) else fbyte s ip q)"
  proof (cases "off \<le> q \<and> q < off + length src")
    case True
    then show ?thesis
      using p by (simp add: patched_def)
  next
    case False
    then have "q < z"
      using q o(1) by (auto simp: z'_def)
    then have "am s ip (q div 512) \<noteq> 0" "q < 140 * 512"
      using m by (auto simp: mapped_def)
    then have "fbyte s' ip q = fbyte s ip q"
      using p False unfolding patched_def by blast
    then show ?thesis
      using False by auto
  qed
qed

lemma writei_ok:
  fixes s :: "'a fs_st_scheme"
  assumes fo: "file_ok s ip" and o: "unat off \<le> fsize s ip" "unat off + length src \<le> 140 * 512"
    and c: "fits s (2 * nch (unat off) (length src) + 1)" and u: "2 * nch (unat off) (length src) \<le> card (ufree s)"
  shows "\<exists>s'. writei dv ip src off (of_nat (length src)) s = Inr (int (length src), s') \<and> file_ok s' ip \<and>
    fcont s' ip = take (unat off) (fcont s ip) @ src @ drop (unat off + length src) (fcont s ip) \<and>
    others_kept ip s s' \<and> fkeep s s' \<and> i_inum (icache s' ! ip) = i_inum (icache s ! ip) \<and> ucard s' \<le> ucard s + 2 * nch (unat off) (length src) + 1"
proof -
  let ?off = "unat off" and ?z = "fsize s ip" and ?n = "of_nat (length src) :: u32" and ?k = "2 * nch (unat off) (length src)"
  let ?z' = "max ?z (?off + length src)"
  have f: "fsok s" "ino_ok s ip" "held s = (\<lambda>_. None)" "?z \<le> 140 * 512" "mapped s ip 0 ?z" "i_type (icache s ! ip) \<noteq> T_DEV"
      "i_inum (icache s ! ip) < sb_ninodes (fsb s)" "disk_ino s (i_inum (icache s ! ip)) = dino_of (icache s ! ip)"
    using fo by (simp_all add: file_ok_def)
  have ip: "ip < length (icache s)"
    by (rule ino_okD(1) [OF f(2)])
  have n: "unat ?n = length src" "unat (off + ?n) = ?off + length src"
    using o(2) by (simp_all add: unat_of_nat unat_word_ariths)
  have c': "fits s ?k"
    using c by (simp add: fits_def)
  obtain s1 where s1: "writei_loop ip ?off src s = Inr s1" "wext ip ?k s s1" "ucard s1 \<le> ucard s + ?k" "patched ip ?off src s s1"
    using writei_loop_ok [OF f(2,1,3) o(2) c' u] by blast
  note pm = patched_mapped [OF f(5,4) s1(2,4) o]
  note fr = wext_frame [OF f(2,1) s1(2)]
  have e1: "fsok s1" "ino_ok s1 ip" "held s1 = (\<lambda>_. None)" "fsb s1 = fsb s" "fkeep s s1" "lset s \<subseteq> lset s1"
    "icache s1 = (icache s)[ip := (icache s ! ip)\<lparr>i_addrs := ads s1 ip\<rparr>]"
    using s1(2) f(3) by (simp_all add: wext_def fkeep_def)
  have guards: "\<not> off > i_size (icache s ! ip)" "\<not> off + ?n < off" "\<not> off + ?n > of_nat (140 * 512)" "sint ?n = int (length src)"
    using o n sint_unat [of ?n] by (auto simp: fsize_def word_less_nat_alt unat_of_nat)
  have wi: "writei dv ip src off ?n s = bindE (if ?n > 0 \<and> off + ?n > i_size (icache s1 ! ip)
      then iupdate ip (i_set ip (\<lambda>x. x\<lparr>i_size := off + ?n\<rparr>) s1) else Inr s1) (\<lambda>s. Inr (int (length src), s))"
    using guards f(6) s1(1) n(1) by (simp add: writei_def Let_def)
  have sz1: "i_size (icache s1 ! ip) = i_size (icache s ! ip)" "i_inum (icache s1 ! ip) = i_inum (icache s ! ip)"
      "i_type (icache s1 ! ip) = i_type (icache s ! ip)"
    using e1(7) ip by simp_all
  have cont: "fcont s' ip = take ?off (fcont s ip) @ src @ drop (?off + length src) (fcont s ip)"
    if "fsize s' ip = ?z'" "\<And>q. q < ?z' \<Longrightarrow> fbyte s' ip q = fbyte s1 ip q" for s' :: "'a fs_st_scheme"
  proof -
    have "p < ?z" if "p < ?z'" "\<not> (?off \<le> p \<and> p < ?off + length src)" for p
      using that o(1) by linarith
    then have "fbyte s' ip p = (if ?off \<le> p \<and> p < ?off + length src then src ! (p - ?off) else fcont s ip ! p)" if "p < ?z'" for p
      using that \<open>\<And>q. q < ?z' \<Longrightarrow> fbyte s' ip q = fbyte s1 ip q\<close> pm(2) by (auto simp: fcont_def)
    then show ?thesis
      unfolding fcont_def [of s'] that(1) by (intro fcont_patch [of _ ?z]) (use o(1) in \<open>simp_all add: fcont_def\<close>)
  qed
  show ?thesis
  proof (cases "?n > 0 \<and> off + ?n > i_size (icache s1 ! ip)")
    case False
    then have le: "?off + length src \<le> ?z"
      using n o(1) sz1(1) by (auto simp: fsize_def word_less_nat_alt)
    then have "mapped s ip ?off (length src)"
      using f(5) by (simp add: mapped_def)
    then have ic: "icache s1 = icache s"
      using s1(4) by (simp add: patched_def)
    have sz: "fsize s1 ip = ?z'"
      using sz1(1) le by (simp add: fsize_def max_def)
    have "disk_ino s1 (i_inum (icache s1 ! ip)) = dino_of (icache s1 ! ip)"
      using f(8) fr(1) [OF f(7)] e1(4) ic by (simp add: disk_ino_def)
    then have "file_ok s1 ip"
      using e1 f pm(1) sz sz1 o(2) by (simp add: file_ok_def)
    then show ?thesis
      using wi False cont [OF sz refl] fr(2) e1(5) sz1(2) s1(3) by (intro exI [of _ s1]) simp
  next
    case True
    let ?s2 = "i_set ip (\<lambda>x. x\<lparr>i_size := off + ?n\<rparr>) s1"
    have ip1: "ip < length (icache s1)"
      by (rule ino_okD(1) [OF e1(2)])
    have x2: "icache ?s2 ! ip = (icache s1 ! ip)\<lparr>i_size := off + ?n\<rparr>"
      using ip1 by simp
    have v2: "ads ?s2 ip = ads s1 ip" "am ?s2 ip = am s1 ip" "dblk ?s2 = dblk s1" "fbyte ?s2 ip = fbyte s1 ip"
      using x2 by (auto simp: ads_def am_def dblk_def fbyte_def)
    have "ip < length (icache ?s2)" "i_dev (icache ?s2 ! ip) = 1"
      using ip1 x2 ino_okD(2) [OF e1(2)] by simp_all
    then have "ino_ok ?s2 ip"
      using e1(2) unfolding ino_ok_def v2 by blast
    moreover have "fsok ?s2" "held ?s2 = (\<lambda>_. None)"
      using e1(1,3) by simp_all
    ultimately have f2: "fsok ?s2" "held ?s2 = (\<lambda>_. None)" "ino_ok ?s2 ip"
      by blast+
    have cl: "card (lset ?s2) < 29"
      using s1(3) c e1(4) card_mono [of "lset s1 \<union> bmaps (fsb s)" "lset s1"] by (auto simp: fits_def ucard_def)
    let ?i = "i_inum (icache s ! ip)"
    obtain s3 where s3: "iupdate ip ?s2 = Inr s3" "fsok s3" "tkeep ?s2 s3" "held s3 = held ?s2" "ufree s3 = ufree ?s2"
        "lset s3 = insert (iblk (fsb s) ?i) (lset ?s2)" "\<forall>b. b \<noteq> iblk (fsb s) ?i \<longrightarrow> disk s3 b = disk ?s2 b"
        "disk_ino s3 ?i = dino_of (icache ?s2 ! ip)" "\<forall>i. i \<noteq> ?i \<longrightarrow> disk_ino s3 i = disk_ino ?s2 i"
      using iupdate_ok [OF f2(1,2) cl, of ip] x2 ino_okD(2,3) [OF e1(2)] sz1(2) f(7) e1(4) by (auto simp: ads_def)
    note m3 = tkeep_more [OF s3(3)]
    have ne: "b \<noteq> iblk (fsb s) ?i" if "dblk s1 b" for b
      using iblk_home(3) [OF f(1,7)] that e1(4) by (auto simp: dblk_def)
    have dd: "disk s3 b = disk ?s2 b" if "dblk ?s2 b" for b
      using s3(7) ne that v2(3) by simp
    note dk = data_kept [OF f2(3,1) m3(2,1) s3(5) dd]
    have sz: "fsize s3 ip = ?z'"
      using m3(2) x2 n True sz1(1) o(1) by (simp add: fsize_def word_less_nat_alt)
    have bt: "fbyte s3 ip q = fbyte s1 ip q" if "q < ?z'" for q
      using dk(3) [of q] that pm(1) v2 f(4) o(2) by (simp add: mapped_def)
    have "mapped s3 ip 0 ?z'"
      using pm(1) dk(1) v2(2) by (simp add: mapped_def)
    moreover have in3: "i_inum (icache s3 ! ip) = ?i" "i_type (icache s3 ! ip) = i_type (icache s ! ip)" "icache s3 ! ip = icache ?s2 ! ip" "fsb s3 = fsb s"
      using m3 x2 sz1 e1(4) by simp_all
    ultimately have ok: "file_ok s3 ip"
      using s3(2,4,8) dk(2) f e1(3) sz o(2) by (simp add: file_ok_def)
    have "dblk s3 b \<and> disk s3 b = disk s b" if "dblk s b" "\<forall>k \<le> 140. am s ip k \<noteq> 0 \<longrightarrow> b \<noteq> unat (am s ip k)" for b
    proof -
      have b: "dblk s1 b" "disk s1 b = disk s b"
        using fr(2) that unfolding others_kept_def by blast+
      then show ?thesis
        using dd [of b] v2(3) s3(5) m3(1) by (simp add: dblk_def)
    qed
    moreover have "disk_ino s3 i = disk_ino s i" if "i < sb_ninodes (fsb s)" "i \<noteq> ?i" for i
    proof -
      have "disk_ino s3 i = disk_ino ?s2 i"
        using s3(9) that(2) by blast
      also have "\<dots> = disk_ino s1 i"
        by (simp add: disk_ino_def)
      also have "\<dots> = disk_ino s i"
        using fr(2) that unfolding others_kept_def by blast
      finally show ?thesis .
    qed
    moreover have "icache s3 ! j = icache s ! j" if "j \<noteq> ip" for j
      using m3(2) e1(7) that by simp
    moreover have fk: "fkeep s s3"
      using fkeep_trans [OF fkeep_trans [OF e1(5)] tkeep_fkeep [OF s3(3)]] by simp
    ultimately have ot: "others_kept ip s s3"
      unfolding others_kept_def by (simp add: fkeep_def)
    have "ucard s3 \<le> ucard s1 + 1"
      using s3(6) m3(1) e1(4) card_insert_less [of "lset s1 \<union> bmaps (fsb s)" "ucard s1 + 1" "iblk (fsb s) ?i"] by (simp add: ucard_def)
    then show ?thesis
      using wi True s3(1,6) ok cont [OF sz bt] ot fk in3(1) s1(3) by (intro exI [of _ s3]) auto
  qed
qed

section \<open>The file as it is on disk\<close>

text \<open>The contents of a file found by following its inode on the raw disk, as after a reboot.\<close>

definition dfile :: "(nat \<Rightarrow> u8 list) \<Rightarrow> superblock \<Rightarrow> u32 \<Rightarrow> u8 list" where
  "dfile dk sb inum =
     (let x = get_dinode (dk (iblk sb inum)) (ioff inum) in
      map (\<lambda>p. dk (unat (amap dk (d_addrs x) (p div BSIZE))) ! (p mod BSIZE)) [0..<unat (d_size x)])"

lemma dfile_file:
  fixes s :: "'a fs_st_scheme"
  assumes f: "file_ok s ip" and d: "\<And>b. outside (log_start s) b \<Longrightarrow> dk b = disk s b"
  shows "dfile dk (fsb s) (i_inum (icache s ! ip)) = fcont s ip"
proof -
  let ?i = "i_inum (icache s ! ip)" and ?sb = "fsb s"
  have o: "fsok s" "ino_ok s ip" "?i < sb_ninodes ?sb" "disk_ino s ?i = dino_of (icache s ! ip)" "mapped s ip 0 (fsize s ip)" "fsize s ip \<le> 140 * 512"
    using f by (simp_all add: file_ok_def)
  have same: "dk b = disk s b" if "home s b" for b
    using that d by (simp add: home_def)
  have x: "get_dinode (dk (iblk ?sb ?i)) (ioff ?i) = dino_of (icache s ! ip)"
    using same [OF iblk_home(1) [OF o(1,3)]] o(4) by (simp add: disk_ino_def)
  have am: "amap dk (ads s ip) k = am s ip k" for k
  proof (cases "ads s ip ! 12 = 0")
    case False
    then have "dblk s (unat (ads s ip ! 12))"
      using ino_okD(4) [OF o(2), of 140] by (simp add: am_def amap_def)
    then show ?thesis
      using same [OF dblkD(1) [OF o(1)]] by (simp add: am_def amap_def)
  qed (simp add: am_def amap_def)
  have "dk (unat (am s ip (p div 512))) ! (p mod 512) = fbyte s ip p" if p: "p < fsize s ip" for p
  proof -
    have "am s ip (p div 512) \<noteq> 0" "p div 512 \<le> 140"
      using o(5,6) p div_bound [of p] by (auto simp: mapped_def)
    then have "home s (unat (am s ip (p div 512)))"
      using ino_okD(4) [OF o(2)] dblkD(1) [OF o(1)] by blast
    then show ?thesis
      using same by (simp add: fbyte_def)
  qed
  then show ?thesis
    by (simp add: dfile_def x fcont_def fsize_def dino_of_def am [unfolded ads_def])
qed

section \<open>Properties\<close>

text \<open>
  C16: Files refine byte lists. In a transaction with room in the log and enough free blocks, writing at an offset within a regular file
  succeeds, and the contents become the old bytes up to the offset, the bytes written, and the old bytes behind them, through direct
  and indirect blocks and growing the file where needed; the inode on disk follows. Every block of any other file, every other
  inode and the disk itself are unchanged. Reading afterwards, at any offset and length, returns exactly that slice of the new contents.
\<close>

theorem writei_readi:
  fixes s :: "'a fs_st_scheme"
  assumes "file_ok s ip" "unat off \<le> fsize s ip" "unat off + length src \<le> MAXFILE * BSIZE"
    "fits s (2 * nch (unat off) (length src) + 1)" "2 * nch (unat off) (length src) \<le> card (ufree s)"
  shows "\<exists>s'. writei dv ip src off (of_nat (length src)) s = Inr (int (length src), s') \<and> file_ok s' ip \<and>
    fcont s' ip = take (unat off) (fcont s ip) @ src @ drop (unat off + length src) (fcont s ip) \<and> others_kept ip s s' \<and>
    (\<forall>o' n. unat o' \<le> fsize s' ip \<and> unat o' + unat n < 2 ^ 32 \<longrightarrow>
      (\<exists>s''. readi dv ip o' n s' = Inr ((int (length (slice (fcont s' ip) (unat o') (unat n))), slice (fcont s' ip) (unat o') (unat n)), s'')))"
proof -
  obtain s' where s': "writei dv ip src off (of_nat (length src)) s = Inr (int (length src), s')" "file_ok s' ip"
      "fcont s' ip = take (unat off) (fcont s ip) @ src @ drop (unat off + length src) (fcont s ip)" "others_kept ip s s'"
      "ucard s' \<le> ucard s + 2 * nch (unat off) (length src) + 1"
    using writei_ok [OF assms] by blast
  have "card (lset s') \<le> ucard s'"
    unfolding ucard_def by (rule card_mono) auto
  then have "card (lset s') < NBUF"
    using s'(5) assms(4) by (simp add: fits_def ucard_def)
  then show ?thesis
    using s' readi_ok [OF s'(2)] by blast
qed

text \<open>
  C18: The reservation made by \<open>begin_op\<close> is enough for a write. On a disk with one free-map block, a write of at most the
  \<open>((MAXOPBLOCKS-1-1-2)/2)*512\<close> bytes that \<open>filewrite\<close> passes down logs at most \<open>MAXOPBLOCKS\<close> distinct blocks: the data
  blocks, the indirect block, the free map and the inode.
\<close>

theorem writei_log_bound:
  fixes s :: "'a fs_st_scheme"
  assumes "file_ok s ip" "unat off \<le> fsize s ip" "unat off + length src \<le> MAXFILE * BSIZE" "length src \<le> (10 - 1 - 1 - 2) div 2 * 512"
    "lset s = {}" "nbmap (fsb s) = 1" "8 \<le> card (ufree s)"
  shows "\<exists>s'. writei dv ip src off (of_nat (length src)) s = Inr (int (length src), s') \<and> card (lset s') \<le> 10"
proof -
  have "nch (unat off) (length src) \<le> (unat off mod 512 + length src + 511) div 512"
    by (simp add: nch_def)
  also have "\<dots> \<le> 2558 div 512"
    using assms(4) mod_less_divisor [of 512 "unat off"] by (intro div_le_mono) simp
  finally have n: "nch (unat off) (length src) \<le> 4"
    by simp
  have b: "card (bmaps (fsb s)) = 1"
    using assms(6) by (simp add: bmaps_def dstart_def)
  then have c: "fits s (2 * nch (unat off) (length src) + 1)" "2 * nch (unat off) (length src) \<le> card (ufree s)"
    using n assms(5,7) by (simp_all add: fits_def)
  then obtain s' where s': "writei dv ip src off (of_nat (length src)) s = Inr (int (length src), s')"
      "ucard s' \<le> ucard s + 2 * nch (unat off) (length src) + 1"
    using writei_ok [OF assms(1-3)] by blast
  have "card (lset s') \<le> ucard s'"
    unfolding ucard_def by (rule card_mono) auto
  also have "\<dots> \<le> 10"
    using s'(2) n b assms(5) by (simp add: ucard_def)
  finally show ?thesis
    using s'(1) by blast
qed

text \<open>
  C15: A file write is atomic across a crash. After \<open>writei\<close> in a fresh transaction, \<open>commit\<close> succeeds and the file found by
  following its inode on the raw disk has the new contents. If the machine stops after any number of the commit's block writes and
  is rebooted, then after recovery the file on the raw disk has either its old contents or its new contents, never a mixture.
\<close>

theorem write_crash_atomic:
  fixes s :: "'a fs_st_scheme"
  assumes "file_ok s ip" "lset s = {}" "unat off \<le> fsize s ip" "unat off + length src \<le> MAXFILE * BSIZE"
    "fits s (2 * nch (unat off) (length src) + 1)" "2 * nch (unat off) (length src) \<le> card (ufree s)"
  defines "new \<equiv> take (unat off) (fcont s ip) @ src @ drop (unat off + length src) (fcont s ip)" and "inum \<equiv> i_inum (icache s ! ip)"
  shows "\<exists>s1 s2. writei dv ip src off (of_nat (length src)) s = Inr (int (length src), s1) \<and> commit s1 = Inr s2 \<and>
    dfile (memdisk s2) (fsb s) inum = new \<and>
    (\<forall>k bl (s0 :: 'a fs_st_scheme). bready s0 \<and> st_held (store_of s0) = (\<lambda>_. None) \<and> st_pinned (store_of s0) = (\<lambda>_. False) \<and>
        log_geo (log_start s) bl (disksize s) s0 \<and>
        memdisk s0 = apply_writes (memdisk s) (take k (drop (length (dwrites s)) (dwrites s2))) \<longrightarrow>
      (\<exists>s3. recover_from_log s0 = Inr s3 \<and> (dfile (memdisk s3) (fsb s) inum = fcont s ip \<or> dfile (memdisk s3) (fsb s) inum = new)))"
proof -
  obtain s1 where s1: "writei dv ip src off (of_nat (length src)) s = Inr (int (length src), s1)" "file_ok s1 ip" "fcont s1 ip = new"
      "others_kept ip s s1" "fkeep s s1" "i_inum (icache s1 ! ip) = i_inum (icache s ! ip)"
    using writei_ok [OF assms(1,3-6)] unfolding new_def by blast
  have k: "log_start s1 = log_start s" "disksize s1 = disksize s" "memdisk s1 = memdisk s" "dwrites s1 = dwrites s" "fsb s1 = fsb s"
    using s1(5) by (simp_all add: fkeep_def)
  have t: "txs s1" "held s1 = (\<lambda>_. None)" "txs s"
    using s1(2) assms(1) by (auto simp: file_ok_def dest: fsokD(1))
  obtain s2 where s2: "commit s1 = Inr s2" "\<forall>b. outside (log_start s) b \<longrightarrow> memdisk s2 b = disk s1 b"
    "\<forall>k bl (s0 :: 'a fs_st_scheme). bready s0 \<and> st_held (store_of s0) = (\<lambda>_. None) \<and> st_pinned (store_of s0) = (\<lambda>_. False) \<and>
        log_geo (log_start s) bl (disksize s) s0 \<and>
        memdisk s0 = apply_writes (memdisk s) (take k (drop (length (dwrites s)) (dwrites s2))) \<longrightarrow>
      (\<exists>s3. recover_from_log s0 = Inr s3 \<and> lh_n s3 = 0 \<and>
        ((\<forall>b. outside (log_start s) b \<longrightarrow> memdisk s3 b = memdisk s b) \<or> (\<forall>b. outside (log_start s) b \<longrightarrow> memdisk s3 b = disk s1 b)))"
    using commit_atomic [OF txs_tx_ok [OF t(1,2)]] unfolding k disk_def by blast
  have old: "memdisk s b = disk s b" for b
    using txsD(3) [OF t(3), of b] assms(2) by (simp add: disk_def)
  have i: "i_inum (icache s1 ! ip) = inum"
    using s1(6) by (simp add: inum_def)
  have dn: "dfile dk (fsb s) inum = new" if "\<forall>b. outside (log_start s) b \<longrightarrow> dk b = disk s1 b" for dk
    using dfile_file [OF s1(2), of dk] that s1(3) k i by simp
  have do: "dfile dk (fsb s) inum = fcont s ip" if "\<forall>b. outside (log_start s) b \<longrightarrow> dk b = memdisk s b" for dk
    using dfile_file [OF assms(1), of dk] that old by (simp add: inum_def)
  show ?thesis
  proof (rule exI [of _ s1], rule exI [of _ s2], intro conjI allI impI)
    show "writei dv ip src off (of_nat (length src)) s = Inr (int (length src), s1)" "commit s1 = Inr s2"
      by (rule s1(1), rule s2(1))
    show "dfile (memdisk s2) (fsb s) inum = new"
      by (rule dn [OF s2(2)])
    fix k bl and s0 :: "'a fs_st_scheme"
    assume a: "bready s0 \<and> st_held (store_of s0) = (\<lambda>_. None) \<and> st_pinned (store_of s0) = (\<lambda>_. False) \<and>
      log_geo (log_start s) bl (disksize s) s0 \<and> memdisk s0 = apply_writes (memdisk s) (take k (drop (length (dwrites s)) (dwrites s2)))"
    obtain s3 where "recover_from_log s0 = Inr s3"
        "(\<forall>b. outside (log_start s) b \<longrightarrow> memdisk s3 b = memdisk s b) \<or> (\<forall>b. outside (log_start s) b \<longrightarrow> memdisk s3 b = disk s1 b)"
      using s2(3) a by blast
    then show "\<exists>s3. recover_from_log s0 = Inr s3 \<and> (dfile (memdisk s3) (fsb s) inum = fcont s ip \<or> dfile (memdisk s3) (fsb s) inum = new)"
      using dn do by blast
  qed
qed

section \<open>Witnesses\<close>

lemma ex_file_ok: "file_ok ex_fs 0" "fcont ex_fs 0 = [65, 66, 67]" "fsize ex_fs 0 = 3"
proof -
  note e = ex_fs_tx ex_fsok
  have ad: "ads ex_fs 0 = 289 # replicate 12 0" and z: "fsize ex_fs 0 = 3"
    using e(6) by (simp_all add: ads_def fsize_def ex_inode_def)
  have am: "am ex_fs 0 k = (if k = 0 then 289 else 0)" if "k \<le> 140" for k
    using that by (auto simp: am_def amap_def ad nth_Cons')
  have "dblk ex_fs 289"
    using e(5,10) by (simp add: dblk_def dstart_def nbmap_def ex_sb_def)
  then have ino: "ino_ok ex_fs 0"
    using e(6) ad am by (simp add: ino_ok_def ex_inode_def)
  have "disk_ino ex_fs 1 = ex_dinode"
    using e(2,5) get_put_dinode [of 64 "replicate 512 0" ex_dinode] by (simp add: disk_ino_def iblk_def ioff_def ex_sb_def ex_disk_def ex_dinode_def)
  then have "disk_ino ex_fs 1 = dino_of ex_inode"
    by (simp add: dino_of_def ex_inode_def ex_dinode_def)
  then show "file_ok ex_fs 0"
    using e ino z am by (auto simp: file_ok_def mapped_def ex_inode_def ex_sb_def T_FILE_def T_DEV_def)
  show "fsize ex_fs 0 = 3"
    by (rule z)
  have "fbyte ex_fs 0 p = ex_disk 289 ! p" if "p < 3" for p
    using that am [of 0] e(2) by (simp add: fbyte_def)
  then show "fcont ex_fs 0 = [65, 66, 67]"
    using z by (simp add: fcont_def upt_rec ex_disk_def)
qed

lemma ex_room:
  "unat (1 :: u32) \<le> fsize ex_fs 0" "unat (1 :: u32) + length [1, 2, 3, 4 :: u8] \<le> MAXFILE * BSIZE"
  "fits ex_fs (2 * nch (unat (1 :: u32)) (length [1, 2, 3, 4 :: u8]) + 1)"
  "2 * nch (unat (1 :: u32)) (length [1, 2, 3, 4 :: u8]) \<le> card (ufree ex_fs)" "lset ex_fs = {}" "nbmap (fsb ex_fs) = 1"
  using ex_fs_tx(4,5) ex_fsok(2,3) ex_file_ok(3) by (simp_all add: fits_def nch_def nbmap_def ex_sb_def)

text \<open>A device switch without devices.\<close>

definition ex_dv :: "fs_st devsw" where
  "ex_dv = \<lparr>dev_read = (\<lambda>_. None), dev_write = (\<lambda>_. None)\<rparr>"

theorem writei_readi_witness:
  "\<exists>s1 s2. writei ex_dv 0 [1, 2, 3, 4] 1 4 ex_fs = Inr (4, s1) \<and> readi ex_dv 0 0 100 s1 = Inr ((5, [65, 1, 2, 3, 4]), s2)"
proof -
  obtain s1 where s1: "writei ex_dv 0 [1, 2, 3, 4] 1 4 ex_fs = Inr (4, s1)" "fcont s1 0 = [65, 1, 2, 3, 4]"
      "\<forall>o' n. unat o' \<le> fsize s1 0 \<and> unat o' + unat n < 2 ^ 32 \<longrightarrow> (\<exists>s''. readi ex_dv 0 o' n s1 =
        Inr ((int (length (slice (fcont s1 0) (unat o') (unat n))), slice (fcont s1 0) (unat o') (unat n)), s''))"
    using writei_readi [OF ex_file_ok(1) ex_room(1-4), of ex_dv] ex_file_ok(2) by auto
  from s1(3) [rule_format, of 0 100] show ?thesis
    using s1(1,2) by (auto simp: slice_def)
qed

theorem writei_log_bound_witness: "\<exists>s'. writei ex_dv 0 [1, 2, 3, 4] 1 4 ex_fs = Inr (4, s') \<and> card (lset s') \<le> 10"
  using writei_log_bound [OF ex_file_ok(1) ex_room(1,2) _ ex_room(5,6), of ex_dv] ex_fsok(2) by simp

theorem write_crash_atomic_witness:
  "\<exists>s1 s2. writei ex_dv 0 [1, 2, 3, 4] 1 4 ex_fs = Inr (4, s1) \<and> commit s1 = Inr s2 \<and> dfile (memdisk s2) ex_sb 1 = [65, 1, 2, 3, 4]"
proof -
  have "i_inum (icache ex_fs ! 0) = 1"
    using ex_fs_tx(6) by (simp add: ex_inode_def)
  then show ?thesis
    using write_crash_atomic [OF ex_file_ok(1) ex_room(5,1-4), of ex_dv] ex_file_ok(2) ex_fs_tx(5) by auto
qed

end
