(* ===== verification/File.thy ===== *)
theory File
  imports Pipe
begin

text \<open>
  The rest of \<open>file.c\<close>: status, reading and writing through a file structure, which go to a pipe or to an inode. Bytes read are the
  list of bytes stored to the caller's buffer, and bytes written the list of bytes in it. A pipe that makes the caller sleep is
  passed on as in \<open>Pipe\<close>.
\<close>

definition filestat :: "nat \<Rightarrow> 'a file_st_scheme \<Rightarrow> ((int \<times> kstat option) \<times> 'a file_st_scheme) kres" where
  "filestat f s =
     (if f_type (ftable s ! f) = FD_INODE then
        let ip = f_ip (ftable s ! f) in
        bindE (ilock ip s) (\<lambda>s.
        let st = stati ip s in
        bindE (iunlock ip s) (\<lambda>s. Inr ((0, Some st), s)))
      else Inr ((-1, None), s))"

definition fileread :: "'a file_st_scheme devsw \<Rightarrow> nat \<Rightarrow> nat \<Rightarrow> 'a file_st_scheme \<Rightarrow>
    ((int \<times> u8 list + nat \<times> u32) \<times> 'a file_st_scheme) kres" where
  "fileread dv f n s =
     (if \<not> f_readable (ftable s ! f) then Inr (Inl (-1, []), s)
      else if f_type (ftable s ! f) = FD_PIPE then piperead (f_pipe (ftable s ! f)) n s
      else if f_type (ftable s ! f) = FD_INODE then
        let ip = f_ip (ftable s ! f) in
        bindE (ilock ip s) (\<lambda>s.
        bindE (readi dv ip (f_off (ftable s ! f)) (of_nat n) s) (\<lambda>((r, d), s).
        let s = (if r > 0 then f_set f (\<lambda>x. x\<lparr>f_off := f_off x + of_int r\<rparr>) s else s) in
        bindE (iunlock ip s) (\<lambda>s. Inr (Inl (r, d), s))))
      else Inl (Panic ''fileread''))"

text \<open>The bytes one transaction takes: \<open>((MAXOPBLOCKS-1-1-2)/2)*512\<close>.\<close>

abbreviation (input) FW_MAX :: nat where "FW_MAX \<equiv> 1536"

function filewrite_loop :: "'a file_st_scheme devsw \<Rightarrow> nat \<Rightarrow> u8 list \<Rightarrow> int \<Rightarrow> 'a file_st_scheme \<Rightarrow> (int \<times> 'a file_st_scheme) kres" where
  "filewrite_loop dv f src i s =
     (if src = [] then Inr (i, s)
      else
        let n1 = min (length src) FW_MAX; ip = f_ip (ftable s ! f) in
        bindE (begin_op s) (\<lambda>s.
        bindE (ilock ip s) (\<lambda>s.
        bindE (writei dv ip (take n1 src) (f_off (ftable s ! f)) (of_nat n1) s) (\<lambda>(r, s).
        let s = (if r > 0 then f_set f (\<lambda>x. x\<lparr>f_off := f_off x + of_int r\<rparr>) s else s) in
        bindE (iunlock ip s) (\<lambda>s.
        bindE (end_op s) (\<lambda>s.
          if r < 0 then Inr (i, s)
          else if r \<noteq> int n1 then Inl (Panic ''short filewrite'')
          else filewrite_loop dv f (drop n1 src) (i + r) s))))))"
  by pat_completeness auto
termination
  by (relation "measure (\<lambda>(dv, f, src, i, s). length src)") auto

declare filewrite_loop.simps [simp del]

definition filewrite :: "'a file_st_scheme devsw \<Rightarrow> nat \<Rightarrow> u8 list \<Rightarrow> 'a file_st_scheme \<Rightarrow>
    ((int + u8 list \<times> nat \<times> u32) \<times> 'a file_st_scheme) kres" where
  "filewrite dv f src s =
     (if \<not> f_writable (ftable s ! f) then Inr (Inl (-1), s)
      else if f_type (ftable s ! f) = FD_PIPE then pipewrite (f_pipe (ftable s ! f)) src s
      else if f_type (ftable s ! f) = FD_INODE then
        bindE (filewrite_loop dv f src 0 s) (\<lambda>(i, s). Inr (Inl (if i = int (length src) then i else -1), s))
      else Inl (Panic ''filewrite''))"

end
