(* ===== verification/Console.thy ===== *)
theory Console
  imports File
begin

text \<open>
  Console input, the second half of \<open>console.c\<close>, and the keyboard driver \<open>kbd.c\<close>. The characters \<open>getc\<close> returns before its
  first negative result are the argument of \<open>consoleintr\<close>. The edited line is shown to be what a line editor over lists keeps.
\<close>

section \<open>State\<close>

abbreviation (input) INPUT_BUF :: nat where "INPUT_BUF \<equiv> 128"
abbreviation (input) CTRL_P :: int where "CTRL_P \<equiv> 16"
abbreviation (input) CTRL_U :: int where "CTRL_U \<equiv> 21"
abbreviation (input) CTRL_H :: int where "CTRL_H \<equiv> 8"
abbreviation (input) CTRL_D :: int where "CTRL_D \<equiv> 4"

record inp_st = file_st +
  inp_buf :: "u8 list"
  inp_r :: u32
  inp_w :: u32
  inp_e :: u32
  kbd_shift :: u32
  kbd_queue :: "u8 list"

section \<open>Line input\<close>

text \<open>The loop of the kill-line key; it runs while there are characters after \<open>w\<close>, of which there are \<open>e - w\<close>.\<close>

fun kill_line :: "nat \<Rightarrow> 'a inp_st_scheme \<Rightarrow> ('a inp_st_scheme) kres" where
  "kill_line 0 s = Inr s"
| "kill_line (Suc n) s =
     (if inp_buf s ! (unat (inp_e s - 1) mod INPUT_BUF) = 10 then Inr s
      else bindE (consputc BACKSPACE (s\<lparr>inp_e := inp_e s - 1\<rparr>)) (kill_line n))"

definition cons_key :: "int \<Rightarrow> 'a inp_st_scheme \<Rightarrow> ('a inp_st_scheme) kres" where
  "cons_key c s =
     (if c = CTRL_P then Inr s
      else if c = CTRL_U then kill_line (unat (inp_e s - inp_w s)) s
      else if c = CTRL_H \<or> c = 0x7f then
        (if inp_e s \<noteq> inp_w s then consputc BACKSPACE (s\<lparr>inp_e := inp_e s - 1\<rparr>) else Inr s)
      else if c \<noteq> 0 \<and> inp_e s - inp_r s < of_nat INPUT_BUF then
        let c = (if c = 13 then 10 else c);
            s = s\<lparr>inp_buf := (inp_buf s)[unat (inp_e s) mod INPUT_BUF := of_int c], inp_e := inp_e s + 1\<rparr> in
        bindE (consputc c s) (\<lambda>s.
          if c = 10 \<or> c = CTRL_D \<or> inp_e s = inp_r s + of_nat INPUT_BUF
          then wakeup ChInputR (s\<lparr>inp_w := inp_e s\<rparr>)
          else Inr s)
      else Inr s)"

fun cons_keys :: "int list \<Rightarrow> 'a inp_st_scheme \<Rightarrow> ('a inp_st_scheme) kres" where
  "cons_keys [] s = Inr s"
| "cons_keys (c # cs) s = bindE (cons_key c s) (cons_keys cs)"

definition consoleintr :: "int list \<Rightarrow> 'a inp_st_scheme \<Rightarrow> ('a inp_st_scheme) kres" where
  "consoleintr cs s =
     bindE (acquire ConsLock s) (\<lambda>s.
     bindE (cons_keys cs s) (\<lambda>s.
     bindE (release ConsLock s) (\<lambda>s.
       if CTRL_P \<in> set cs then procdump s else Inr s)))"

text \<open>
  \<open>consoleread\<close> after the inode is unlocked and the lock taken: \<open>n\<close> bytes are still wanted of \<open>target\<close>, and \<open>dst\<close> has been stored. \<open>Inr (n, dst, i, e)\<close>:
  process \<open>i\<close> sleeps at this point.
\<close>

definition consread_done :: "nat \<Rightarrow> int \<Rightarrow> u8 list \<Rightarrow> 'a inp_st_scheme \<Rightarrow>
    ((int \<times> u8 list + nat \<times> u8 list \<times> nat \<times> u32) \<times> 'a inp_st_scheme) kres" where
  "consread_done ip r dst s =
     bindE (release ConsLock s) (\<lambda>s. bindE (ilock ip s) (\<lambda>s. Inr (Inl (r, dst), s)))"

fun consread_loop :: "nat \<Rightarrow> nat \<Rightarrow> nat \<Rightarrow> u8 list \<Rightarrow> 'a inp_st_scheme \<Rightarrow>
    ((int \<times> u8 list + nat \<times> u8 list \<times> nat \<times> u32) \<times> 'a inp_st_scheme) kres" where
  "consread_loop ip target 0 dst s = consread_done ip (int target) dst s"
| "consread_loop ip target (Suc n) dst s =
     (if inp_r s = inp_w s then
        bindE (proc_killed s) (\<lambda>(k, s).
          if k then consread_done ip (-1) dst s
          else bindE (sleep_out ChInputR ConsLock s) (\<lambda>(i, e, s). Inr (Inr (Suc n, dst, i, e), s)))
      else
        let c = inp_buf s ! (unat (inp_r s) mod INPUT_BUF); s = s\<lparr>inp_r := inp_r s + 1\<rparr> in
        if c = 4 then
          consread_done ip (int target - int (Suc n)) dst (if Suc n < target then s\<lparr>inp_r := inp_r s - 1\<rparr> else s)
        else if c = 10 then consread_done ip (int target - int n) (dst @ [c]) s
        else consread_loop ip target n (dst @ [c]) s)"

definition consoleread_cut :: "nat \<Rightarrow> nat \<Rightarrow> 'a inp_st_scheme \<Rightarrow>
    ((int \<times> u8 list + nat \<times> u8 list \<times> nat \<times> u32) \<times> 'a inp_st_scheme) kres" where
  "consoleread_cut ip n s =
     bindE (iunlock ip s) (\<lambda>s. bindE (acquire ConsLock s) (consread_loop ip n n []))"

definition consoleread_resume :: "nat \<Rightarrow> nat \<Rightarrow> nat \<times> u8 list \<times> nat \<times> u32 \<Rightarrow> 'a inp_st_scheme \<Rightarrow>
    ((int \<times> u8 list + nat \<times> u8 list \<times> nat \<times> u32) \<times> 'a inp_st_scheme) kres" where
  "consoleread_resume ip target w s =
     (case w of (n, dst, i, e) \<Rightarrow> bindE (sleep_in ConsLock i e s) (consread_loop ip target n dst))"

definition consoleread :: "nat \<Rightarrow> u32 \<Rightarrow> 'a inp_st_scheme \<Rightarrow> ((int \<times> u8 list) \<times> 'a inp_st_scheme) kres" where
  "consoleread ip n s =
     bindE (consoleread_cut ip (nat (sint n)) s) (\<lambda>(r, s). case r of Inl x \<Rightarrow> Inr (x, s) | Inr _ \<Rightarrow> Inl (Sleep ChInputR))"

definition consolewrite :: "nat \<Rightarrow> u8 list \<Rightarrow> 'a inp_st_scheme \<Rightarrow> (int \<times> 'a inp_st_scheme) kres" where
  "consolewrite ip buf s =
     bindE (iunlock ip s) (\<lambda>s.
     bindE (acquire ConsLock s) (\<lambda>s.
     bindE (consputs (map uint buf) s) (\<lambda>s.
     bindE (release ConsLock s) (\<lambda>s.
     bindE (ilock ip s) (\<lambda>s. Inr (int (length buf), s))))))"

text \<open>\<open>consoleinit\<close> enters the two functions into the device switch under \<open>CONSOLE\<close>; enabling the interrupt is left out.\<close>

definition console_devsw :: "'a inp_st_scheme devsw" where
  "console_devsw = \<lparr>dev_read = (\<lambda>m. if m = 1 then Some consoleread else None), dev_write = (\<lambda>m. if m = 1 then Some consolewrite else None)\<rparr>"

definition consoleinit :: "'a con_st_scheme \<Rightarrow> 'a con_st_scheme" where
  "consoleinit s = (initlock ConsLock ''console'' s)\<lparr>cons_locking := 1\<rparr>"

section \<open>The keyboard (kbd.c)\<close>

abbreviation (input) KSHIFT :: u32 where "KSHIFT \<equiv> 1"
abbreviation (input) KCTL :: u32 where "KCTL \<equiv> 2"
abbreviation (input) KALT :: u32 where "KALT \<equiv> 4"
abbreviation (input) CAPSLOCK :: u32 where "CAPSLOCK \<equiv> 8"
abbreviation (input) NUMLOCK :: u32 where "NUMLOCK \<equiv> 16"
abbreviation (input) SCROLLLOCK :: u32 where "SCROLLLOCK \<equiv> 32"
abbreviation (input) E0ESC :: u32 where "E0ESC \<equiv> 64"

definition shiftcode :: "nat \<Rightarrow> u32" where
  "shiftcode i = (if i = 0x1D \<or> i = 0x9D then KCTL else if i = 0x2A \<or> i = 0x36 then KSHIFT else if i = 0x38 \<or> i = 0xB8 then KALT else 0)"

definition togglecode :: "nat \<Rightarrow> u32" where
  "togglecode i = (if i = 0x3A then CAPSLOCK else if i = 0x45 then NUMLOCK else if i = 0x46 then SCROLLLOCK else 0)"

definition normalmap :: "u8 list" where
  "normalmap =
     ([0, 27, 49, 50, 51, 52, 53, 54, 55, 56, 57, 48, 45, 61, 8, 9,
      113, 119, 101, 114, 116, 121, 117, 105, 111, 112, 91, 93, 10, 0, 97, 115,
      100, 102, 103, 104, 106, 107, 108, 59, 39, 96, 0, 92, 122, 120, 99, 118,
      98, 110, 109, 44, 46, 47, 0, 42, 0, 32, 0, 0, 0, 0, 0, 0,
      0, 0, 0, 0, 0, 0, 0, 55, 56, 57, 45, 52, 53, 54, 43, 49,
      50, 51, 48, 46] @ replicate 172 0)
     [0x97 := 224, 0x9C := 10, 0xB5 := 47, 0xC8 := 226, 0xC9 := 230, 0xCB := 228, 0xCD := 229, 0xCF := 225, 0xD0 := 227, 0xD1 := 231, 0xD2 := 232, 0xD3 := 233]"

definition shiftmap :: "u8 list" where
  "shiftmap =
     ([0, 27, 33, 64, 35, 36, 37, 94, 38, 42, 40, 41, 95, 43, 8, 9,
      81, 87, 69, 82, 84, 89, 85, 73, 79, 80, 123, 125, 10, 0, 65, 83,
      68, 70, 71, 72, 74, 75, 76, 58, 34, 126, 0, 124, 90, 88, 67, 86,
      66, 78, 77, 60, 62, 63, 0, 42, 0, 32, 0, 0, 0, 0, 0, 0,
      0, 0, 0, 0, 0, 0, 0, 55, 56, 57, 45, 52, 53, 54, 43, 49,
      50, 51, 48, 46] @ replicate 172 0)
     [0x97 := 224, 0x9C := 10, 0xB5 := 47, 0xC8 := 226, 0xC9 := 230, 0xCB := 228, 0xCD := 229, 0xCF := 225, 0xD0 := 227, 0xD1 := 231, 0xD2 := 232, 0xD3 := 233]"

definition ctlmap :: "u8 list" where
  "ctlmap =
     ([0, 0, 0, 0, 0, 0, 0, 0, 0, 0, 0, 0, 0, 0, 0, 0,
      17, 23, 5, 18, 20, 25, 21, 9, 15, 16, 0, 0, 13, 0, 1, 19,
      4, 6, 7, 8, 10, 11, 12, 0, 0, 0, 0, 28, 26, 24, 3, 22,
      2, 14, 13, 0, 0, 239] @ replicate 202 0)
     [0x97 := 224, 0x9C := 13, 0xB5 := 239, 0xC8 := 226, 0xC9 := 230, 0xCB := 228, 0xCD := 229, 0xCF := 225, 0xD0 := 227, 0xD1 := 231, 0xD2 := 232, 0xD3 := 233]"

definition charcode :: "u32 \<Rightarrow> u8 list" where
  "charcode m = (if m = 0 then normalmap else if m = 1 then shiftmap else ctlmap)"

text \<open>The status port says whether a scan code is waiting; the data port returns the next one.\<close>

definition kbdgetc :: "'a inp_st_scheme \<Rightarrow> int \<times> 'a inp_st_scheme" where
  "kbdgetc s =
     (case kbd_queue s of
        [] \<Rightarrow> (-1, s)
      | data # q \<Rightarrow>
          let s = s\<lparr>kbd_queue := q\<rparr>; sh = kbd_shift s in
          if data = 0xE0 then (0, s\<lparr>kbd_shift := or sh E0ESC\<rparr>)
          else if and data 0x80 \<noteq> 0 then
            let data = (if and sh E0ESC \<noteq> 0 then data else and data 0x7F) in
            (0, s\<lparr>kbd_shift := and sh (not (or (shiftcode (unat data)) E0ESC))\<rparr>)
          else
            let (data, sh) = (if and sh E0ESC \<noteq> 0 then (or data 0x80, and sh (not E0ESC)) else (data, sh));
                sh = xor (or sh (shiftcode (unat data))) (togglecode (unat data));
                c = uint (charcode (and sh (or KCTL KSHIFT)) ! unat data);
                c = (if and sh CAPSLOCK \<noteq> 0 then
                       (if 97 \<le> c \<and> c \<le> 122 then c - 32 else if 65 \<le> c \<and> c \<le> 90 then c + 32 else c)
                     else c) in
            (c, s\<lparr>kbd_shift := sh\<rparr>))"

fun kbd_chars :: "nat \<Rightarrow> 'a inp_st_scheme \<Rightarrow> int list \<times> 'a inp_st_scheme" where
  "kbd_chars 0 s = ([], s)"
| "kbd_chars (Suc n) s =
     (let (c, s) = kbdgetc s in
      if c < 0 then ([], s) else let (cs, s) = kbd_chars n s in (c # cs, s))"

text \<open>Every call that finds a scan code takes it, so the calls end after one more than are waiting.\<close>

definition kbdintr :: "'a inp_st_scheme \<Rightarrow> ('a inp_st_scheme) kres" where
  "kbdintr s = (let (cs, s) = kbd_chars (Suc (length (kbd_queue s))) s in consoleintr cs s)"

section \<open>The line editor\<close>

text \<open>
  The abstract editor: the bytes that may be read, the line being edited and the bytes sent to the terminal. A key is
  the value \<open>getc\<close> returns.
\<close>

definition ed_key :: "int \<Rightarrow> u8 list \<times> u8 list \<times> int list \<Rightarrow> u8 list \<times> u8 list \<times> int list" where
  "ed_key c st =
     (case st of (q, l, out) \<Rightarrow>
        if c = 16 then st
        else if c = 21 then (q, [], out @ concat (replicate (length l) [8, 32, 8]))
        else if c = 8 \<or> c = 127 then (if l = [] then st else (q, butlast l, out @ [8, 32, 8]))
        else if c \<noteq> 0 \<and> length q + length l < 128 then
          let c = (if c = 13 then 10 else c) in
          if c = 10 \<or> c = 4 \<or> length q + length l = 127 then (q @ l @ [of_int c], [], out @ [c])
          else (q, l @ [of_int c], out @ [c])
        else st)"

text \<open>What a read of up to \<open>n\<close> bytes takes from the bytes that may be read, after \<open>k\<close> bytes: the result and what stays.\<close>

fun ed_read :: "nat \<Rightarrow> nat \<Rightarrow> u8 list \<Rightarrow> (u8 list \<times> u8 list) option" where
  "ed_read k 0 q = Some ([], q)"
| "ed_read k (Suc n) [] = None"
| "ed_read k (Suc n) (c # q) =
     (if c = 4 then Some ([], if k = 0 then q else c # q)
      else if c = 10 then Some ([c], q)
      else map_option (\<lambda>(d, q). (c # d, q)) (ed_read (Suc k) n q))"

definition kring :: "u8 list \<Rightarrow> u32 \<Rightarrow> nat \<Rightarrow> u8 list" where
  "kring b r n = map (\<lambda>i. b ! ((unat r + i) mod INPUT_BUF)) [0..<n]"

definition readable :: "'a inp_st_scheme \<Rightarrow> u8 list" where
  "readable s = kring (inp_buf s) (inp_r s) (unat (inp_w s - inp_r s))"

definition editing :: "'a inp_st_scheme \<Rightarrow> u8 list" where
  "editing s = kring (inp_buf s) (inp_w s) (unat (inp_e s - inp_w s))"

abbreviation ed_of :: "'a inp_st_scheme \<Rightarrow> u8 list \<times> u8 list \<times> int list" where
  "ed_of s \<equiv> (readable s, editing s, uart_out s)"

definition inp_ok :: "'a inp_st_scheme \<Rightarrow> bool" where
  "inp_ok s \<longleftrightarrow> length (inp_buf s) = INPUT_BUF \<and> unat (inp_w s - inp_r s) + unat (inp_e s - inp_w s) \<le> INPUT_BUF \<and>
     10 \<notin> set (editing s)"

lemma length_kring [simp]: "length (kring b r n) = n"
  by (simp add: kring_def)

lemma kring_0 [simp]: "kring b r 0 = []"
  by (simp add: kring_def)

lemma kring_Suc: "kring b r (Suc n) = kring b r n @ [b ! ((unat r + n) mod INPUT_BUF)]"
  by (simp add: kring_def)

lemma unat_mod_buf: "unat (a + of_nat i :: u32) mod INPUT_BUF = (unat a + i) mod INPUT_BUF"
proof -
  have "(128 :: nat) dvd 2 ^ 32"
    by simp
  then show ?thesis
    by (simp add: unat_word_ariths unat_of_nat mod_mod_cancel mod_add_right_eq del: dvd_imp_mod_0)
qed

lemma nth_kring: "i < n \<Longrightarrow> kring b r n ! i = b ! ((unat r + i) mod INPUT_BUF)"
  by (simp add: kring_def)

lemma kring_add: "kring b r (n + m) = kring b r n @ kring b (r + of_nat n) m"
proof (induction m)
  case (Suc m)
  have "(unat r + (n + m)) mod INPUT_BUF = (unat (r + of_nat n) + m) mod INPUT_BUF"
    using unat_mod_buf [of "r + of_nat n" m] unat_mod_buf [of r "n + m"] by (simp add: add.assoc)
  then show ?case
    using Suc by (simp add: kring_Suc)
qed simp

lemma kring_Cons: "kring b r (Suc n) = b ! (unat r mod INPUT_BUF) # kring b (r + 1) n"
  using kring_add [of b r 1 n] by (simp add: kring_Suc)

lemma buf_slot_neq:
  assumes "i < n" "n < INPUT_BUF"
  shows "(a + i) mod INPUT_BUF \<noteq> (a + n) mod INPUT_BUF"
proof
  assume "(a + i) mod INPUT_BUF = (a + n) mod INPUT_BUF"
  then have "INPUT_BUF dvd (a + n) - (a + i)"
    using assms(1) by (metis add_le_cancel_left less_imp_le mod_eq_dvd_iff_nat)
  then show False
    using assms by (auto dest!: dvd_imp_le)
qed

lemma kring_update:
  assumes "n < INPUT_BUF" "length b = INPUT_BUF"
  shows "kring (b[(unat r + n) mod INPUT_BUF := c]) r (Suc n) = kring b r n @ [c]"
proof -
  have "b[(unat r + n) mod INPUT_BUF := c] ! ((unat r + i) mod INPUT_BUF) = b ! ((unat r + i) mod INPUT_BUF)" if "i < n" for i
    using buf_slot_neq [OF that assms(1), of "unat r"] by simp
  then have "kring (b[(unat r + n) mod INPUT_BUF := c]) r n = kring b r n"
    by (simp add: kring_def)
  then show ?thesis
    using assms(2) by (simp add: kring_Suc)
qed

text \<open>The indices as distances: \<open>n\<close> bytes may be read and \<open>m\<close> are being edited.\<close>

definition shaped :: "nat \<Rightarrow> nat \<Rightarrow> 'a inp_st_scheme \<Rightarrow> bool" where
  "shaped n m s \<longleftrightarrow> length (inp_buf s) = INPUT_BUF \<and> inp_w s = inp_r s + of_nat n \<and> inp_e s = inp_r s + of_nat (n + m) \<and>
     n + m \<le> INPUT_BUF"

lemma shaped_diff:
  assumes "shaped n m s"
  shows "unat (inp_w s - inp_r s) = n" "unat (inp_e s - inp_w s) = m" "unat (inp_e s - inp_r s) = n + m"
proof -
  have "inp_w s - inp_r s = of_nat n" "inp_e s - inp_w s = of_nat m" "inp_e s - inp_r s = of_nat (n + m)"
    using assms by (simp_all add: shaped_def)
  moreover have "n < 2 ^ 32" "m < 2 ^ 32" "n + m < 2 ^ 32"
    using assms by (simp_all add: shaped_def)
  ultimately show "unat (inp_w s - inp_r s) = n" "unat (inp_e s - inp_w s) = m" "unat (inp_e s - inp_r s) = n + m"
    by (simp_all add: unat_of_nat del: of_nat_add)
qed

lemma shaped_iff: "inp_ok s \<longleftrightarrow> (\<exists>n m. shaped n m s \<and> 10 \<notin> set (editing s))"
proof
  assume "inp_ok s"
  then show "\<exists>n m. shaped n m s \<and> 10 \<notin> set (editing s)"
    by (intro exI [of _ "unat (inp_w s - inp_r s)"] exI [of _ "unat (inp_e s - inp_w s)"]) (simp add: inp_ok_def shaped_def)
next
  assume "\<exists>n m. shaped n m s \<and> 10 \<notin> set (editing s)"
  then show "inp_ok s"
    using shaped_diff by (fastforce simp: inp_ok_def shaped_def)
qed

lemma shaped_lines:
  assumes "shaped n m s"
  shows "readable s = kring (inp_buf s) (inp_r s) n" "editing s = kring (inp_buf s) (inp_w s) m"
    "readable s @ editing s = kring (inp_buf s) (inp_r s) (n + m)" "length (readable s) = n" "length (editing s) = m"
  using shaped_diff [OF assms] assms by (simp_all add: readable_def editing_def kring_add shaped_def)

lemma lines_cong:
  "inp_buf s' = inp_buf s \<Longrightarrow> inp_r s' = inp_r s \<Longrightarrow> inp_w s' = inp_w s \<Longrightarrow> inp_e s' = inp_e s \<Longrightarrow>
   readable s' = readable s \<and> editing s' = editing s \<and> (inp_ok s' \<longleftrightarrow> inp_ok s) \<and> (shaped n m s' \<longleftrightarrow> shaped n m s)"
  by (simp add: readable_def editing_def inp_ok_def shaped_def)

lemma edit_snoc:
  fixes c :: u8
  assumes s: "shaped n m s" "n + m < INPUT_BUF"
  defines "t \<equiv> s\<lparr>inp_buf := (inp_buf s)[unat (inp_e s) mod INPUT_BUF := c], inp_e := inp_e s + 1\<rparr>"
  shows "shaped n (Suc m) t" "readable t = readable s" "editing t = editing s @ [c]"
proof -
  show t: "shaped n (Suc m) t"
    using s by (simp add: shaped_def t_def)
  have "unat (inp_e s) mod INPUT_BUF = (unat (inp_r s) + (n + m)) mod INPUT_BUF"
    using s(1) unat_mod_buf [of "inp_r s" "n + m"] by (simp add: shaped_def)
  then have "readable t @ editing t = readable s @ editing s @ [c]"
    using shaped_lines(3) [OF t] shaped_lines(3) [OF s(1)] kring_update [OF s(2), of "inp_buf s" "inp_r s" c] s(1)
    by (simp add: t_def shaped_def)
  then show "readable t = readable s" "editing t = editing s @ [c]"
    using shaped_lines(4) [OF t] shaped_lines(4) [OF s(1)] by (metis append_eq_append_conv)+
qed

lemma edit_back:
  assumes s: "shaped n (Suc m) s"
  defines "t \<equiv> s\<lparr>inp_e := inp_e s - 1\<rparr>"
  shows "shaped n m t" "readable t = readable s" "editing s = editing t @ [inp_buf s ! (unat (inp_e s - 1) mod INPUT_BUF)]"
proof -
  show t: "shaped n m t"
    using s by (simp add: shaped_def t_def)
  then show "readable t = readable s"
    using shaped_lines(1) [OF t] shaped_lines(1) [OF s] by (simp add: t_def)
  have "inp_e s - 1 = inp_w s + of_nat m"
    using s by (simp add: shaped_def)
  then have "unat (inp_e s - 1) mod INPUT_BUF = (unat (inp_w s) + m) mod INPUT_BUF"
    using unat_mod_buf [of "inp_w s" m] by simp
  then show "editing s = editing t @ [inp_buf s ! (unat (inp_e s - 1) mod INPUT_BUF)]"
    using shaped_lines(2) [OF t] shaped_lines(2) [OF s] by (simp add: t_def kring_Suc)
qed

lemma edit_commit:
  assumes s: "shaped n m s"
  defines "t \<equiv> s\<lparr>inp_w := inp_e s\<rparr>"
  shows "shaped (n + m) 0 t" "readable t = readable s @ editing s" "editing t = []"
proof -
  show t: "shaped (n + m) 0 t"
    using s by (simp add: shaped_def t_def)
  then show "readable t = readable s @ editing s" "editing t = []"
    using shaped_lines(1,5) [OF t] shaped_lines(3) [OF s] by (simp_all add: t_def)
qed

text \<open>The console lock is held, the screen is usable and the input buffer is in order.\<close>

definition cons_ok :: "'a inp_st_scheme \<Rightarrow> bool" where
  "cons_ok s \<longleftrightarrow> crit [ConsLock] s \<and> con_ok s"

lemma inp_acq_rel [simp]:
  fixes s :: "'a inp_st_scheme"
  shows "inp_buf (acq lk s) = inp_buf s" "inp_r (acq lk s) = inp_r s" "inp_w (acq lk s) = inp_w s" "inp_e (acq lk s) = inp_e s"
    "inp_buf (rel lk s) = inp_buf s" "inp_r (rel lk s) = inp_r s" "inp_w (rel lk s) = inp_w s" "inp_e (rel lk s) = inp_e s"
  by (simp_all add: acq_def pushed_def cli_def rel_def popped_def sti_def Let_def)

lemma inp_put:
  fixes s :: "'a inp_st_scheme"
  assumes "cons_ok s"
  shows "\<exists>s'. consputc c s = Inr s' \<and> cons_ok s' \<and> uart_out s' = uart_out s @ echo c \<and>
    inp_buf s' = inp_buf s \<and> inp_r s' = inp_r s \<and> inp_w s' = inp_w s \<and> inp_e s' = inp_e s"
proof -
  have s: "con_ok s" "crit [ConsLock] s"
    using assms by (simp_all add: cons_ok_def)
  obtain s' where s': "consputc c s = Inr s'" "printed s (echo c) s'"
    using consputc_ok [OF s(1)] by blast
  have "con_ok s'" "crit [ConsLock] s'" "uart_out s' = uart_out s @ echo c"
    using printed_con_ok [OF s'(2) s(1)] printed_frame [OF s'(2) s] by (simp_all add: con_frame_def)
  moreover have "inp_buf s' = inp_buf s \<and> inp_r s' = inp_r s \<and> inp_w s' = inp_w s \<and> inp_e s' = inp_e s"
    using s'(2) by (auto simp: printed_def)
  ultimately show ?thesis
    using s'(1) by (simp add: cons_ok_def)
qed

lemma inp_wakeup:
  fixes s :: "'a inp_st_scheme"
  assumes "cons_ok s"
  shows "\<exists>s'. wakeup ChInputR s = Inr s' \<and> cons_ok s' \<and> uart_out s' = uart_out s \<and>
    inp_buf s' = inp_buf s \<and> inp_r s' = inp_r s \<and> inp_w s' = inp_w s \<and> inp_e s' = inp_e s"
proof -
  obtain s' where s': "wakeup ChInputR s = Inr s'" "sys_frame [ConsLock] s s'"
    using wakeup_ok [of "[ConsLock]" s ChInputR] assms by (auto simp: cons_ok_def)
  have "inp_buf s' = inp_buf s \<and> inp_r s' = inp_r s \<and> inp_w s' = inp_w s \<and> inp_e s' = inp_e s"
    using s'(2) by (cases s; cases s'; simp add: sys_frame_def)
  then show ?thesis
    using s' assms by (simp add: cons_ok_def con_ok_def sys_frame_def)
qed

lemma kill_line_ok:
  assumes "cons_ok s" "shaped n m s" "10 \<notin> set (editing s)"
  shows "\<exists>s'. kill_line m s = Inr s' \<and> cons_ok s' \<and> shaped n 0 s' \<and>
    ed_of s' = (readable s, [], uart_out s @ concat (replicate m [8, 32, 8]))"
  using assms
proof (induction m arbitrary: s)
  case 0
  then show ?case
    using shaped_lines(5) [OF 0(2)] by simp
next
  case (Suc m)
  let ?t = "s\<lparr>inp_e := inp_e s - 1\<rparr>"
  note b = edit_back [OF Suc.prems(2)]
  have "cons_ok ?t"
    using Suc.prems(1) by (simp add: cons_ok_def con_ok_def)
  then obtain s1 where s1: "consputc BACKSPACE ?t = Inr s1" "cons_ok s1" "uart_out s1 = uart_out s @ [8, 32, 8]"
    "inp_buf s1 = inp_buf ?t" "inp_r s1 = inp_r ?t" "inp_w s1 = inp_w ?t" "inp_e s1 = inp_e ?t"
    using inp_put [of ?t BACKSPACE] by (auto simp: echo_def)
  note l = lines_cong [OF s1(4-7), of n m]
  have "10 \<notin> set (editing s1)"
    using b(3) Suc.prems(3) l by simp
  then obtain s' where "kill_line m s1 = Inr s'" "cons_ok s'" "shaped n 0 s'"
      "ed_of s' = (readable s1, [], uart_out s1 @ concat (replicate m [8, 32, 8]))"
    using Suc.IH [OF s1(2)] b(1) l by auto
  moreover have "inp_buf s ! (unat (inp_e s - 1) mod INPUT_BUF) \<noteq> 10"
    using b(3) Suc.prems(3) by auto
  ultimately show ?case
    using s1(1,3) b(2) l by simp
qed

lemma of_int_eq_10: "0 \<le> c \<Longrightarrow> c < 256 \<Longrightarrow> (10 :: u8) = of_int c \<longleftrightarrow> c = 10"
  by (auto simp: word_uint_eq_iff uint_word_of_int)

text \<open>A character that is put into the line, and what the end of a line does.\<close>

lemma key_default_ok:
  fixes s :: "'a inp_st_scheme"
  assumes s: "cons_ok s" "shaped n m s" "10 \<notin> set (editing s)" "n + m < INPUT_BUF" and c: "0 \<le> c" "c < 256"
  shows "\<exists>s'. bindE (consputc c (s\<lparr>inp_buf := (inp_buf s)[unat (inp_e s) mod INPUT_BUF := of_int c], inp_e := inp_e s + 1\<rparr>)) (\<lambda>s.
          if c = 10 \<or> c = CTRL_D \<or> inp_e s = inp_r s + of_nat INPUT_BUF
          then wakeup ChInputR (s\<lparr>inp_w := inp_e s\<rparr>)
          else Inr s) = Inr s' \<and> cons_ok s' \<and> inp_ok s' \<and>
     ed_of s' = (if c = 10 \<or> c = 4 \<or> n + m = 127 then (readable s @ editing s @ [of_int c], [], uart_out s @ [c])
                 else (readable s, editing s @ [of_int c], uart_out s @ [c]))"
proof -
  let ?t = "s\<lparr>inp_buf := (inp_buf s)[unat (inp_e s) mod INPUT_BUF := of_int c], inp_e := inp_e s + 1\<rparr>"
  note a = edit_snoc [OF s(2,4), of "of_int c"]
  have "cons_ok ?t"
    using s(1) by (simp add: cons_ok_def con_ok_def)
  then obtain s1 where s1: "consputc c ?t = Inr s1" "cons_ok s1" "uart_out s1 = uart_out s @ [c]"
    "inp_buf s1 = inp_buf ?t" "inp_r s1 = inp_r ?t" "inp_w s1 = inp_w ?t" "inp_e s1 = inp_e ?t"
    using inp_put [of ?t c] c by (auto simp: echo_def)
  note l = lines_cong [OF s1(4-7), of n "Suc m"]
  have full: "inp_e s1 = inp_r s1 + of_nat INPUT_BUF \<longleftrightarrow> n + m = 127"
  proof -
    have e: "inp_e s1 = inp_r s1 + of_nat (n + Suc m)" and u: "unat (inp_e s1 - inp_r s1) = n + Suc m"
      using shaped_diff(3) [of n "Suc m" s1] l a(1) by (simp_all add: shaped_def)
    show ?thesis
    proof
      assume "inp_e s1 = inp_r s1 + of_nat INPUT_BUF"
      then show "n + m = 127"
        using u by simp
    next
      assume "n + m = 127"
      then have "n + Suc m = INPUT_BUF"
        by simp
      then show "inp_e s1 = inp_r s1 + of_nat INPUT_BUF"
        using e by simp
    qed
  qed
  show ?thesis
  proof (cases "c = 10 \<or> c = CTRL_D \<or> n + m = 127")
    case True
    have s1s: "shaped n (Suc m) s1"
      using l a(1) by simp
    note d = edit_commit [OF s1s]
    have "cons_ok (s1\<lparr>inp_w := inp_e s1\<rparr>)"
      using s1(2) by (simp add: cons_ok_def con_ok_def)
    then obtain s2 where s2: "wakeup ChInputR (s1\<lparr>inp_w := inp_e s1\<rparr>) = Inr s2" "cons_ok s2" "uart_out s2 = uart_out s1"
      "inp_buf s2 = inp_buf (s1\<lparr>inp_w := inp_e s1\<rparr>)" "inp_r s2 = inp_r (s1\<lparr>inp_w := inp_e s1\<rparr>)"
      "inp_w s2 = inp_w (s1\<lparr>inp_w := inp_e s1\<rparr>)" "inp_e s2 = inp_e (s1\<lparr>inp_w := inp_e s1\<rparr>)"
      using inp_wakeup [of "s1\<lparr>inp_w := inp_e s1\<rparr>"] by auto
    note l2 = lines_cong [OF s2(4-7), of "n + Suc m" 0]
    have "inp_ok s2"
      using d l2 by (auto simp: shaped_iff)
    then show ?thesis
      using True s1(1,3) s2(1,2,3) full l l2 d a by simp
  next
    case False
    have "10 \<notin> set (editing s1)"
      using False s(3) l a(3) c by (auto simp: of_int_eq_10)
    then have "inp_ok s1"
      using l a(1) by (auto simp: shaped_iff)
    then show ?thesis
      using False s1(1,2,3) full l a by simp
  qed
qed

lemma cons_key_ok:
  fixes s :: "'a inp_st_scheme"
  assumes s: "cons_ok s" "inp_ok s" and c: "0 \<le> c" "c < 256"
  shows "\<exists>s'. cons_key c s = Inr s' \<and> cons_ok s' \<and> inp_ok s' \<and> ed_of s' = ed_key c (ed_of s)"
proof -
  obtain n m where h: "shaped n m s" "10 \<notin> set (editing s)"
    using s(2) by (auto simp: shaped_iff)
  note l = shaped_lines(4,5) [OF h(1)] and d = shaped_diff [OF h(1)]
  consider "c = 16" | "c = 21" | "c = 8 \<or> c = 127" "m = 0" | "c = 8 \<or> c = 127" "m \<noteq> 0"
    | "c \<notin> {0, 16, 21, 8, 127}" "n + m < INPUT_BUF" | "c \<notin> {16, 21, 8, 127}" "c = 0 \<or> \<not> n + m < INPUT_BUF"
    by auto
  then show ?thesis
  proof cases
    case 1
    then show ?thesis
      using s by (simp add: cons_key_def ed_key_def)
  next
    case 2
    then obtain s' where "kill_line m s = Inr s'" "cons_ok s'" "shaped n 0 s'"
        "ed_of s' = (readable s, [], uart_out s @ concat (replicate m [8, 32, 8]))"
      using kill_line_ok [OF s(1) h] by blast
    moreover have "inp_ok s'"
      using calculation by (auto simp: shaped_iff)
    ultimately show ?thesis
      using 2 l d by (simp add: cons_key_def ed_key_def)
  next
    case 3
    then have "editing s = []" "inp_e s = inp_w s"
      using l d by (auto simp: unat_eq_0)
    then show ?thesis
      using 3 s by (auto simp: cons_key_def ed_key_def)
  next
    case 4
    let ?t = "s\<lparr>inp_e := inp_e s - 1\<rparr>"
    obtain k where k: "m = Suc k"
      using 4 not0_implies_Suc by blast
    note b = edit_back [OF h(1) [unfolded k]]
    have "cons_ok ?t"
      using s(1) by (simp add: cons_ok_def con_ok_def)
    then obtain s1 where s1: "consputc BACKSPACE ?t = Inr s1" "cons_ok s1" "uart_out s1 = uart_out s @ [8, 32, 8]"
      "inp_buf s1 = inp_buf ?t" "inp_r s1 = inp_r ?t" "inp_w s1 = inp_w ?t" "inp_e s1 = inp_e ?t"
      using inp_put [of ?t BACKSPACE] by (auto simp: echo_def)
    note l1 = lines_cong [OF s1(4-7), of n k]
    have "inp_ok s1"
      using b h(2) l1 by (auto simp: shaped_iff)
    moreover have "editing s1 = butlast (editing s)" "editing s \<noteq> []"
      using b(3) l1 by simp_all
    moreover have "inp_e s \<noteq> inp_w s"
      using d(2) k by auto
    ultimately show ?thesis
      using 4 s1 b(2) l1 by (auto simp: cons_key_def ed_key_def)
  next
    case 5
    let ?c = "if c = 13 then 10 else c"
    have "inp_e s - inp_r s < of_nat INPUT_BUF"
      using d(3) 5(2) by (simp add: word_less_nat_alt)
    then show ?thesis
      using key_default_ok [OF s(1) h 5(2), of ?c] c 5 l unfolding cons_key_def ed_key_def Let_def
      by (cases "c = 13") simp_all
  next
    case 6
    have "\<not> inp_e s - inp_r s < of_nat INPUT_BUF" if "\<not> n + m < INPUT_BUF"
      using d(3) that by (simp add: word_less_nat_alt)
    then show ?thesis
      using 6 s l by (auto simp: cons_key_def ed_key_def)
  qed
qed

lemma cons_keys_ok:
  fixes s :: "'a inp_st_scheme"
  shows "cons_ok s \<Longrightarrow> inp_ok s \<Longrightarrow> \<forall>c \<in> set cs. 0 \<le> c \<and> c < 256 \<Longrightarrow>
    \<exists>s'. cons_keys cs s = Inr s' \<and> cons_ok s' \<and> inp_ok s' \<and> ed_of s' = fold ed_key cs (ed_of s)"
proof (induction cs arbitrary: s)
  case (Cons c cs)
  obtain s1 where "cons_key c s = Inr s1" "cons_ok s1" "inp_ok s1" "ed_of s1 = ed_key c (ed_of s)"
    using cons_key_ok [OF Cons.prems(1,2), of c] Cons.prems(3) by auto
  then show ?case
    using Cons.IH [of s1] Cons.prems(3) by simp
qed simp

lemma consread_loop_ok:
  fixes s :: "'a inp_st_scheme"
  assumes "inp_ok s" "ed_read k n (readable s) = Some (d, q)"
  shows "\<exists>u. consread_loop ip (k + n) n dst s = consread_done ip (int k + int (length d)) (dst @ d) u \<and>
    readable u = q \<and> editing u = editing s \<and> inp_ok u"
  using assms
proof (induction n arbitrary: k dst d q s)
  case 0
  then show ?case
    by auto
next
  case (Suc n)
  let ?t = "s\<lparr>inp_r := inp_r s + 1\<rparr>"
  obtain c q' where q': "readable s = c # q'"
    using Suc.prems(2) by (cases "readable s") auto
  obtain a m where h: "shaped (Suc a) m s" "10 \<notin> set (editing s)"
    using Suc.prems(1) shaped_lines(4) q' by (metis length_Cons shaped_iff)
  have t: "shaped a m ?t"
    using h(1) by (simp add: shaped_def)
  have c: "c = inp_buf s ! (unat (inp_r s) mod INPUT_BUF)" "readable ?t = q'" "editing ?t = editing s"
    using q' shaped_lines(1,2) [OF h(1)] shaped_lines(1,2) [OF t] by (simp_all add: kring_Cons)
  then have ok: "inp_ok ?t"
    using t h(2) by (auto simp: shaped_iff)
  have ne: "inp_r s \<noteq> inp_w s"
    using shaped_diff(1) [OF h(1)] by auto
  consider "c = 4" | "c = 10" | "c \<noteq> 4" "c \<noteq> 10"
    by blast
  then show ?case
  proof cases
    case 1
    have "?t\<lparr>inp_r := inp_r s\<rparr> = s"
      by simp
    then show ?thesis
      using 1 ne c ok Suc.prems q' by (cases "k = 0") (auto simp: Let_def)
  next
    case 2
    have c4: "c \<noteq> 4"
      unfolding 2 by code_simp
    then have "consread_loop ip (k + Suc n) (Suc n) dst s = consread_done ip (int k + 1) (dst @ [c]) ?t"
      using 2 ne c(1) by (simp add: Let_def add.commute)
    moreover have "d = [c]" "q = q'"
      using 2 Suc.prems(2) q' c4 by auto
    ultimately show ?thesis
      using c ok by auto
  next
    case 3
    then obtain d' where d': "ed_read (Suc k) n (readable ?t) = Some (d', q)" "d = c # d'"
      using Suc.prems(2) q' c(2) by auto
    then show ?thesis
      using Suc.IH [OF ok d'(1), of "dst @ [c]"] 3 ne c by (simp add: Let_def ac_simps)
  qed
qed

section \<open>Claims\<close>

text \<open>
  C38: The console is a line editor. From a state in order, an interrupt that delivers any keys but the
  process listing succeeds and does to the readable bytes, the line being edited and the terminal's output exactly what the abstract
  editor does with those keys: a line becomes readable at its newline, at \<open>^D\<close> or when the buffer is full, kill and backspace never
  take back a readable byte, every deletion is echoed, and nothing is stored into a full buffer. A read that follows takes from the readable bytes up to the
  newline, the end-of-file mark or the count, without sleeping, and leaves the rest and the edited line as they are.
\<close>

theorem console_line_editor:
  fixes s :: "'a inp_st_scheme"
  assumes "crit [] s" "con_ok s" "inp_ok s" "\<forall>c \<in> set cs. 0 \<le> c \<and> c < 256 \<and> c \<noteq> 16"
  shows "\<exists>t. consoleintr cs s = Inr t \<and> crit [] t \<and> con_ok t \<and> inp_ok t \<and> ed_of t = fold ed_key cs (ed_of s) \<and>
    (\<forall>n ip d q. ed_read 0 n (readable t) = Some (d, q) \<longrightarrow>
      (\<exists>u. bindE (acquire ConsLock t) (consread_loop ip n n []) = consread_done ip (int (length d)) d u \<and>
        readable u = q \<and> editing u = editing t \<and> inp_ok u))"
proof -
  let ?a = "acq ConsLock s"
  have a: "acquire ConsLock s = Inr ?a" "crit [ConsLock] ?a"
    using acquire_ok [OF assms(1), of ConsLock] crit_acq [OF assms(1), of ConsLock] by simp_all
  have la: "ed_of ?a = ed_of s" "inp_ok ?a"
    using lines_cong [of ?a s] assms(3) by simp_all
  have "cons_ok ?a"
    using a(2) assms(2) by (simp add: cons_ok_def con_ok_def)
  then obtain t where t: "cons_keys cs ?a = Inr t" "cons_ok t" "inp_ok t" "ed_of t = fold ed_key cs (ed_of s)"
    using cons_keys_ok [of ?a cs] la assms(4) by auto
  let ?r = "rel ConsLock t"
  have c: "crit [ConsLock] t" and co: "con_ok t"
    using t(2) by (simp_all add: cons_ok_def)
  have r: "release ConsLock t = Inr ?r" "crit [] ?r" "con_ok ?r"
    using release_ok [OF c, of ConsLock] crit_rel [OF c, of ConsLock] co by (simp_all add: con_ok_def)
  have lr: "ed_of ?r = ed_of t" "inp_ok ?r"
    using lines_cong [of ?r t] t(3) by simp_all
  have "16 \<notin> set cs"
    using assms(4) by auto
  then have e: "consoleintr cs s = Inr ?r"
    using a(1) t(1) r(1) by (simp add: consoleintr_def)
  have "\<exists>u. bindE (acquire ConsLock ?r) (consread_loop ip n n []) = consread_done ip (int (length d)) d u \<and>
      readable u = q \<and> editing u = editing ?r \<and> inp_ok u" if "ed_read 0 n (readable ?r) = Some (d, q)" for n ip d q
    using consread_loop_ok [of "acq ConsLock ?r" 0 n d q ip "[]"] lines_cong [of "acq ConsLock ?r" ?r] lr(2) that
      acquire_ok [OF r(2), of ConsLock] by simp
  then show ?thesis
    using e r lr t(4) by (intro exI [of _ ?r]) simp
qed

definition ex_inp :: inp_st where
  "ex_inp = (file_st.extend ex_file
     \<lparr>inp_buf = replicate 128 0, inp_r = 0xFFFFFFFF, inp_w = 0xFFFFFFFF, inp_e = 0xFFFFFFFF, kbd_shift = 0, kbd_queue = []\<rparr>)
     \<lparr>panicked := 0, crt_pos := 0\<rparr>"

text \<open>The keys \<open>a b backspace c enter d\<close>; the indices wrap around.\<close>

theorem console_line_editor_witness:
  "\<exists>t. consoleintr [97, 98, 8, 99, 13, 100] ex_inp = Inr t \<and> readable t = [97, 99, 10] \<and> editing t = [100] \<and>
    (\<exists>u. bindE (acquire ConsLock t) (consread_loop 0 10 10 []) = consread_done 0 3 [97, 99, 10] u \<and> readable u = [])"
proof -
  have c: "crit [] ex_inp" "con_ok ex_inp"
    using ex_file_fields(1) by (simp_all add: ex_inp_def file_st.defs con_ok_def)
  have l: "inp_ok ex_inp" "readable ex_inp = []" "editing ex_inp = []"
    by (simp_all add: ex_inp_def file_st.defs inp_ok_def readable_def editing_def)
  have r: "ed_read 0 10 [97, 99, 10] = Some ([97, 99, 10], [])"
    by code_simp
  obtain t where t: "consoleintr [97, 98, 8, 99, 13, 100] ex_inp = Inr t" "readable t = [97, 99, 10]" "editing t = [100]"
    "\<forall>n ip d q. ed_read 0 n (readable t) = Some (d, q) \<longrightarrow>
      (\<exists>u. bindE (acquire ConsLock t) (consread_loop ip n n []) = consread_done ip (int (length d)) d u \<and>
        readable u = q \<and> editing u = editing t \<and> inp_ok u)"
    using console_line_editor [OF c l(1), of "[97, 98, 8, 99, 13, 100]"] l(2,3) by (auto simp: ed_key_def Let_def)
  have "\<exists>u. bindE (acquire ConsLock t) (consread_loop 0 10 10 []) = consread_done 0 3 [97, 99, 10] u \<and> readable u = []"
    using t(4) [rule_format, of 10 "[97, 99, 10]" "[]" 0] r t(2) by auto
  then show ?thesis
    using t(1-3) by blast
qed

end
