(* ===== verification/Syscall_Args.thy ===== *)
theory Syscall_Args
  imports Proc
begin

text \<open>
  The arguments of system calls, the first part of \<open>syscall.c\<close>. The kernel reaches user memory through the page table its processor
  has loaded: \<open>kxlate\<close> is the processor's translation of an access in kernel mode, which ignores the user bit and, with
  write protection on in \<open>cr0\<close>, obeys the write bits. An access with no translation is a \<open>Fault\<close>. A null result of a C
  function is \<open>None\<close> where it fails with \<open>-1\<close>.
\<close>

section \<open>User memory\<close>

definition kxlate :: "bool \<Rightarrow> u32 \<Rightarrow> 'a vm_st_scheme \<Rightarrow> u32 option" where
  "kxlate wr va s =
     (let pde = read32 (mem s) (P2V (cr3 s (lapic s)) + 4 * PDX va) in
      if pde AND PTE_P = 0 then None
      else
        let pte = read32 (mem s) (P2V (PTE_ADDR pde) + 4 * PTX va) in
        if pte AND PTE_P = 0 \<or> wr \<and> (pde AND PTE_W = 0 \<or> pte AND PTE_W = 0) then None
        else Some (P2V (PTE_ADDR pte) + (va AND 0xFFF)))"

definition uload :: "u32 \<Rightarrow> 'a vm_st_scheme \<Rightarrow> u8 kres" where
  "uload va s = (case kxlate False va s of None \<Rightarrow> Inl Fault | Some a \<Rightarrow> Inr (mem s a))"

definition ustore :: "u32 \<Rightarrow> u8 \<Rightarrow> 'a vm_st_scheme \<Rightarrow> ('a vm_st_scheme) kres" where
  "ustore va b s = (case kxlate True va s of None \<Rightarrow> Inl Fault | Some a \<Rightarrow> Inr (s\<lparr>mem := (mem s)(a := b)\<rparr>))"

fun uloads :: "nat \<Rightarrow> u32 \<Rightarrow> 'a vm_st_scheme \<Rightarrow> (u8 list) kres" where
  "uloads 0 va s = Inr []"
| "uloads (Suc n) va s = bindE (uload va s) (\<lambda>b. bindE (uloads n (va + 1) s) (\<lambda>bs. Inr (b # bs)))"

fun ustores :: "u32 \<Rightarrow> u8 list \<Rightarrow> 'a vm_st_scheme \<Rightarrow> ('a vm_st_scheme) kres" where
  "ustores va [] s = Inr s"
| "ustores va (b # bs) s = bindE (ustore va b s) (ustores (va + 1) bs)"

definition le32 :: "u8 list \<Rightarrow> u32" where
  "le32 bs = ucast (bs ! 0) OR push_bit 8 (ucast (bs ! 1)) OR push_bit 16 (ucast (bs ! 2)) OR push_bit 24 (ucast (bs ! 3))"

section \<open>Fetching arguments\<close>

text \<open>\<open>myproc()\<close> where its result is followed.\<close>

definition thisproc :: "'a proc_st_scheme \<Rightarrow> (nat \<times> 'a proc_st_scheme) kres" where
  "thisproc s = bindE (myproc s) (\<lambda>(p, s). case p of None \<Rightarrow> Inl Fault | Some i \<Rightarrow> Inr (i, s))"

definition fetchint :: "u32 \<Rightarrow> 'a proc_st_scheme \<Rightarrow> (u32 option \<times> 'a proc_st_scheme) kres" where
  "fetchint addr s =
     bindE (thisproc s) (\<lambda>(i, s).
     let sz = p_sz (ptable s ! i) in
     if addr \<ge> sz \<or> addr + 4 > sz then Inr (None, s)
     else bindE (uloads 4 addr s) (\<lambda>bs. Inr (Some (le32 bs), s)))"

text \<open>The characters before the terminating zero, looked for in \<open>n\<close> bytes.\<close>

fun str_scan :: "nat \<Rightarrow> u32 \<Rightarrow> 'a vm_st_scheme \<Rightarrow> (u8 list option) kres" where
  "str_scan 0 a s = Inr None"
| "str_scan (Suc n) a s =
     bindE (uload a s) (\<lambda>c. if c = 0 then Inr (Some []) else bindE (str_scan n (a + 1) s) (\<lambda>r. Inr (map_option ((#) c) r)))"

text \<open>The pointer stored is \<open>addr\<close> and the length returned that of the string, which is kept here with them.\<close>

definition fetchstr :: "u32 \<Rightarrow> 'a proc_st_scheme \<Rightarrow> ((u32 \<times> u8 list) option \<times> 'a proc_st_scheme) kres" where
  "fetchstr addr s =
     bindE (thisproc s) (\<lambda>(i, s).
     let sz = p_sz (ptable s ! i) in
     if addr \<ge> sz then Inr (None, s)
     else bindE (str_scan (unat (sz - addr)) addr s) (\<lambda>r. Inr (map_option (Pair addr) r, s)))"

abbreviation (input) TF_EAX :: u32 where "TF_EAX \<equiv> 28"
abbreviation (input) TF_ES :: u32 where "TF_ES \<equiv> 40"
abbreviation (input) TF_DS :: u32 where "TF_DS \<equiv> 44"
abbreviation (input) TF_TRAPNO :: u32 where "TF_TRAPNO \<equiv> 48"
abbreviation (input) TF_ERR :: u32 where "TF_ERR \<equiv> 52"
abbreviation (input) TF_EIP :: u32 where "TF_EIP \<equiv> 56"
abbreviation (input) TF_CS :: u32 where "TF_CS \<equiv> 60"
abbreviation (input) TF_EFLAGS :: u32 where "TF_EFLAGS \<equiv> 64"
abbreviation (input) TF_ESP :: u32 where "TF_ESP \<equiv> 68"
abbreviation (input) TF_SS :: u32 where "TF_SS \<equiv> 72"

definition argint :: "u32 \<Rightarrow> 'a proc_st_scheme \<Rightarrow> (u32 option \<times> 'a proc_st_scheme) kres" where
  "argint n s =
     bindE (thisproc s) (\<lambda>(i, s). fetchint (read32 (mem s) (p_tf (ptable s ! i) + TF_ESP) + 4 + 4 * n) s)"

definition argptr :: "u32 \<Rightarrow> u32 \<Rightarrow> 'a proc_st_scheme \<Rightarrow> (u32 option \<times> 'a proc_st_scheme) kres" where
  "argptr n len s =
     bindE (thisproc s) (\<lambda>(p, s).
     bindE (argint n s) (\<lambda>(r, s). case r of
        None \<Rightarrow> Inr (None, s)
      | Some i \<Rightarrow>
          let sz = p_sz (ptable s ! p) in
          if sint len < 0 \<or> i \<ge> sz \<or> i + len > sz then Inr (None, s) else Inr (Some i, s)))"

definition argstr :: "u32 \<Rightarrow> 'a proc_st_scheme \<Rightarrow> ((u32 \<times> u8 list) option \<times> 'a proc_st_scheme) kres" where
  "argstr n s =
     bindE (argint n s) (\<lambda>(r, s). case r of None \<Rightarrow> Inr (None, s) | Some addr \<Rightarrow> fetchstr addr s)"

section \<open>What the checks establish\<close>

text \<open>The byte of user memory at an address, and what of the state the lookups leave alone.\<close>

definition umem :: "'a vm_st_scheme \<Rightarrow> u32 \<Rightarrow> u8" where
  "umem s va = mem s (the (kxlate False va s))"

definition kept :: "lockid list \<Rightarrow> 'a proc_st_scheme \<Rightarrow> 'a proc_st_scheme \<Rightarrow> bool" where
  "kept L s s' \<longleftrightarrow> crit L s' \<and> curproc s' = curproc s \<and> mem s' = mem s \<and> lapic s' = lapic s \<and> hw.more s' = hw.more s"

text \<open>The memory of the current process is mapped up to its size, which ends below the kernel.\<close>

definition ubelow :: "u32 \<Rightarrow> 'a vm_st_scheme \<Rightarrow> bool" where
  "ubelow sz s \<longleftrightarrow> sz \<le> KERNBASE \<and> (\<forall>va < sz. kxlate False va s \<noteq> None)"

definition word_at :: "u32 \<Rightarrow> u32 \<Rightarrow> 'a vm_st_scheme \<Rightarrow> u32 option" where
  "word_at sz a s =
     (if unat a + 4 \<le> unat sz then Some (le32 (map (\<lambda>k. umem s (a + of_nat k)) [0..<4])) else None)"

definition string_at :: "u32 \<Rightarrow> u32 \<Rightarrow> 'a vm_st_scheme \<Rightarrow> u8 list option" where
  "string_at sz a s =
     (let bs = map (\<lambda>k. umem s (a + of_nat k)) [0..<unat sz - unat a] in
      if 0 \<in> set bs then Some (takeWhile (\<lambda>c. c \<noteq> 0) bs) else None)"

definition arg_at :: "u32 \<Rightarrow> nat \<Rightarrow> 'a proc_st_scheme \<Rightarrow> u32 option" where
  "arg_at n i s =
     word_at (p_sz (ptable s ! i)) (read32 (mem s) (p_tf (ptable s ! i) + TF_ESP) + 4 + 4 * n) s"

lemma myproc_lapic: "myproc s = Inr (p, s') \<Longrightarrow> lapic s' = lapic s"
  by (auto simp: myproc_def pushcli_def popcli_def Let_def cli_def sti_def split: if_splits)

lemma keptD:
  fixes s s' :: "'a proc_st_scheme"
  assumes "kept L s s'"
  shows "crit L s'" "curproc s' = curproc s" "mem s' = mem s" "ptable s' = ptable s" "kxlate w va s' = kxlate w va s"
    "umem s' = umem s" "uload va s' = uload va s"
proof -
  have e: "mem s' = mem s" "lapic s' = lapic s" "cr3 s' = cr3 s"
    using assms hw_more_fields(10) [of s' s] by (simp_all add: kept_def)
  then show x: "kxlate w va s' = kxlate w va s" for w va
    by (simp add: kxlate_def Let_def)
  then show "umem s' = umem s" "uload va s' = uload va s"
    by (simp_all add: umem_def [abs_def] uload_def e split: option.split)
  show "crit L s'" "curproc s' = curproc s" "mem s' = mem s" "ptable s' = ptable s"
    using assms hw_more_fields(12) [of s' s] unfolding kept_def by blast+
qed

lemma kept_trans: "kept L s t \<Longrightarrow> kept L t u \<Longrightarrow> kept L s u"
  unfolding kept_def by metis

lemma sint_nonneg_unat: "0 \<le> sint (x :: u32) \<longleftrightarrow> unat x < 2147483648"
proof -
  have "0 \<le> sint (of_nat n :: u32) \<longleftrightarrow> n < 2147483648" if "n < 4294967296" for n
  proof -
    have "0 \<le> sint (of_nat n :: u32) \<longleftrightarrow> \<not> odd (int n div 2147483648)"
      by (simp add: signed_of_nat bit_iff_odd)
    moreover have "int n div 2147483648 = (if n < 2147483648 then 0 else 1)"
      using that int_div_pos_eq [of "int n" 2147483648 1 "int n - 2147483648"] by auto
    ultimately show ?thesis
      by simp
  qed
  from this [of "unat x"] show ?thesis
    using unat_u32_less [of x] by simp
qed

lemma thisproc_ok:
  assumes "crit L s" "curproc s = Some i"
  shows "\<exists>s'. thisproc s = Inr (i, s') \<and> kept L s s'"
proof -
  obtain s' where "myproc s = Inr (curproc s, s')" "crit L s'" "curproc s' = curproc s" "mem s' = mem s" "hw.more s' = hw.more s"
    using myproc_ok [OF assms(1)] by blast
  then show ?thesis
    using assms(2) myproc_lapic [of s "curproc s" s'] by (simp add: thisproc_def kept_def)
qed

lemma uload_below: "ubelow sz s \<Longrightarrow> va < sz \<Longrightarrow> uload va s = Inr (umem s va)"
  by (auto simp: ubelow_def uload_def umem_def split: option.splits)

lemma below_step:
  assumes "unat va + Suc n \<le> unat (sz :: u32)"
  shows "va < sz" "unat (va + 1) = Suc (unat va)" "unat (va + 1) + n \<le> unat sz"
proof -
  show "va < sz"
    using assms by (simp add: word_less_nat_alt)
  have "unat va + 1 < 2 ^ 32"
    using assms unat_u32_less [of sz] by simp
  then show e: "unat (va + 1) = Suc (unat va)"
    by (simp add: unat_word_ariths)
  then show "unat (va + 1) + n \<le> unat sz"
    using assms by simp
qed

lemma uloads_below:
  "ubelow sz s \<Longrightarrow> unat va + n \<le> unat sz \<Longrightarrow> uloads n va s = Inr (map (\<lambda>k. umem s (va + of_nat k)) [0..<n])"
proof (induction n arbitrary: va)
  case (Suc n)
  note b = below_step [OF Suc.prems(2)]
  have "map (\<lambda>k. umem s (va + of_nat k)) [0..<Suc n] = umem s va # map (\<lambda>k. umem s (va + 1 + of_nat k)) [0..<n]"
    by (simp only: upt_conv_Cons zero_less_Suc map_Suc_upt [symmetric] list.map map_map) (simp add: o_def add.assoc)
  then show ?case
    using Suc.IH [OF Suc.prems(1) b(3)] uload_below [OF Suc.prems(1) b(1)] by simp
qed simp

lemma str_scan_below:
  "ubelow sz s \<Longrightarrow> unat va + n \<le> unat sz \<Longrightarrow>
   str_scan n va s = Inr (let bs = map (\<lambda>k. umem s (va + of_nat k)) [0..<n] in
     if 0 \<in> set bs then Some (takeWhile (\<lambda>c. c \<noteq> 0) bs) else None)"
proof (induction n arbitrary: va)
  case (Suc n)
  note b = below_step [OF Suc.prems(2)]
  have e: "map (\<lambda>k. umem s (va + of_nat k)) [0..<Suc n] = umem s va # map (\<lambda>k. umem s (va + 1 + of_nat k)) [0..<n]"
    by (simp only: upt_conv_Cons zero_less_Suc map_Suc_upt [symmetric] list.map map_map) (simp add: o_def add.assoc)
  show ?case
    unfolding e Let_def using Suc.IH [OF Suc.prems(1) b(3)] uload_below [OF Suc.prems(1) b(1)] by (auto simp: Let_def)
qed simp

lemma below_kept: "kept L s s' \<Longrightarrow> ubelow sz s' \<longleftrightarrow> ubelow sz s"
  by (simp add: ubelow_def keptD(5))

lemma word_at_kept: "kept L s s' \<Longrightarrow> word_at sz a s' = word_at sz a s"
  by (simp add: word_at_def keptD(6))

lemma string_at_kept: "kept L s s' \<Longrightarrow> string_at sz a s' = string_at sz a s"
  by (simp add: string_at_def keptD(6))

lemma fetchint_ok:
  assumes s: "crit L s" "curproc s = Some i" and u: "ubelow (p_sz (ptable s ! i)) s"
  shows "\<exists>s'. fetchint a s = Inr (word_at (p_sz (ptable s ! i)) a s, s') \<and> kept L s s'"
proof -
  let ?sz = "p_sz (ptable s ! i)"
  obtain s' where s': "thisproc s = Inr (i, s')" "kept L s s'"
    using thisproc_ok [OF s] by blast
  have sz: "unat ?sz \<le> 2147483648"
    using u by (simp add: ubelow_def word_le_nat_alt)
  have c: "a \<ge> ?sz \<or> a + 4 > ?sz \<longleftrightarrow> \<not> unat a + 4 \<le> unat ?sz"
  proof (cases "a < ?sz")
    case True
    then have "unat a + 4 < 2 ^ 32"
      using sz by (simp add: word_less_nat_alt)
    then have "unat (a + 4) = unat a + 4"
      by (simp add: unat_word_ariths)
    then show ?thesis
      using True by (auto simp: word_less_nat_alt word_le_nat_alt)
  next
    case False
    then show ?thesis
      by (auto simp: word_less_nat_alt word_le_nat_alt)
  qed
  show ?thesis
  proof (cases "unat a + 4 \<le> unat ?sz")
    case True
    then have "uloads 4 a s' = Inr (map (\<lambda>k. umem s (a + of_nat k)) [0..<4])"
      using uloads_below [of ?sz s' a 4] u below_kept [OF s'(2)] keptD(6) [OF s'(2)] by simp
    then show ?thesis
      using s' c True keptD(4) [OF s'(2)] by (simp add: fetchint_def word_at_def Let_def)
  next
    case False
    then have "a \<ge> ?sz \<or> a + 4 > ?sz"
      using c by blast
    then show ?thesis
      using s' False keptD(4) [OF s'(2)] by (auto simp: fetchint_def word_at_def Let_def)
  qed
qed

lemma argint_ok:
  assumes s: "crit L s" "curproc s = Some i" and u: "ubelow (p_sz (ptable s ! i)) s"
  shows "\<exists>s'. argint n s = Inr (arg_at n i s, s') \<and> kept L s s'"
proof -
  obtain s1 where s1: "thisproc s = Inr (i, s1)" "kept L s s1"
    using thisproc_ok [OF s] by blast
  let ?a = "read32 (mem s) (p_tf (ptable s ! i) + TF_ESP) + 4 + 4 * n"
  obtain s2 where "fetchint ?a s1 = Inr (word_at (p_sz (ptable s ! i)) ?a s1, s2)" "kept L s1 s2"
    using fetchint_ok [of L s1 i ?a] keptD [OF s1(2)] s(2) u below_kept [OF s1(2)] by auto
  then show ?thesis
    using s1 keptD(3,4) [OF s1(2)] kept_trans [OF s1(2)] word_at_kept [OF s1(2)] by (auto simp: argint_def arg_at_def)
qed

lemma fetchstr_ok:
  assumes s: "crit L s" "curproc s = Some i" and u: "ubelow (p_sz (ptable s ! i)) s"
  shows "\<exists>s'. fetchstr a s = Inr (map_option (Pair a) (string_at (p_sz (ptable s ! i)) a s), s') \<and> kept L s s'"
proof -
  let ?sz = "p_sz (ptable s ! i)"
  obtain s' where s': "thisproc s = Inr (i, s')" "kept L s s'"
    using thisproc_ok [OF s] by blast
  show ?thesis
  proof (cases "a \<ge> ?sz")
    case True
    then have "unat ?sz - unat a = 0"
      by (simp add: word_le_nat_alt)
    then show ?thesis
      using True s' keptD(4) [OF s'(2)] by (auto simp: fetchstr_def string_at_def Let_def)
  next
    case False
    then have e: "unat (?sz - a) = unat ?sz - unat a" "unat a + unat (?sz - a) \<le> unat ?sz"
      by (simp_all add: unat_sub word_le_nat_alt)
    then have "str_scan (unat (?sz - a)) a s' = Inr (string_at ?sz a s')"
      using str_scan_below [of ?sz s' a "unat (?sz - a)"] u below_kept [OF s'(2)] by (simp add: string_at_def)
    then show ?thesis
      using False s' keptD(4) [OF s'(2)] string_at_kept [OF s'(2)] by (auto simp: fetchstr_def Let_def)
  qed
qed

section \<open>Claims\<close>

text \<open>
  C39: The argument checks are exact and safe. With the memory of the process mapped up to its size, no fetch ever faults or changes the
  process or memory. An argument word is read exactly when its four bytes lie below the size of the process, even
  where the address arithmetic wraps around. A pointer is accepted exactly when the block of the given non-negative length it points to starts and
  ends inside the process. A string is accepted exactly when a zero byte follows it inside the process, and is then the bytes before the first one.
\<close>

theorem syscall_args_checked:
  assumes s: "crit [] s" "curproc s = Some i" and u: "ubelow (p_sz (ptable s ! i)) s"
  shows "(\<exists>s'. argint n s = Inr (arg_at n i s, s') \<and> kept [] s s') \<and>
    (\<exists>s'. argptr n len s = Inr (case arg_at n i s of None \<Rightarrow> None
        | Some p \<Rightarrow> if 0 \<le> sint len \<and> unat p < unat (p_sz (ptable s ! i)) \<and> unat p + unat len \<le> unat (p_sz (ptable s ! i))
            then Some p else None, s') \<and> kept [] s s') \<and>
    (\<exists>s'. argstr n s = Inr (case arg_at n i s of None \<Rightarrow> None
        | Some a \<Rightarrow> map_option (Pair a) (string_at (p_sz (ptable s ! i)) a s), s') \<and> kept [] s s')"
proof -
  let ?sz = "p_sz (ptable s ! i)"
  have sz: "unat ?sz \<le> 2147483648"
    using u by (simp add: ubelow_def word_le_nat_alt)
  have b: "sint len < 0 \<or> p \<ge> ?sz \<or> p + len > ?sz \<longleftrightarrow> \<not> (0 \<le> sint len \<and> unat p < unat ?sz \<and> unat p + unat len \<le> unat ?sz)" for p
  proof (cases "0 \<le> sint len \<and> p < ?sz")
    case True
    then have l: "unat len < 2147483648"
      by (simp add: sint_nonneg_unat)
    have "unat p + unat len < 2 ^ 32"
      using True l sz by (simp add: word_less_nat_alt)
    then have "unat (p + len) = unat p + unat len"
      by (simp add: unat_word_ariths)
    then show ?thesis
      using True by (auto simp: word_less_nat_alt word_le_nat_alt)
  qed (auto simp: word_less_nat_alt word_le_nat_alt)
  obtain s1 where s1: "thisproc s = Inr (i, s1)" "kept [] s s1"
    using thisproc_ok [OF s] by blast
  obtain s2 where s2: "argint n s1 = Inr (arg_at n i s, s2)" "kept [] s1 s2"
    using argint_ok [of "[]" s1 i n] keptD [OF s1(2)] s(2) u below_kept [OF s1(2)] word_at_kept [OF s1(2)]
    by (auto simp: arg_at_def)
  have k2: "kept [] s s2"
    by (rule kept_trans [OF s1(2) s2(2)])
  have p: "\<exists>s'. argptr n len s = Inr (case arg_at n i s of None \<Rightarrow> None
        | Some p \<Rightarrow> if 0 \<le> sint len \<and> unat p < unat ?sz \<and> unat p + unat len \<le> unat ?sz then Some p else None, s') \<and> kept [] s s'"
  proof (cases "arg_at n i s")
    case None
    then show ?thesis
      using s1(1) s2(1) k2 by (simp add: argptr_def)
  next
    case (Some p)
    then show ?thesis
      using s1(1) s2(1) k2 b [of p] keptD(4) [OF k2] by (auto simp: argptr_def Let_def)
  qed
  obtain s3 where s3: "argint n s = Inr (arg_at n i s, s3)" "kept [] s s3"
    using argint_ok [OF s u] by blast
  have "\<exists>s'. argstr n s = Inr (case arg_at n i s of None \<Rightarrow> None
        | Some a \<Rightarrow> map_option (Pair a) (string_at ?sz a s), s') \<and> kept [] s s'"
  proof (cases "arg_at n i s")
    case None
    then show ?thesis
      using s3 by (simp add: argstr_def)
  next
    case (Some a)
    obtain s4 where "fetchstr a s3 = Inr (map_option (Pair a) (string_at ?sz a s), s4)" "kept [] s3 s4"
      using fetchstr_ok [of "[]" s3 i a] keptD [OF s3(2)] s(2) u below_kept [OF s3(2)] string_at_kept [OF s3(2)] by auto
    then show ?thesis
      using s3 Some kept_trans [OF s3(2)] by (auto simp: argstr_def)
  qed
  with p s3 show ?thesis
    by blast
qed

text \<open>A state in which every page is mapped to the page of its own page table, and a string of four bytes lies in it.\<close>

definition ex_args :: proc_st where
  "ex_args = ex_procs\<lparr>mem := (\<lambda>a. if a = 0x8707070B then 0 else 7), cr3 := (\<lambda>_. 0),
     ptable := (ptable ex_procs)[0 := (ptable ex_procs ! 0)\<lparr>p_sz := 0x07070714, p_tf := 0\<rparr>]\<rparr>"

lemma ex_args_fields: "mem ex_args = (\<lambda>a. if a = 0x8707070B then 0 else 7)" "cr3 ex_args i = 0"
  "crit [] ex_args" "curproc ex_args = Some 0" "p_sz (ptable ex_args ! 0) = 0x07070714" "p_tf (ptable ex_args ! 0) = 0"
  using ex_procs_fields(1) by (simp_all add: ex_args_def)
    (simp_all add: curproc_def curcpu_def ex_procs_def ex_con_def ex_kmem_def ex_hw_def con_st.defs kmem_st.defs hw.defs)

lemma ex_args_xlate: "kxlate False va ex_args \<noteq> None"
proof -
  have low: "read32 (mem ex_args) a AND 1 \<noteq> 0" if "even a" for a
  proof -
    have "a \<noteq> 0x8707070B"
      using that by auto
    then have "bit (read32 (mem ex_args) a) 0"
      by (simp add: read32_def ex_args_fields(1) bit_simps)
    then show ?thesis
      by (simp add: and_one_eq bit_0 odd_iff_mod_2_eq_one)
  qed
  show ?thesis
    using low [of "P2V (cr3 ex_args (lapic ex_args)) + 4 * PDX va"]
      low [of "P2V (PTE_ADDR (read32 (mem ex_args) (P2V (cr3 ex_args (lapic ex_args)) + 4 * PDX va))) + 4 * PTX va"]
    by (simp add: kxlate_def Let_def ex_args_fields(2) P2V_def PTE_ADDR_def even_and_iff)
qed

lemma ex_args_umem: "PDX va = 0x1C \<Longrightarrow> PTX va = 0x70 \<Longrightarrow> umem ex_args va = (if va AND 0xFFF = 0x70B then 0 else 7)"
proof -
  assume p: "PDX va = 0x1C" "PTX va = 0x70"
  have "read32 (mem ex_args) 0x80000070 = 0x07070707" "read32 (mem ex_args) 0x870701C0 = 0x07070707"
    by (simp_all add: read32_def ex_args_fields(1))
  then have x: "kxlate False va ex_args = Some (0x87070000 + (va AND 0xFFF))"
    using p by (simp add: kxlate_def Let_def ex_args_fields(2) P2V_def PTE_ADDR_def)
  have "0x87070000 + x = 0x8707070B \<longleftrightarrow> x = 0x70B" for x :: u32
    using add_left_cancel [of "0x87070000" x "0x70B"] by simp
  then show "umem ex_args va = (if va AND 0xFFF = 0x70B then 0 else 7)"
    by (simp add: umem_def x ex_args_fields(1))
qed

theorem syscall_args_checked_witness:
  "\<exists>s'. argstr 1 ex_args = Inr (Some (0x07070707, [7, 7, 7, 7]), s')"
proof -
  have u: "ubelow (p_sz (ptable ex_args ! 0)) ex_args"
    using ex_args_xlate by (simp add: ubelow_def ex_args_fields(5))
  have "arg_at 1 0 ex_args = Some 0x07070707"
    by (simp add: arg_at_def word_at_def le32_def read32_def ex_args_fields ex_args_umem PDX_def PTX_def)
  moreover have "string_at 0x07070714 0x07070707 ex_args = Some [7, 7, 7, 7]"
  proof -
    have "[0..<13] = [0, 1, 2, 3, 4, 5, 6, 7, 8, 9, 10, 11, 12 :: nat]"
      by code_simp
    then have "map (\<lambda>k. umem ex_args (0x07070707 + of_nat k)) [0..<13] = [7, 7, 7, 7, 0, 7, 7, 7, 7, 7, 7, 7, 7]"
      by (simp add: ex_args_umem PDX_def PTX_def)
    then show ?thesis
      by (simp add: string_at_def Let_def del: set_map set_upt list.set_map)
  qed
  ultimately show ?thesis
    using syscall_args_checked [OF ex_args_fields(3,4) u, where n = 1] ex_args_fields(5) by auto
qed

end
