(* ===== verification/Process.thy ===== *)
theory Process
  imports File Syscall_Args
begin

text \<open>
  The life of a process, the part of \<open>proc.c\<close> that needs the file system: \<open>userinit\<close>, \<open>growproc\<close>, \<open>fork\<close>, \<open>exit\<close>, \<open>wait\<close> and \<open>forkret\<close>.
  A wait that finds no exited child is cut where it sleeps, as in \<open>Pipe\<close>; \<open>exit\<close> ends where it switches to the
  scheduler. The address and size of the linked \<open>initcode\<close> are arguments of \<open>userinit\<close>.
\<close>

section \<open>Operations\<close>

definition set_name :: "string \<Rightarrow> proc \<Rightarrow> proc" where
  "set_name nm p = p\<lparr>p_name := take 15 nm\<rparr>"

text \<open>The stores to the trap frame at \<open>tf\<close> that start the first process.\<close>

definition init_frame :: "u32 \<Rightarrow> memory \<Rightarrow> memory" where
  "init_frame tf m =
     (let m = memset m tf 0 SIZEOF_TRAPFRAME;
          m = write16 m (tf + TF_CS) 0x1B;
          m = write16 m (tf + TF_DS) 0x23;
          m = write16 m (tf + TF_ES) (read16 m (tf + TF_DS));
          m = write16 m (tf + TF_SS) (read16 m (tf + TF_DS));
          m = write32 m (tf + TF_EFLAGS) FL_IF;
          m = write32 m (tf + TF_ESP) PGSIZE in
      write32 m (tf + TF_EIP) 0)"

definition userinit :: "'a fs_st_scheme devsw \<Rightarrow> u32 \<Rightarrow> u32 \<Rightarrow> 'a fs_st_scheme \<Rightarrow> ('a fs_st_scheme) kres" where
  "userinit dv start sz s =
     bindE (allocproc s) (\<lambda>(r, s).
     let s = s\<lparr>initproc := r\<rparr> in
     case r of None \<Rightarrow> Inl Fault
     | Some p \<Rightarrow>
         bindE (setupkvm s) (\<lambda>(d, s).
         let s = proc_upd p (\<lambda>x. x\<lparr>p_pgdir := d\<rparr>) s in
         if d = 0 then Inl (Panic ''userinit: out of memory?'')
         else
           bindE (inituvm d start sz s) (\<lambda>s.
           let s = proc_upd p (\<lambda>x. x\<lparr>p_sz := PGSIZE\<rparr>) s;
               s = s\<lparr>mem := init_frame (p_tf (ptable s ! p)) (mem s)\<rparr>;
               s = proc_upd p (set_name ''initcode'') s in
           bindE (namei dv [SLASH] s) (\<lambda>(ip, s).
           let s = proc_upd p (\<lambda>x. x\<lparr>p_cwd := ip\<rparr>) s in
           bindE (acquire PtableLock s) (\<lambda>s.
           release PtableLock (proc_upd p (\<lambda>x. x\<lparr>p_state := RUNNABLE\<rparr>) s))))))"

definition growproc :: "u32 \<Rightarrow> 'a proc_st_scheme \<Rightarrow> (int \<times> 'a proc_st_scheme) kres" where
  "growproc n s =
     bindE (thisproc s) (\<lambda>(i, s).
     let sz = p_sz (ptable s ! i); d = p_pgdir (ptable s ! i) in
     bindE (if sint n > 0 then allocuvm d sz (sz + n) s
            else if sint n < 0 then deallocuvm d sz (sz + n) s
            else Inr (sz, s)) (\<lambda>(sz', s).
     if n \<noteq> 0 \<and> sz' = 0 then Inr (-1, s)
     else
       bindE (switchuvm (Some i) (proc_upd i (\<lambda>x. x\<lparr>p_sz := sz'\<rparr>) s)) (\<lambda>s. Inr (0, s))))"

fun fork_files :: "nat list \<Rightarrow> nat \<Rightarrow> nat \<Rightarrow> 'a file_st_scheme \<Rightarrow> ('a file_st_scheme) kres" where
  "fork_files [] c np s = Inr s"
| "fork_files (i # is) c np s =
     (case p_ofile (ptable s ! c) ! i of
        None \<Rightarrow> fork_files is c np s
      | Some f \<Rightarrow>
          bindE (filedup f s) (\<lambda>(f, s).
          fork_files is c np (proc_upd np (\<lambda>x. x\<lparr>p_ofile := (p_ofile x)[i := Some f]\<rparr>) s)))"

definition fork :: "'a file_st_scheme \<Rightarrow> (int \<times> 'a file_st_scheme) kres" where
  "fork s =
     bindE (thisproc s) (\<lambda>(c, s).
     bindE (allocproc s) (\<lambda>(r, s). case r of
        None \<Rightarrow> Inr (-1, s)
      | Some np \<Rightarrow>
          bindE (copyuvm (p_pgdir (ptable s ! c)) (p_sz (ptable s ! c)) s) (\<lambda>(d, s).
          let s = proc_upd np (\<lambda>x. x\<lparr>p_pgdir := d\<rparr>) s in
          if d = 0 then
            bindE (kfree (p_kstack (ptable s ! np)) s) (\<lambda>s.
            Inr (-1, proc_upd np (\<lambda>x. x\<lparr>p_kstack := 0, p_state := UNUSED\<rparr>) s))
          else
            let s = proc_upd np (\<lambda>x. x\<lparr>p_sz := p_sz (ptable s ! c), p_parent := Some c\<rparr>) s;
                tf = p_tf (ptable s ! np);
                s = s\<lparr>mem := memmove (mem s) tf (p_tf (ptable s ! c)) SIZEOF_TRAPFRAME\<rparr>;
                s = s\<lparr>mem := write32 (mem s) (tf + TF_EAX) 0\<rparr> in
            bindE (fork_files [0..<NOFILE] c np s) (\<lambda>s.
            case p_cwd (ptable s ! c) of None \<Rightarrow> Inl Fault
            | Some ip \<Rightarrow>
                bindE (idup ip s) (\<lambda>(ip, s).
                let s = proc_upd np (\<lambda>x. x\<lparr>p_cwd := Some ip\<rparr>) s;
                    s = proc_upd np (set_name (p_name (ptable s ! c))) s;
                    pid = p_pid (ptable s ! np) in
                bindE (acquire PtableLock s) (\<lambda>s.
                bindE (release PtableLock (proc_upd np (\<lambda>x. x\<lparr>p_state := RUNNABLE\<rparr>) s)) (\<lambda>s. Inr (pid, s))))))))"

fun exit_files :: "nat list \<Rightarrow> nat \<Rightarrow> 'a file_st_scheme \<Rightarrow> ('a file_st_scheme) kres" where
  "exit_files [] c s = Inr s"
| "exit_files (fd # fds) c s =
     (case p_ofile (ptable s ! c) ! fd of
        None \<Rightarrow> exit_files fds c s
      | Some f \<Rightarrow>
          bindE (fileclose f s) (\<lambda>s.
          exit_files fds c (proc_upd c (\<lambda>x. x\<lparr>p_ofile := (p_ofile x)[fd := None]\<rparr>) s)))"

text \<open>\<open>wakeup1\<close> of a process pointer, which may be null.\<close>

definition wakeup1p :: "nat option \<Rightarrow> 'a proc_st_scheme \<Rightarrow> 'a proc_st_scheme" where
  "wakeup1p q s =
     s\<lparr>ptable := map (\<lambda>p. if p_state p = SLEEPING \<and> p_chan p = map_option ChProc q then p\<lparr>p_state := RUNNABLE\<rparr> else p) (ptable s)\<rparr>"

fun reparent :: "nat list \<Rightarrow> nat \<Rightarrow> 'a proc_st_scheme \<Rightarrow> 'a proc_st_scheme" where
  "reparent [] c s = s"
| "reparent (j # js) c s =
     (if p_parent (ptable s ! j) = Some c then
        let s = proc_upd j (\<lambda>x. x\<lparr>p_parent := initproc s\<rparr>) s in
        reparent js c (if p_state (ptable s ! j) = ZOMBIE then wakeup1p (initproc s) s else s)
      else reparent js c s)"

definition exit_tail :: "nat \<Rightarrow> 'a proc_st_scheme \<Rightarrow> ('a proc_st_scheme) kres" where
  "exit_tail c s =
     bindE (acquire PtableLock s) (\<lambda>s.
     let s = wakeup1p (p_parent (ptable s ! c)) s;
         s = reparent [0..<length (ptable s)] c s;
         s = proc_upd c (\<lambda>x. x\<lparr>p_state := ZOMBIE\<rparr>) s in
     bindE (sched_out s) (\<lambda>(_, s). Inr s))"

definition exit :: "'a file_st_scheme \<Rightarrow> ('a file_st_scheme) kres" where
  "exit s =
     bindE (thisproc s) (\<lambda>(c, s).
     if Some c = initproc s then Inl (Panic ''init exiting'')
     else
       bindE (exit_files [0..<NOFILE] c s) (\<lambda>s.
       bindE (begin_op s) (\<lambda>s.
       case p_cwd (ptable s ! c) of None \<Rightarrow> Inl Fault
       | Some ip \<Rightarrow>
           bindE (iput ip s) (\<lambda>s.
           bindE (end_op s) (\<lambda>s.
           exit_tail c (proc_upd c (\<lambda>x. x\<lparr>p_cwd := None\<rparr>) s))))))"

fun find_zombie :: "proc list \<Rightarrow> nat \<Rightarrow> nat \<Rightarrow> nat option" where
  "find_zombie [] c j = None"
| "find_zombie (p # ps) c j = (if p_parent p = Some c \<and> p_state p = ZOMBIE then Some j else find_zombie ps c (Suc j))"

definition wait_reap :: "nat \<Rightarrow> 'a proc_st_scheme \<Rightarrow> (int \<times> 'a proc_st_scheme) kres" where
  "wait_reap j s =
     (let pid = p_pid (ptable s ! j) in
      bindE (kfree (p_kstack (ptable s ! j)) s) (\<lambda>s.
      let s = proc_upd j (\<lambda>x. x\<lparr>p_kstack := 0\<rparr>) s in
      bindE (freevm (p_pgdir (ptable s ! j)) s) (\<lambda>s.
      let s = proc_upd j (\<lambda>x. x\<lparr>p_pid := 0, p_parent := None, p_name := [], p_killed := 0, p_state := UNUSED\<rparr>) s in
      bindE (release PtableLock s) (\<lambda>s. Inr (pid, s)))))"

definition wait_loop :: "nat \<Rightarrow> 'a proc_st_scheme \<Rightarrow> ((int + nat \<times> u32) \<times> 'a proc_st_scheme) kres" where
  "wait_loop c s =
     (case find_zombie (ptable s) c 0 of
        Some j \<Rightarrow> bindE (wait_reap j s) (\<lambda>(pid, s). Inr (Inl pid, s))
      | None \<Rightarrow>
          if \<not> (\<exists>p \<in> set (ptable s). p_parent p = Some c) \<or> p_killed (ptable s ! c) \<noteq> 0
          then bindE (release PtableLock s) (\<lambda>s. Inr (Inl (-1), s))
          else bindE (sleep_out (ChProc c) PtableLock s) (\<lambda>(i, e, s). Inr (Inr (i, e), s)))"

definition wait :: "'a proc_st_scheme \<Rightarrow> ((int + nat \<times> u32) \<times> 'a proc_st_scheme) kres" where
  "wait s = bindE (thisproc s) (\<lambda>(c, s). bindE (acquire PtableLock s) (wait_loop c))"

definition wait_resume :: "nat \<times> u32 \<Rightarrow> 'a proc_st_scheme \<Rightarrow> ((int + nat \<times> u32) \<times> 'a proc_st_scheme) kres" where
  "wait_resume w s = (case w of (c, e) \<Rightarrow> bindE (sleep_in PtableLock c e s) (wait_loop c))"

text \<open>The static variable \<open>first\<close> is the argument.\<close>

definition forkret_run :: "bool \<Rightarrow> 'a fs_st_scheme \<Rightarrow> ('a fs_st_scheme) kres" where
  "forkret_run first s =
     bindE (release PtableLock s) (\<lambda>s.
       if first then bindE (iinit ROOTDEV s) (initlog ROOTDEV) else Inr s)"

section \<open>Exit meets wait\<close>

text \<open>No process sleeps in \<open>wait\<close> while it has an exited child.\<close>

definition waiting :: "proc list \<Rightarrow> nat \<Rightarrow> bool" where
  "waiting ps q \<longleftrightarrow> p_state (ps ! q) = SLEEPING \<and> p_chan (ps ! q) = Some (ChProc q)"

definition none_missed :: "proc list \<Rightarrow> bool" where
  "none_missed ps \<longleftrightarrow> (\<forall>q j. q < length ps \<longrightarrow> waiting ps q \<longrightarrow> j < length ps \<longrightarrow> p_parent (ps ! j) = Some q \<longrightarrow> p_state (ps ! j) \<noteq> ZOMBIE)"

definition wake1 :: "nat option \<Rightarrow> proc \<Rightarrow> proc" where
  "wake1 q p = (if p_state p = SLEEPING \<and> p_chan p = map_option ChProc q then p\<lparr>p_state := RUNNABLE\<rparr> else p)"

lemma wakeup1p_eq: "wakeup1p q s = s\<lparr>ptable := map (wake1 q) (ptable s)\<rparr>"
  by (simp add: wakeup1p_def wake1_def)

lemma wake1_fields [simp]: "p_parent (wake1 q p) = p_parent p" "p_chan (wake1 q p) = p_chan p"
  "p_state (wake1 q p) = ZOMBIE \<longleftrightarrow> p_state p = ZOMBIE" "p_state (wake1 q p) = RUNNING \<longleftrightarrow> p_state p = RUNNING"
  by (auto simp: wake1_def)

lemma wake1_sleeping: "p_state (wake1 q p) = SLEEPING \<longleftrightarrow> p_state p = SLEEPING \<and> p_chan p \<noteq> map_option ChProc q"
  by (auto simp: wake1_def)

text \<open>What the loop over the children of \<open>c\<close> does to the table.\<close>

definition rep1 :: "bool \<Rightarrow> nat \<Rightarrow> nat option \<Rightarrow> proc \<Rightarrow> proc \<Rightarrow> bool" where
  "rep1 b c k p p' \<longleftrightarrow> p_parent p' = (if b \<and> p_parent p = Some c then k else p_parent p) \<and> p_chan p' = p_chan p \<and>
     (p_state p' = p_state p \<or> p_state p' = p_state (wake1 k p))"

definition reparented :: "nat set \<Rightarrow> nat \<Rightarrow> nat option \<Rightarrow> proc list \<Rightarrow> proc list \<Rightarrow> bool" where
  "reparented J c k ps ps' \<longleftrightarrow> length ps' = length ps \<and> (\<forall>j < length ps. rep1 (j \<in> J) c k (ps ! j) (ps' ! j))"

lemma rep1_trans: "rep1 b c (Some k) p q \<Longrightarrow> rep1 b' c (Some k) q r \<Longrightarrow> k \<noteq> c \<Longrightarrow> rep1 (b \<or> b') c (Some k) p r"
  by (auto simp: rep1_def wake1_def split: if_splits)

lemma rep1_sleeping: "rep1 b c k p p' \<Longrightarrow> p_state p' = SLEEPING \<Longrightarrow> p_state p = SLEEPING"
  by (auto simp: rep1_def wake1_def split: if_splits)

lemma none_missed_step:
  fixes k :: nat
  assumes "none_missed ps" "j < length ps"
  defines "qs \<equiv> ps[j := (ps ! j)\<lparr>p_parent := Some k\<rparr>]"
  shows "p_state (ps ! j) \<noteq> ZOMBIE \<Longrightarrow> none_missed qs" "none_missed (map (wake1 (Some k)) qs)"
proof -
  have q: "length qs = length ps" "\<And>i. i < length ps \<Longrightarrow> p_state (qs ! i) = p_state (ps ! i) \<and> p_chan (qs ! i) = p_chan (ps ! i) \<and>
      p_parent (qs ! i) = (if i = j then Some k else p_parent (ps ! i))"
    using assms(2) by (auto simp: qs_def nth_list_update)
  show "p_state (ps ! j) \<noteq> ZOMBIE \<Longrightarrow> none_missed qs"
    using assms(1) q by (auto simp: none_missed_def waiting_def split: if_splits)
  show "none_missed (map (wake1 (Some k)) qs)"
    using assms(1) q by (auto simp: none_missed_def waiting_def wake1_sleeping split: if_splits)
qed

lemma reparented_trans:
  assumes "reparented J c (Some k) ps qs" "reparented K c (Some k) qs rs" "k \<noteq> c"
  shows "reparented (J \<union> K) c (Some k) ps rs"
  using assms rep1_trans [OF _ _ assms(3)] by (auto simp: reparented_def)

lemma reparent_ok:
  assumes "none_missed (ptable s)" "initproc s = Some k" "k \<noteq> c" "set js \<subseteq> {..<length (ptable s)}"
  shows "\<exists>ps. reparent js c s = s\<lparr>ptable := ps\<rparr> \<and> none_missed ps \<and> reparented (set js) c (Some k) (ptable s) ps"
  using assms
proof (induction js arbitrary: s)
  case Nil
  then show ?case
    by (intro exI [of _ "ptable s"]) (simp add: reparented_def rep1_def)
next
  case (Cons j js)
  let ?qs = "(ptable s)[j := (ptable s ! j)\<lparr>p_parent := Some k\<rparr>]"
  have j: "j < length (ptable s)"
    using Cons.prems(4) by simp
  show ?case
  proof (cases "p_parent (ptable s ! j) = Some c")
    case False
    obtain ps where "reparent js c s = s\<lparr>ptable := ps\<rparr>" "none_missed ps" "reparented (set js) c (Some k) (ptable s) ps"
      using Cons.IH [OF Cons.prems(1-3)] Cons.prems(4) by auto
    then show ?thesis
      using False by (auto simp: reparented_def rep1_def)
  next
    case True
    define rs where "rs = (if p_state (ptable s ! j) = ZOMBIE then map (wake1 (Some k)) ?qs else ?qs)"
    have n: "none_missed rs" "length rs = length (ptable s)"
      using none_missed_step [OF Cons.prems(1) j, of k] by (simp_all add: rs_def)
    have "reparented {j} c (Some k) (ptable s) rs"
      using j True by (auto simp: reparented_def rep1_def rs_def nth_list_update wake1_def)
    moreover obtain ps where ps: "reparent js c (s\<lparr>ptable := rs\<rparr>) = s\<lparr>ptable := ps\<rparr>" "none_missed ps"
      "reparented (set js) c (Some k) rs ps"
      using Cons.IH [of "s\<lparr>ptable := rs\<rparr>"] n Cons.prems(2-4) by auto
    ultimately have "reparented (set (j # js)) c (Some k) (ptable s) ps"
      using reparented_trans [of "{j}" c k "ptable s" rs "set js" ps] Cons.prems(3) by simp
    moreover have "reparent (j # js) c s = s\<lparr>ptable := ps\<rparr>"
      using ps(1) True j Cons.prems(2)
      by (cases "p_state (ptable s ! j) = ZOMBIE") (simp_all add: rs_def proc_upd_def wakeup1p_eq Let_def)
    ultimately show ?thesis
      using ps(2) by blast
  qed
qed

lemma none_missed_wake: "none_missed ps \<Longrightarrow> none_missed (map (wake1 q) ps)"
  by (auto simp: none_missed_def waiting_def wake1_sleeping)

lemma none_missed_zombie:
  assumes "none_missed ps" "c < length ps" "p_state (ps ! c) = RUNNING"
    and "\<And>q. p_parent (ps ! c) = Some q \<Longrightarrow> q < length ps \<Longrightarrow> \<not> waiting ps q"
  shows "none_missed (ps[c := (ps ! c)\<lparr>p_state := ZOMBIE\<rparr>])"
  using assms by (auto simp: none_missed_def waiting_def nth_list_update split: if_splits)

lemma none_missed_sleep:
  assumes "none_missed ps" "c < length ps" "\<forall>j < length ps. p_parent (ps ! j) = Some c \<longrightarrow> p_state (ps ! j) \<noteq> ZOMBIE"
  shows "none_missed (ps[c := (ps ! c)\<lparr>p_chan := Some (ChProc c), p_state := SLEEPING\<rparr>])"
  using assms by (auto simp: none_missed_def waiting_def nth_list_update split: if_splits)

lemma find_zombie_None: "find_zombie ps c n = None \<longleftrightarrow> (\<forall>j < length ps. p_parent (ps ! j) = Some c \<longrightarrow> p_state (ps ! j) \<noteq> ZOMBIE)"
proof -
  have "find_zombie ps c n = None \<longleftrightarrow> (\<forall>p \<in> set ps. p_parent p = Some c \<longrightarrow> p_state p \<noteq> ZOMBIE)"
    by (induction ps arbitrary: n) auto
  then show ?thesis
    by (auto simp: all_set_conv_all_nth)
qed

lemma exit_tail_ok:
  fixes s :: "'a proc_st_scheme"
  assumes s: "crit [] s" "curproc s = Some c" "c < length (ptable s)" "p_state (ptable s ! c) = RUNNING"
    and n: "none_missed (ptable s)" and k: "initproc s = Some k" "k \<noteq> c" "p_parent (ptable s ! c) \<noteq> Some c"
  shows "\<exists>s'. exit_tail c s = Inr s' \<and> crit [PtableLock] s' \<and> none_missed (ptable s') \<and> length (ptable s') = length (ptable s) \<and>
    p_state (ptable s' ! c) = ZOMBIE \<and>
    (\<forall>j < length (ptable s). p_parent (ptable s' ! j) = (if p_parent (ptable s ! j) = Some c then Some k else p_parent (ptable s ! j)))"
proof -
  let ?a = "acq PtableLock s" and ?q = "p_parent (ptable s ! c)"
  define ps1 where "ps1 = map (wake1 ?q) (ptable s)"
  have a: "acquire PtableLock s = Inr ?a" "crit [PtableLock] ?a" "curproc ?a = Some c"
    using acquire_ok [OF s(1), of PtableLock] crit_acq [OF s(1), of PtableLock] curproc_acq [OF s(1)] s(2) by simp_all
  have n1: "none_missed ps1" "length ps1 = length (ptable s)"
    using none_missed_wake [OF n] by (simp_all add: ps1_def)
  obtain ps2 where ps2: "reparent [0..<length ps1] c (?a\<lparr>ptable := ps1\<rparr>) = ?a\<lparr>ptable := ps2\<rparr>" "none_missed ps2"
    "reparented {..<length ps1} c (Some k) ps1 ps2"
    using reparent_ok [of "?a\<lparr>ptable := ps1\<rparr>" k c "[0..<length ps1]"] n1 k by (auto simp: lessThan_atLeast0)
  let ?ps3 = "ps2[c := (ps2 ! c)\<lparr>p_state := ZOMBIE\<rparr>]"
  have l2: "length ps2 = length (ptable s)"
    using ps2(3) n1(2) by (simp add: reparented_def)
  have f: "p_parent (ps2 ! j) = (if p_parent (ptable s ! j) = Some c then Some k else p_parent (ptable s ! j))"
    "p_chan (ps2 ! j) = p_chan (ptable s ! j)" "p_state (ps2 ! j) = SLEEPING \<Longrightarrow> p_state (wake1 ?q (ptable s ! j)) = SLEEPING"
    if "j < length (ptable s)" for j
  proof -
    have x: "rep1 True c (Some k) (wake1 ?q (ptable s ! j)) (ps2 ! j)"
      using ps2(3) that n1(2) by (auto simp: reparented_def ps1_def)
    then show "p_parent (ps2 ! j) = (if p_parent (ptable s ! j) = Some c then Some k else p_parent (ptable s ! j))"
      "p_chan (ps2 ! j) = p_chan (ptable s ! j)"
      by (auto simp: rep1_def)
    show "p_state (ps2 ! j) = SLEEPING \<Longrightarrow> p_state (wake1 ?q (ptable s ! j)) = SLEEPING"
      by (rule rep1_sleeping [OF x])
  qed
  have r: "p_state (ps2 ! c) = RUNNING"
  proof -
    have "rep1 True c (Some k) (wake1 ?q (ptable s ! c)) (ps2 ! c)"
      using ps2(3) s(3) n1(2) by (auto simp: reparented_def ps1_def)
    then show ?thesis
      using s(4) by (auto simp: rep1_def)
  qed
  have "none_missed ?ps3"
  proof (rule none_missed_zombie [OF ps2(2) _ r])
    show "c < length ps2"
      using s(3) l2 by simp
    fix q
    assume q: "p_parent (ps2 ! c) = Some q" "q < length ps2"
    then have "?q = Some q"
      using f(1) [OF s(3)] k(3) by simp
    then show "\<not> waiting ps2 q"
      using f(2,3) [of q] q(2) l2 by (auto simp: waiting_def wake1_sleeping)
  qed
  moreover let ?t = "?a\<lparr>ptable := ?ps3\<rparr>"
  have "crit [PtableLock] ?t" "curproc ?t = Some c" "p_state (ptable ?t ! c) = ZOMBIE"
    using a(2,3) s(3) l2 by simp_all
  then obtain e where e: "sched_out ?t = Inr (e, ?t)"
    using sched_out_ok [of ?t c] by auto
  have "exit_tail c s = Inr ?t"
    using a(1) ps2(1) e by (simp add: exit_tail_def wakeup1p_eq proc_upd_def Let_def ps1_def)
  ultimately show ?thesis
    using \<open>crit [PtableLock] ?t\<close> s(3) l2 f(1) by (intro exI [of _ ?t]) (simp add: nth_list_update)
qed

lemma wait_ok:
  fixes s :: "'a proc_st_scheme"
  assumes s: "crit [] s" "curproc s = Some c" "c < length (ptable s)" and n: "none_missed (ptable s)"
    and z: "\<forall>j < length (ptable s). p_parent (ptable s ! j) = Some c \<longrightarrow> p_state (ptable s ! j) \<noteq> ZOMBIE"
  shows "\<exists>r s'. wait s = Inr (r, s') \<and> none_missed (ptable s') \<and>
    (if (\<forall>p \<in> set (ptable s). p_parent p \<noteq> Some c) \<or> p_killed (ptable s ! c) \<noteq> 0 then r = Inl (-1) \<and> crit [] s' \<and> ptable s' = ptable s
     else \<exists>e. r = Inr (c, e) \<and> crit [PtableLock] s' \<and>
       ptable s' = (ptable s)[c := (ptable s ! c)\<lparr>p_chan := Some (ChProc c), p_state := SLEEPING\<rparr>])"
proof -
  obtain s1 where s1: "thisproc s = Inr (c, s1)" "kept [] s s1"
    using thisproc_ok [OF s(1,2)] by blast
  note k = keptD [OF s1(2)]
  let ?a = "acq PtableLock s1"
  have a: "acquire PtableLock s1 = Inr ?a" "crit [PtableLock] ?a" "curproc ?a = Some c" "ptable ?a = ptable s"
    using acquire_ok [OF k(1), of PtableLock] crit_acq [OF k(1), of PtableLock] curproc_acq [OF k(1)] s(2) k(2,4) by simp_all
  have fz: "find_zombie (ptable s) c 0 = None"
    using z by (simp add: find_zombie_None)
  show ?thesis
  proof (cases "(\<forall>p \<in> set (ptable s). p_parent p \<noteq> Some c) \<or> p_killed (ptable s ! c) \<noteq> 0")
    case True
    have "release PtableLock ?a = Inr (rel PtableLock ?a)" "crit [] (rel PtableLock ?a)"
      using release_ok [OF a(2), of PtableLock] crit_rel [OF a(2), of PtableLock] by simp_all
    then have "wait s = Inr (Inl (-1), rel PtableLock ?a)" "crit [] (rel PtableLock ?a)"
      using True s1(1) a(1,4) fz by (auto simp: wait_def wait_loop_def)
    then show ?thesis
      using True n a(4) by auto
  next
    case False
    let ?t = "proc_upd c (\<lambda>x. x\<lparr>p_chan := Some (ChProc c), p_state := SLEEPING\<rparr>) ?a"
    have t: "crit [PtableLock] ?t" "curproc ?t = Some c" "p_state (ptable ?t ! c) \<noteq> RUNNING"
      using a(2,3,4) s(3) by simp_all
    obtain e where e: "sched_out ?t = Inr (e, ?t)"
      using sched_out_ok [OF t] by blast
    have "sleep_out (ChProc c) PtableLock ?a = Inr (c, e, ?t)"
      using myproc_ok [OF a(2)] a(3) e by (auto simp: sleep_out_def)
    then have "wait s = Inr (Inr (c, e), ?t)"
      using False s1(1) a(1,4) fz by (auto simp: wait_def wait_loop_def)
    moreover have "none_missed (ptable ?t)"
      using none_missed_sleep [OF n s(3) z] a(4) by simp
    ultimately show ?thesis
      using False t(1) a(4) by auto
  qed
qed

section \<open>Claims\<close>

text \<open>
  C40: An exit is never missed by the parent. The invariant is that no process sleeps in \<open>wait\<close> while it has an exited child.
  The last part of \<open>exit\<close> keeps it: the process becomes a zombie, hands every child to \<open>init\<close> and changes no other
  parent, and both its parent and, when a child was a zombie, \<open>init\<close> are awake if they waited. \<open>wait\<close> of a process with an exited child never sleeps; without one it returns \<open>-1\<close>
  when it has no child or is killed, and otherwise sleeps on itself with only its own table entry changed, which keeps the invariant.
\<close>

theorem exit_meets_wait:
  fixes s :: "'a proc_st_scheme"
  assumes s: "crit [] s" "curproc s = Some c" "c < length (ptable s)" "p_state (ptable s ! c) = RUNNING"
    and n: "none_missed (ptable s)" and k: "initproc s = Some k" "k \<noteq> c" "p_parent (ptable s ! c) \<noteq> Some c"
  shows "(\<exists>s'. exit_tail c s = Inr s' \<and> crit [PtableLock] s' \<and> none_missed (ptable s') \<and> p_state (ptable s' ! c) = ZOMBIE \<and>
      (\<forall>j < length (ptable s). p_parent (ptable s' ! j) = (if p_parent (ptable s ! j) = Some c then Some k else p_parent (ptable s ! j)))) \<and>
    (if \<exists>j < length (ptable s). p_parent (ptable s ! j) = Some c \<and> p_state (ptable s ! j) = ZOMBIE
     then \<forall>w s'. wait s \<noteq> Inr (Inr w, s')
     else \<exists>r s'. wait s = Inr (r, s') \<and> none_missed (ptable s') \<and>
       (if (\<forall>p \<in> set (ptable s). p_parent p \<noteq> Some c) \<or> p_killed (ptable s ! c) \<noteq> 0 then r = Inl (-1) \<and> ptable s' = ptable s
        else \<exists>e. r = Inr (c, e) \<and> ptable s' = (ptable s)[c := (ptable s ! c)\<lparr>p_chan := Some (ChProc c), p_state := SLEEPING\<rparr>]))"
proof -
  have "wait s \<noteq> Inr (Inr w, s')" if z: "j < length (ptable s)" "p_parent (ptable s ! j) = Some c" "p_state (ptable s ! j) = ZOMBIE" for j w s'
  proof -
    obtain s1 where s1: "thisproc s = Inr (c, s1)" "kept [] s s1"
      using thisproc_ok [OF s(1,2)] by blast
    have "find_zombie (ptable (acq PtableLock s1)) c 0 \<noteq> None"
      using z keptD(4) [OF s1(2)] by (auto simp: find_zombie_None)
    then show ?thesis
      using s1(1) acquire_ok [OF keptD(1) [OF s1(2)], of PtableLock] by (auto simp: wait_def wait_loop_def)
  qed
  note zombie = this
  have "\<exists>s'. exit_tail c s = Inr s' \<and> crit [PtableLock] s' \<and> none_missed (ptable s') \<and> p_state (ptable s' ! c) = ZOMBIE \<and>
      (\<forall>j < length (ptable s). p_parent (ptable s' ! j) = (if p_parent (ptable s ! j) = Some c then Some k else p_parent (ptable s ! j)))"
    using exit_tail_ok [OF s n k] by blast
  moreover have "\<exists>r s'. wait s = Inr (r, s') \<and> none_missed (ptable s') \<and>
       (if (\<forall>p \<in> set (ptable s). p_parent p \<noteq> Some c) \<or> p_killed (ptable s ! c) \<noteq> 0 then r = Inl (-1) \<and> ptable s' = ptable s
        else \<exists>e. r = Inr (c, e) \<and> ptable s' = (ptable s)[c := (ptable s ! c)\<lparr>p_chan := Some (ChProc c), p_state := SLEEPING\<rparr>])"
    if z: "\<not> (\<exists>j < length (ptable s). p_parent (ptable s ! j) = Some c \<and> p_state (ptable s ! j) = ZOMBIE)"
  proof -
    obtain r s' where w: "wait s = Inr (r, s')" "none_missed (ptable s')"
      "if (\<forall>p \<in> set (ptable s). p_parent p \<noteq> Some c) \<or> p_killed (ptable s ! c) \<noteq> 0 then r = Inl (-1) \<and> crit [] s' \<and> ptable s' = ptable s
       else \<exists>e. r = Inr (c, e) \<and> crit [PtableLock] s' \<and>
         ptable s' = (ptable s)[c := (ptable s ! c)\<lparr>p_chan := Some (ChProc c), p_state := SLEEPING\<rparr>]"
      using wait_ok [OF s(1-3) n] z by blast
    have "if (\<forall>p \<in> set (ptable s). p_parent p \<noteq> Some c) \<or> p_killed (ptable s ! c) \<noteq> 0 then r = Inl (-1) \<and> ptable s' = ptable s
       else \<exists>e. r = Inr (c, e) \<and> ptable s' = (ptable s)[c := (ptable s ! c)\<lparr>p_chan := Some (ChProc c), p_state := SLEEPING\<rparr>]"
      using w(3) by presburger
    with w(1,2) show ?thesis
      by blast
  qed
  ultimately show ?thesis
    using zombie by auto
qed

text \<open>Process 0 exits; its parent 2 waits, and its child 3 has exited already.\<close>

definition ex_exit :: proc_st where
  "ex_exit = ex_procs\<lparr>initproc := Some 1,
     ptable := [ex_proc\<lparr>p_state := RUNNING, p_parent := Some 2\<rparr>, ex_proc\<lparr>p_state := RUNNABLE\<rparr>,
       ex_proc\<lparr>p_state := SLEEPING, p_chan := Some (ChProc 2)\<rparr>, ex_proc\<lparr>p_state := ZOMBIE, p_parent := Some 0\<rparr>]\<rparr>"

theorem exit_meets_wait_witness:
  "\<exists>s'. exit_tail 0 ex_exit = Inr s' \<and> p_state (ptable s' ! 0) = ZOMBIE \<and> p_parent (ptable s' ! 3) = Some 1 \<and> \<not> waiting (ptable s') 2"
proof -
  let ?ps = "[ex_proc\<lparr>p_state := RUNNING, p_parent := Some 2\<rparr>, ex_proc\<lparr>p_state := RUNNABLE\<rparr>,
       ex_proc\<lparr>p_state := SLEEPING, p_chan := Some (ChProc 2)\<rparr>, ex_proc\<lparr>p_state := ZOMBIE, p_parent := Some 0\<rparr>]"
  have p: "ptable ex_exit = ?ps" "initproc ex_exit = Some 1"
    by (simp_all add: ex_exit_def)
  have c: "crit [] ex_exit" "curproc ex_exit = Some 0"
    using ex_procs_fields(1) by (simp_all add: ex_exit_def)
      (simp_all add: curproc_def curcpu_def ex_procs_def ex_con_def ex_kmem_def ex_hw_def con_st.defs kmem_st.defs hw.defs)
  have n: "none_missed ?ps"
    by (auto simp: none_missed_def waiting_def less_Suc_eq nth_Cons' ex_proc_def)
  obtain s' where s': "exit_tail 0 ex_exit = Inr s'" "none_missed (ptable s')" "p_state (ptable s' ! 0) = ZOMBIE"
      "\<forall>j < 4. p_parent (ptable s' ! j) = (if p_parent (?ps ! j) = Some 0 then Some 1 else p_parent (?ps ! j))"
    using exit_meets_wait [OF c, of 1] n by (auto simp: p ex_proc_def)
  have l: "length (ptable s') = 4"
    using exit_tail_ok [OF c, of 1] n s'(1) by (auto simp: p ex_proc_def)
  have "p_parent (ptable s' ! 0) = Some 2"
    using s'(4) [rule_format, of 0] by simp
  then have "\<not> waiting (ptable s') 2"
    using s'(2,3) l unfolding none_missed_def by (metis zero_less_numeral numeral_less_iff semiring_norm(76,78))
  then show ?thesis
    using s'(1,3) s'(4) [rule_format, of 3] by simp
qed

end
