(* ===== verification/Exec.thy ===== *)
theory Exec
  imports Process
begin

text \<open>
  \<open>exec.c\<close> and \<open>loaduvm\<close> of \<open>vm.c\<close>: a program image is read from a file into a new page table, the arguments are put on its
  stack, and only then the process changes over. The path and the arguments are the strings the pointers point to;
  \<open>None\<close> is a \<open>goto bad\<close>.
\<close>

section \<open>The file format (elf.h)\<close>

definition ELF_MAGIC :: u32 where "ELF_MAGIC = 0x464C457F"
abbreviation (input) ELF_PROG_LOAD :: u32 where "ELF_PROG_LOAD \<equiv> 1"
abbreviation (input) MAXARG :: nat where "MAXARG \<equiv> 32"

record elfhdr =
  e_magic :: u32
  e_elf :: "u8 list"
  e_type :: u16
  e_machine :: u16
  e_version :: u32
  e_entry :: u32
  e_phoff :: u32
  e_shoff :: u32
  e_flags :: u32
  e_ehsize :: u16
  e_phentsize :: u16
  e_phnum :: u16
  e_shentsize :: u16
  e_shnum :: u16
  e_shstrndx :: u16

definition get_elfhdr :: "u8 list \<Rightarrow> elfhdr" where
  "get_elfhdr d = 
     \<lparr>e_magic = ld32 d 0, e_elf = slice d 4 12, e_type = ld16 d 16, e_machine = ld16 d 18, e_version = ld32 d 20, e_entry = ld32 d 24,
      e_phoff = ld32 d 28, e_shoff = ld32 d 32, e_flags = ld32 d 36, e_ehsize = ld16 d 40, e_phentsize = ld16 d 42, e_phnum = ld16 d 44,
      e_shentsize = ld16 d 46, e_shnum = ld16 d 48, e_shstrndx = ld16 d 50\<rparr>"

record proghdr =
  ph_type :: u32
  ph_off :: u32
  ph_vaddr :: u32
  ph_paddr :: u32
  ph_filesz :: u32
  ph_memsz :: u32
  ph_flags :: u32
  ph_align :: u32

definition get_proghdr :: "u8 list \<Rightarrow> proghdr" where
  "get_proghdr d = 
     \<lparr>ph_type = ld32 d 0, ph_off = ld32 d 4, ph_vaddr = ld32 d 8, ph_paddr = ld32 d 12, ph_filesz = ld32 d 16, ph_memsz = ld32 d 20,
      ph_flags = ld32 d 24, ph_align = ld32 d 28\<rparr>"

section \<open>Loading\<close>

fun store_list :: "memory \<Rightarrow> u32 \<Rightarrow> u8 list \<Rightarrow> memory" where
  "store_list m a [] = m"
| "store_list m a (b # bs) = store_list (m(a := b)) (a + 1) bs"

fun load_loop :: "nat \<Rightarrow> 'a fs_st_scheme devsw \<Rightarrow> u32 \<Rightarrow> u32 \<Rightarrow> nat \<Rightarrow> u32 \<Rightarrow> u32 \<Rightarrow> u32 \<Rightarrow> 'a fs_st_scheme \<Rightarrow>
    (int \<times> 'a fs_st_scheme) kres" where
  "load_loop k dv pgdir addr ip offset sz i s =
     (if \<not> i < sz then Inr (0, s)
      else case k of 0 \<Rightarrow> Inl Diverge
      | Suc k' \<Rightarrow>
          bindE (walkpgdir pgdir (addr + i) False s) (\<lambda>(pte, s).
            if pte = 0 then Inl (Panic ''loaduvm: address should exist'')
            else
              let pa = PTE_ADDR (read32 (mem s) pte);
                  n = (if sz - i < PGSIZE then sz - i else PGSIZE) in
              bindE (readi dv ip (offset + i) n s) (\<lambda>((r, d), s).
              let s = s\<lparr>mem := store_list (mem s) (P2V pa) d\<rparr> in
              if r \<noteq> uint n then Inr (-1, s)
              else load_loop k' dv pgdir addr ip offset sz (i + PGSIZE) s)))"

declare load_loop.simps [simp del]

definition loaduvm :: "'a fs_st_scheme devsw \<Rightarrow> u32 \<Rightarrow> u32 \<Rightarrow> nat \<Rightarrow> u32 \<Rightarrow> u32 \<Rightarrow> 'a fs_st_scheme \<Rightarrow>
    (int \<times> 'a fs_st_scheme) kres" where
  "loaduvm dv pgdir addr ip offset sz s =
     (if addr mod PGSIZE \<noteq> 0 then Inl (Panic ''loaduvm: addr must be page aligned'')
      else load_loop NPAGES dv pgdir addr ip offset sz 0 s)"

fun load_segs :: "nat \<Rightarrow> 'a fs_st_scheme devsw \<Rightarrow> nat \<Rightarrow> u32 \<Rightarrow> u32 \<Rightarrow> u32 \<Rightarrow> 'a fs_st_scheme \<Rightarrow>
    (u32 option \<times> 'a fs_st_scheme) kres" where
  "load_segs 0 dv ip pgdir off sz s = Inr (Some sz, s)"
| "load_segs (Suc k) dv ip pgdir off sz s =
     bindE (readi dv ip off 32 s) (\<lambda>((r, d), s).
       if r \<noteq> 32 then Inr (None, s)
       else
         let ph = get_proghdr d in
         if ph_type ph \<noteq> ELF_PROG_LOAD then load_segs k dv ip pgdir (off + 32) sz s
         else if ph_memsz ph < ph_filesz ph then Inr (None, s)
         else if ph_vaddr ph + ph_memsz ph < ph_vaddr ph then Inr (None, s)
         else
           bindE (allocuvm pgdir sz (ph_vaddr ph + ph_memsz ph) s) (\<lambda>(sz, s).
             if sz = 0 then Inr (None, s)
             else if ph_vaddr ph mod PGSIZE \<noteq> 0 then Inr (None, s)
             else
               bindE (loaduvm dv pgdir (ph_vaddr ph) ip (ph_off ph) (ph_filesz ph) s) (\<lambda>(r, s).
                 if r < 0 then Inr (None, s) else load_segs k dv ip pgdir (off + 32) sz s)))"

text \<open>\<open>copyout\<close> of the bytes a pointer points to.\<close>

function copyout_bytes :: "u32 \<Rightarrow> u32 \<Rightarrow> u8 list \<Rightarrow> 'a con_st_scheme \<Rightarrow> (int \<times> 'a con_st_scheme) kres" where
  "copyout_bytes pgdir va bs s =
     (if bs = [] then Inr (0, s)
      else
        let va0 = PGROUNDDOWN va in
        bindE (uva2ka pgdir va0 s) (\<lambda>pa0.
          if pa0 = 0 then Inr (-1, s)
          else
            let n = min (4096 - unat (va - va0)) (length bs) in
            copyout_bytes pgdir (va0 + PGSIZE) (drop n bs)
              (s\<lparr>mem := store_list (mem s) (pa0 + (va - va0)) (take n bs)\<rparr>)))"
  by pat_completeness auto
termination
proof (relation "measure (\<lambda>(pgdir, va, bs, s). length bs)")
  fix va va0 :: u32 and bs :: "u8 list" and n :: nat
  assume "bs \<noteq> []" "va0 = PGROUNDDOWN va" "n = min (4096 - unat (va - va0)) (length bs)"
  moreover have "unat (va mod PGSIZE) < 4096"
    by (simp add: unat_mod)
  ultimately have "n > 0"
    by (simp add: PGROUNDDOWN_mod)
  with \<open>bs \<noteq> []\<close> show "\<And>pgdir s s'. ((pgdir, va0 + PGSIZE, drop n bs, s'), pgdir, va, bs, s) \<in> measure (\<lambda>(pgdir, va, bs, s). length bs)"
    by (cases bs) auto
qed simp

declare copyout_bytes.simps [simp del]

fun push_args :: "u8 list list \<Rightarrow> nat \<Rightarrow> u32 \<Rightarrow> u32 \<Rightarrow> u32 list \<Rightarrow> 'a con_st_scheme \<Rightarrow>
    ((u32 \<times> u32 list) option \<times> 'a con_st_scheme) kres" where
  "push_args [] argc pgdir sp us s = Inr (Some (sp, us), s)"
| "push_args (a # as) argc pgdir sp us s =
     (if argc \<ge> MAXARG then Inr (None, s)
      else
        let sp = (sp - of_nat (length a + 1)) AND NOT 3 in
        bindE (copyout_bytes pgdir sp (a @ [0]) s) (\<lambda>(r, s).
          if r < 0 then Inr (None, s) else push_args as (Suc argc) pgdir sp (us @ [sp]) s))"

definition word_bytes :: "u32 \<Rightarrow> u8 list" where
  "word_bytes w = [ucast w, ucast (drop_bit 8 w), ucast (drop_bit 16 w), ucast (drop_bit 24 w)]"

section \<open>exec\<close>

definition last_elem :: "u8 list \<Rightarrow> u8 list" where
  "last_elem path = rev (takeWhile (\<lambda>c. c \<noteq> SLASH) (rev path))"

text \<open>The \<open>bad\<close> label, with the page table and the inode still held.\<close>

definition exec_bad :: "u32 \<Rightarrow> nat option \<Rightarrow> 'a fs_st_scheme \<Rightarrow> (int \<times> 'a fs_st_scheme) kres" where
  "exec_bad pgdir ip s =
     bindE (if pgdir \<noteq> 0 then freevm pgdir s else Inr s) (\<lambda>s.
     case ip of None \<Rightarrow> Inr (-1, s)
     | Some ip \<Rightarrow> bindE (iunlockput ip s) (\<lambda>s. bindE (end_op s) (\<lambda>s. Inr (-1, s))))"

text \<open>The image is in place: the stack, then the change of the process \<open>c\<close>.\<close>

definition exec_stack :: "u32 \<Rightarrow> u32 \<Rightarrow> u8 list list \<Rightarrow> 'a con_st_scheme \<Rightarrow> ((u32 \<times> u32) option \<times> 'a con_st_scheme) kres" where
  "exec_stack pgdir sz argv s =
     (let sz = PGROUNDUP sz in
      bindE (allocuvm pgdir sz (sz + 2 * PGSIZE) s) (\<lambda>(sz, s).
        if sz = 0 then Inr (None, s)
        else
          bindE (clearpteu pgdir (sz - 2 * PGSIZE) s) (\<lambda>s.
          bindE (push_args argv 0 pgdir sz [] s) (\<lambda>(r, s). case r of
             None \<Rightarrow> Inr (None, s)
           | Some (sp, us) \<Rightarrow>
               let argc = of_nat (length us) :: u32;
                   ustack = [0xFFFFFFFF, argc, sp - (argc + 1) * 4] @ us @ [0];
                   sp = sp - (3 + argc + 1) * 4 in
               bindE (copyout_bytes pgdir sp (concat (map word_bytes ustack)) s) (\<lambda>(r, s).
                 if r < 0 then Inr (None, s) else Inr (Some (sz, sp), s))))))"

definition exec_commit :: "nat \<Rightarrow> u8 list \<Rightarrow> u32 \<Rightarrow> u32 \<Rightarrow> u32 \<Rightarrow> u32 \<Rightarrow> 'a proc_st_scheme \<Rightarrow> (int \<times> 'a proc_st_scheme) kres" where
  "exec_commit c path pgdir sz entry' sp s =
     (let s = proc_upd c (set_name (map (\<lambda>b. char_of (unat b)) (last_elem path))) s;
          oldpgdir = p_pgdir (ptable s ! c);
          s = proc_upd c (\<lambda>x. x\<lparr>p_pgdir := pgdir, p_sz := sz\<rparr>) s;
          tf = p_tf (ptable s ! c);
          s = s\<lparr>mem := write32 (write32 (mem s) (tf + TF_EIP) entry') (tf + TF_ESP) sp\<rparr> in
      bindE (switchuvm (Some c) s) (\<lambda>s.
      bindE (freevm oldpgdir s) (\<lambda>s. Inr (0, s))))"

definition exec :: "'a fs_st_scheme devsw \<Rightarrow> u8 list \<Rightarrow> u8 list list \<Rightarrow> 'a fs_st_scheme \<Rightarrow> (int \<times> 'a fs_st_scheme) kres" where
  "exec dv path argv s =
     bindE (thisproc s) (\<lambda>(c, s).
     bindE (begin_op s) (\<lambda>s.
     bindE (namei dv path s) (\<lambda>(r, s). case r of
        None \<Rightarrow> bindE (end_op s) (\<lambda>s. bindE (cprintf (''exec: fail'' @ [CHR 0x0A]) [] s) (\<lambda>s. Inr (-1, s)))
      | Some ip \<Rightarrow>
          bindE (ilock ip s) (\<lambda>s.
          bindE (readi dv ip 0 52 s) (\<lambda>((r, d), s).
          if r \<noteq> 52 \<or> e_magic (get_elfhdr d) \<noteq> ELF_MAGIC then exec_bad 0 (Some ip) s
          else
            bindE (setupkvm s) (\<lambda>(pgdir, s).
            if pgdir = 0 then exec_bad 0 (Some ip) s
            else
              bindE (load_segs (unat (e_phnum (get_elfhdr d))) dv ip pgdir (e_phoff (get_elfhdr d)) 0 s) (\<lambda>(r, s). case r of
                 None \<Rightarrow> exec_bad pgdir (Some ip) s
               | Some sz \<Rightarrow>
                   bindE (iunlockput ip s) (\<lambda>s.
                   bindE (end_op s) (\<lambda>s.
                   bindE (exec_stack pgdir sz argv s) (\<lambda>(r, s). case r of
                      None \<Rightarrow> exec_bad pgdir None s
                    | Some (sz, sp) \<Rightarrow> exec_commit c path pgdir sz (e_entry (get_elfhdr d)) sp s))))))))))"

end
