(* ===== verification/Sysfile.thy ===== *)
theory Sysfile
  imports Exec
begin

text \<open>
  \<open>sysfile.c\<close>: the file-system calls. Each takes its arguments from the user stack of the current process and
  returns the value that goes to the register \<open>eax\<close>. Path names are the strings the checked pointers point to. A pipe or the console that blocks the
  call is the result \<open>Sleep\<close>, as inside other operations.
\<close>

section \<open>Descriptors\<close>

text \<open>The descriptor and the file it stands for.\<close>

definition argfd :: "u32 \<Rightarrow> 'a proc_st_scheme \<Rightarrow> ((nat \<times> nat) option \<times> 'a proc_st_scheme) kres" where
  "argfd n s =
     bindE (argint n s) (\<lambda>(r, s). case r of
        None \<Rightarrow> Inr (None, s)
      | Some fd \<Rightarrow>
          if sint fd < 0 \<or> sint fd \<ge> int NOFILE then Inr (None, s)
          else
            bindE (thisproc s) (\<lambda>(i, s). case p_ofile (ptable s ! i) ! unat fd of
               None \<Rightarrow> Inr (None, s)
             | Some f \<Rightarrow> Inr (Some (unat fd, f), s)))"

fun find_fd :: "nat option list \<Rightarrow> nat \<Rightarrow> nat option" where
  "find_fd [] i = None"
| "find_fd (x # xs) i = (if x = None then Some i else find_fd xs (Suc i))"

definition set_fd :: "nat \<Rightarrow> nat \<Rightarrow> nat option \<Rightarrow> 'a proc_st_scheme \<Rightarrow> 'a proc_st_scheme" where
  "set_fd i fd f s = proc_upd i (\<lambda>x. x\<lparr>p_ofile := (p_ofile x)[fd := f]\<rparr>) s"

definition fdalloc :: "nat \<Rightarrow> 'a proc_st_scheme \<Rightarrow> (nat option \<times> 'a proc_st_scheme) kres" where
  "fdalloc f s =
     bindE (thisproc s) (\<lambda>(i, s). case find_fd (p_ofile (ptable s ! i)) 0 of
        None \<Rightarrow> Inr (None, s)
      | Some fd \<Rightarrow> Inr (Some fd, set_fd i fd (Some f) s))"

section \<open>Calls on descriptors\<close>

definition sys_dup :: "'a file_st_scheme \<Rightarrow> (int \<times> 'a file_st_scheme) kres" where
  "sys_dup s =
     bindE (argfd 0 s) (\<lambda>(r, s). case r of
        None \<Rightarrow> Inr (-1, s)
      | Some (_, f) \<Rightarrow>
          bindE (fdalloc f s) (\<lambda>(r, s). case r of
             None \<Rightarrow> Inr (-1, s)
           | Some fd \<Rightarrow> bindE (filedup f s) (\<lambda>(_, s). Inr (int fd, s))))"

text \<open>The checks of \<open>read\<close> and \<open>write\<close>: the file, the buffer and its length.\<close>

definition rw_args :: "'a proc_st_scheme \<Rightarrow> ((nat \<times> u32 \<times> u32) option \<times> 'a proc_st_scheme) kres" where
  "rw_args s =
     bindE (argfd 0 s) (\<lambda>(r, s). case r of
        None \<Rightarrow> Inr (None, s)
      | Some (_, f) \<Rightarrow>
          bindE (argint 2 s) (\<lambda>(r, s). case r of
             None \<Rightarrow> Inr (None, s)
           | Some n \<Rightarrow>
               bindE (argptr 1 n s) (\<lambda>(r, s). case r of
                  None \<Rightarrow> Inr (None, s)
                | Some p \<Rightarrow> Inr (Some (f, p, n), s))))"

definition sys_read :: "'a file_st_scheme devsw \<Rightarrow> 'a file_st_scheme \<Rightarrow> (int \<times> 'a file_st_scheme) kres" where
  "sys_read dv s =
     bindE (rw_args s) (\<lambda>(r, s). case r of
        None \<Rightarrow> Inr (-1, s)
      | Some (f, p, n) \<Rightarrow>
          bindE (fileread dv f (unat n) s) (\<lambda>(r, s). case r of
             Inl (r, d) \<Rightarrow> bindE (ustores p d s) (\<lambda>s. Inr (r, s))
           | Inr _ \<Rightarrow> Inl (Sleep (ChPipeNread (f_pipe (ftable s ! f))))))"

text \<open>The buffer is only looked at when the file can be written.\<close>

definition sys_write :: "'a file_st_scheme devsw \<Rightarrow> 'a file_st_scheme \<Rightarrow> (int \<times> 'a file_st_scheme) kres" where
  "sys_write dv s =
     bindE (rw_args s) (\<lambda>(r, s). case r of
        None \<Rightarrow> Inr (-1, s)
      | Some (f, p, n) \<Rightarrow>
          bindE (if f_writable (ftable s ! f) then uloads (unat n) p s else Inr []) (\<lambda>bs.
          bindE (filewrite dv f bs s) (\<lambda>(r, s). case r of
             Inl r \<Rightarrow> Inr (r, s)
           | Inr _ \<Rightarrow> Inl (Sleep (ChPipeNwrite (f_pipe (ftable s ! f)))))))"

definition sys_close :: "'a file_st_scheme \<Rightarrow> (int \<times> 'a file_st_scheme) kres" where
  "sys_close s =
     bindE (argfd 0 s) (\<lambda>(r, s). case r of
        None \<Rightarrow> Inr (-1, s)
      | Some (fd, f) \<Rightarrow>
          bindE (thisproc s) (\<lambda>(i, s).
          bindE (fileclose f (set_fd i fd None s)) (\<lambda>s. Inr (0, s))))"

text \<open>\<open>struct stat\<close> in memory: type, device, inode number, link count and size, with the padding left alone.\<close>

definition put_stat :: "u32 \<Rightarrow> kstat \<Rightarrow> 'a vm_st_scheme \<Rightarrow> ('a vm_st_scheme) kres" where
  "put_stat p st s =
     bindE (ustores p [ucast (ks_type st), ucast (drop_bit 8 (ks_type st))] s) (\<lambda>s.
     bindE (ustores (p + 4) (word_bytes (ks_dev st) @ word_bytes (ks_ino st) @
       [ucast (ks_nlink st), ucast (drop_bit 8 (ks_nlink st))]) s) (\<lambda>s.
     ustores (p + 16) (word_bytes (ks_size st)) s))"

definition sys_fstat :: "'a file_st_scheme \<Rightarrow> (int \<times> 'a file_st_scheme) kres" where
  "sys_fstat s =
     bindE (argfd 0 s) (\<lambda>(r, s). case r of
        None \<Rightarrow> Inr (-1, s)
      | Some (_, f) \<Rightarrow>
          bindE (argptr 1 20 s) (\<lambda>(r, s). case r of
             None \<Rightarrow> Inr (-1, s)
           | Some p \<Rightarrow>
               bindE (filestat f s) (\<lambda>((r, st), s). case st of
                  None \<Rightarrow> Inr (r, s)
                | Some st \<Rightarrow> bindE (put_stat p st s) (\<lambda>s. Inr (r, s)))))"

section \<open>Links\<close>

definition add_nlink :: "int \<Rightarrow> nat \<Rightarrow> 'a fs_st_scheme \<Rightarrow> 'a fs_st_scheme" where
  "add_nlink d ip s = i_set ip (\<lambda>x. x\<lparr>i_nlink := i_nlink x + of_int d\<rparr>) s"

text \<open>The \<open>bad\<close> label of \<open>sys_link\<close>: the link count goes back.\<close>

definition link_bad :: "nat \<Rightarrow> 'a fs_st_scheme \<Rightarrow> (int \<times> 'a fs_st_scheme) kres" where
  "link_bad ip s =
     bindE (ilock ip s) (\<lambda>s.
     bindE (iupdate ip (add_nlink (-1) ip s)) (\<lambda>s.
     bindE (iunlockput ip s) (\<lambda>s.
     bindE (end_op s) (\<lambda>s. Inr (-1, s)))))"

text \<open>The call on the two names. The name buffer starts with what the stack holds, here zeros.\<close>

definition do_link :: "'a fs_st_scheme devsw \<Rightarrow> u8 list \<Rightarrow> u8 list \<Rightarrow> 'a fs_st_scheme \<Rightarrow> (int \<times> 'a fs_st_scheme) kres" where
  "do_link dv old new s =
     bindE (begin_op s) (\<lambda>s.
     bindE (namei dv old s) (\<lambda>(r, s). case r of
        None \<Rightarrow> bindE (end_op s) (\<lambda>s. Inr (-1, s))
      | Some ip \<Rightarrow>
          bindE (ilock ip s) (\<lambda>s.
          if i_type (icache s ! ip) = T_DIR then
            bindE (iunlockput ip s) (\<lambda>s. bindE (end_op s) (\<lambda>s. Inr (-1, s)))
          else
            bindE (iupdate ip (add_nlink 1 ip s)) (\<lambda>s.
            bindE (iunlock ip s) (\<lambda>s.
            bindE (nameiparent dv new (replicate DIRSIZ 0) s) (\<lambda>((r, name), s). case r of
               None \<Rightarrow> link_bad ip s
             | Some dp \<Rightarrow>
                 bindE (ilock dp s) (\<lambda>s.
                 bindE (if i_dev (icache s ! dp) \<noteq> i_dev (icache s ! ip) then Inr (-1, s)
                        else dirlink dv dp name (i_inum (icache s ! ip)) s) (\<lambda>(r, s).
                 if r < 0 then bindE (iunlockput dp s) (link_bad ip)
                 else
                   bindE (iunlockput dp s) (\<lambda>s.
                   bindE (iput ip s) (\<lambda>s.
                   bindE (end_op s) (\<lambda>s. Inr (0, s))))))))))))"

definition sys_link :: "'a fs_st_scheme devsw \<Rightarrow> 'a fs_st_scheme \<Rightarrow> (int \<times> 'a fs_st_scheme) kres" where
  "sys_link dv s =
     bindE (argstr 0 s) (\<lambda>(r, s). case r of
        None \<Rightarrow> Inr (-1, s)
      | Some (_, old) \<Rightarrow>
          bindE (argstr 1 s) (\<lambda>(r, s). case r of
             None \<Rightarrow> Inr (-1, s)
           | Some (_, new) \<Rightarrow> do_link dv old new s))"

fun empty_loop :: "'a fs_st_scheme devsw \<Rightarrow> nat \<Rightarrow> nat list \<Rightarrow> 'a fs_st_scheme \<Rightarrow> (bool \<times> 'a fs_st_scheme) kres" where
  "empty_loop dv dp [] s = Inr (True, s)"
| "empty_loop dv dp (off # offs) s =
     bindE (readi dv dp (of_nat off) 16 s) (\<lambda>((r, d), s).
       if r \<noteq> 16 then Inl (Panic ''isdirempty: readi'')
       else if de_inum (get_dirent d) \<noteq> 0 then Inr (False, s)
       else empty_loop dv dp offs s)"

definition isdirempty :: "'a fs_st_scheme devsw \<Rightarrow> nat \<Rightarrow> 'a fs_st_scheme \<Rightarrow> (bool \<times> 'a fs_st_scheme) kres" where
  "isdirempty dv dp s = empty_loop dv dp (drop 2 (dir_offs (i_size (icache s ! dp)))) s"

definition unlink_bad :: "nat \<Rightarrow> 'a fs_st_scheme \<Rightarrow> (int \<times> 'a fs_st_scheme) kres" where
  "unlink_bad dp s = bindE (iunlockput dp s) (\<lambda>s. bindE (end_op s) (\<lambda>s. Inr (-1, s)))"

text \<open>The entry at \<open>off\<close> of the directory \<open>dp\<close>, which names \<open>ip\<close>, goes; both inodes are locked.\<close>

definition unlink_entry :: "'a fs_st_scheme devsw \<Rightarrow> nat \<Rightarrow> nat \<Rightarrow> nat \<Rightarrow> 'a fs_st_scheme \<Rightarrow> (int \<times> 'a fs_st_scheme) kres" where
  "unlink_entry dv dp ip off s =
     bindE (writei dv dp (replicate 16 0) (of_nat off) 16 s) (\<lambda>(r, s).
       if r \<noteq> 16 then Inl (Panic ''unlink: writei'')
       else
         bindE (if i_type (icache s ! ip) = T_DIR then iupdate dp (add_nlink (-1) dp s) else Inr s) (\<lambda>s.
         bindE (iunlockput dp s) (\<lambda>s.
         bindE (iupdate ip (add_nlink (-1) ip s)) (\<lambda>s.
         bindE (iunlockput ip s) (\<lambda>s.
         bindE (end_op s) (\<lambda>s. Inr (0, s)))))))"

definition do_unlink :: "'a fs_st_scheme devsw \<Rightarrow> u8 list \<Rightarrow> 'a fs_st_scheme \<Rightarrow> (int \<times> 'a fs_st_scheme) kres" where
  "do_unlink dv path s =
     bindE (begin_op s) (\<lambda>s.
     bindE (nameiparent dv path (replicate DIRSIZ 0) s) (\<lambda>((r, name), s). case r of
        None \<Rightarrow> bindE (end_op s) (\<lambda>s. Inr (-1, s))
      | Some dp \<Rightarrow>
          bindE (ilock dp s) (\<lambda>s.
          if namecmp name [46] = 0 \<or> namecmp name [46, 46] = 0 then unlink_bad dp s
          else
            bindE (dirlookup dv dp name s) (\<lambda>(r, s). case r of
               None \<Rightarrow> unlink_bad dp s
             | Some (ip, off) \<Rightarrow>
                 bindE (ilock ip s) (\<lambda>s.
                 if sint (i_nlink (icache s ! ip)) < 1 then Inl (Panic ''unlink: nlink < 1'')
                 else
                   bindE (if i_type (icache s ! ip) = T_DIR then isdirempty dv ip s else Inr (True, s)) (\<lambda>(e, s).
                   if \<not> e then bindE (iunlockput ip s) (unlink_bad dp)
                   else unlink_entry dv dp ip off s))))))"

definition sys_unlink :: "'a fs_st_scheme devsw \<Rightarrow> 'a fs_st_scheme \<Rightarrow> (int \<times> 'a fs_st_scheme) kres" where
  "sys_unlink dv s =
     bindE (argstr 0 s) (\<lambda>(r, s). case r of None \<Rightarrow> Inr (-1, s) | Some (_, path) \<Rightarrow> do_unlink dv path s)"

section \<open>Creation\<close>

definition create :: "'a fs_st_scheme devsw \<Rightarrow> u8 list \<Rightarrow> u16 \<Rightarrow> u16 \<Rightarrow> u16 \<Rightarrow> 'a fs_st_scheme \<Rightarrow> (nat option \<times> 'a fs_st_scheme) kres" where
  "create dv path ty major minor s =
     bindE (nameiparent dv path (replicate DIRSIZ 0) s) (\<lambda>((r, name), s). case r of
        None \<Rightarrow> Inr (None, s)
      | Some dp \<Rightarrow>
          bindE (ilock dp s) (\<lambda>s.
          bindE (dirlookup dv dp name s) (\<lambda>(r, s). case r of
             Some (ip, _) \<Rightarrow>
               bindE (iunlockput dp s) (\<lambda>s.
               bindE (ilock ip s) (\<lambda>s.
               if ty = T_FILE \<and> i_type (icache s ! ip) = T_FILE then Inr (Some ip, s)
               else bindE (iunlockput ip s) (\<lambda>s. Inr (None, s))))
           | None \<Rightarrow>
               bindE (ialloc (i_dev (icache s ! dp)) ty s) (\<lambda>(ip, s).
               bindE (ilock ip s) (\<lambda>s.
               bindE (iupdate ip (i_set ip (\<lambda>x. x\<lparr>i_major := major, i_minor := minor, i_nlink := 1\<rparr>) s)) (\<lambda>s.
               bindE (if ty = T_DIR then
                        bindE (iupdate dp (add_nlink 1 dp s)) (\<lambda>s.
                        bindE (dirlink dv ip [46] (i_inum (icache s ! ip)) s) (\<lambda>(r, s).
                          if r < 0 then Inl (Panic ''create dots'')
                          else
                            bindE (dirlink dv ip [46, 46] (i_inum (icache s ! dp)) s) (\<lambda>(r, s).
                              if r < 0 then Inl (Panic ''create dots'') else Inr s)))
                      else Inr s) (\<lambda>s.
               bindE (dirlink dv dp name (i_inum (icache s ! ip)) s) (\<lambda>(r, s).
                 if r < 0 then Inl (Panic ''create: dirlink'')
                 else bindE (iunlockput dp s) (\<lambda>s. Inr (Some ip, s))))))))))"

abbreviation (input) O_RDONLY :: u32 where "O_RDONLY \<equiv> 0x000"
abbreviation (input) O_WRONLY :: u32 where "O_WRONLY \<equiv> 0x001"
abbreviation (input) O_RDWR :: u32 where "O_RDWR \<equiv> 0x002"
abbreviation (input) O_CREATE :: u32 where "O_CREATE \<equiv> 0x200"

text \<open>The inode to open, locked, inside the transaction.\<close>

definition open_inode :: "'a fs_st_scheme devsw \<Rightarrow> u8 list \<Rightarrow> u32 \<Rightarrow> 'a fs_st_scheme \<Rightarrow> (nat option \<times> 'a fs_st_scheme) kres" where
  "open_inode dv path omode s =
     (if omode AND O_CREATE \<noteq> 0 then create dv path T_FILE 0 0 s
      else
        bindE (namei dv path s) (\<lambda>(r, s). case r of
           None \<Rightarrow> Inr (None, s)
         | Some ip \<Rightarrow>
             bindE (ilock ip s) (\<lambda>s.
             if i_type (icache s ! ip) = T_DIR \<and> omode \<noteq> O_RDONLY
             then bindE (iunlockput ip s) (\<lambda>s. Inr (None, s)) else Inr (Some ip, s))))"

definition open_fail :: "nat option \<Rightarrow> nat \<Rightarrow> 'a file_st_scheme \<Rightarrow> (int \<times> 'a file_st_scheme) kres" where
  "open_fail f ip s =
     bindE (case f of None \<Rightarrow> Inr s | Some f \<Rightarrow> fileclose f s) (\<lambda>s.
     bindE (iunlockput ip s) (\<lambda>s. bindE (end_op s) (\<lambda>s. Inr (-1, s))))"

definition do_open :: "'a file_st_scheme devsw \<Rightarrow> u8 list \<Rightarrow> u32 \<Rightarrow> 'a file_st_scheme \<Rightarrow> (int \<times> 'a file_st_scheme) kres" where
  "do_open dv path omode s =
     bindE (begin_op s) (\<lambda>s.
     bindE (open_inode dv path omode s) (\<lambda>(r, s). case r of
        None \<Rightarrow> bindE (end_op s) (\<lambda>s. Inr (-1, s))
      | Some ip \<Rightarrow>
          bindE (filealloc s) (\<lambda>(f, s). case f of
             None \<Rightarrow> open_fail None ip s
           | Some f \<Rightarrow>
               bindE (fdalloc f s) (\<lambda>(fd, s). case fd of
                  None \<Rightarrow> open_fail (Some f) ip s
                | Some fd \<Rightarrow>
                    bindE (iunlock ip s) (\<lambda>s.
                    bindE (end_op s) (\<lambda>s.
                    Inr (int fd, f_set f (\<lambda>x. x\<lparr>f_type := FD_INODE, f_ip := ip, f_off := 0,
                      f_readable := (omode AND O_WRONLY = 0),
                      f_writable := (omode AND O_WRONLY \<noteq> 0 \<or> omode AND O_RDWR \<noteq> 0)\<rparr>) s)))))))"

definition sys_open :: "'a file_st_scheme devsw \<Rightarrow> 'a file_st_scheme \<Rightarrow> (int \<times> 'a file_st_scheme) kres" where
  "sys_open dv s =
     bindE (argstr 0 s) (\<lambda>(r, s). case r of
        None \<Rightarrow> Inr (-1, s)
      | Some (_, path) \<Rightarrow>
          bindE (argint 1 s) (\<lambda>(r, s). case r of None \<Rightarrow> Inr (-1, s) | Some omode \<Rightarrow> do_open dv path omode s))"

text \<open>The end of \<open>mkdir\<close> and \<open>mknod\<close>: the created inode, or none.\<close>

definition created :: "nat option \<Rightarrow> 'a fs_st_scheme \<Rightarrow> (int \<times> 'a fs_st_scheme) kres" where
  "created r s =
     (case r of
        None \<Rightarrow> bindE (end_op s) (\<lambda>s. Inr (-1, s))
      | Some ip \<Rightarrow> bindE (iunlockput ip s) (\<lambda>s. bindE (end_op s) (\<lambda>s. Inr (0, s))))"

definition sys_mkdir :: "'a fs_st_scheme devsw \<Rightarrow> 'a fs_st_scheme \<Rightarrow> (int \<times> 'a fs_st_scheme) kres" where
  "sys_mkdir dv s =
     bindE (begin_op s) (\<lambda>s.
     bindE (argstr 0 s) (\<lambda>(r, s). case r of
        None \<Rightarrow> created None s
      | Some (_, path) \<Rightarrow> bindE (create dv path T_DIR 0 0 s) (\<lambda>(r, s). created r s)))"

definition sys_mknod :: "'a fs_st_scheme devsw \<Rightarrow> 'a fs_st_scheme \<Rightarrow> (int \<times> 'a fs_st_scheme) kres" where
  "sys_mknod dv s =
     bindE (begin_op s) (\<lambda>s.
     bindE (argstr 0 s) (\<lambda>(r, s). case r of
        None \<Rightarrow> created None s
      | Some (_, path) \<Rightarrow>
          bindE (argint 1 s) (\<lambda>(r, s). case r of
             None \<Rightarrow> created None s
           | Some major \<Rightarrow>
               bindE (argint 2 s) (\<lambda>(r, s). case r of
                  None \<Rightarrow> created None s
                | Some minor \<Rightarrow> bindE (create dv path T_DEV (ucast major) (ucast minor) s) (\<lambda>(r, s). created r s)))))"

definition sys_chdir :: "'a fs_st_scheme devsw \<Rightarrow> 'a fs_st_scheme \<Rightarrow> (int \<times> 'a fs_st_scheme) kres" where
  "sys_chdir dv s =
     bindE (thisproc s) (\<lambda>(c, s).
     bindE (begin_op s) (\<lambda>s.
     bindE (argstr 0 s) (\<lambda>(r, s).
     bindE (case r of None \<Rightarrow> Inr (None, s) | Some (_, path) \<Rightarrow> namei dv path s) (\<lambda>(r, s). case r of
        None \<Rightarrow> bindE (end_op s) (\<lambda>s. Inr (-1, s))
      | Some ip \<Rightarrow>
          bindE (ilock ip s) (\<lambda>s.
          if i_type (icache s ! ip) \<noteq> T_DIR then
            bindE (iunlockput ip s) (\<lambda>s. bindE (end_op s) (\<lambda>s. Inr (-1, s)))
          else
            bindE (iunlock ip s) (\<lambda>s. case p_cwd (ptable s ! c) of
               None \<Rightarrow> Inl Fault
             | Some old \<Rightarrow>
                 bindE (iput old s) (\<lambda>s.
                 bindE (end_op s) (\<lambda>s.
                 Inr (0, proc_upd c (\<lambda>x. x\<lparr>p_cwd := Some ip\<rparr>) s)))))))))"

section \<open>Programs and pipes\<close>

text \<open>The argument vector at \<open>uargv\<close>, from entry \<open>i\<close> on with \<open>k\<close> entries of the array left.\<close>

fun fetch_argv :: "nat \<Rightarrow> u32 \<Rightarrow> 'a proc_st_scheme \<Rightarrow> (u8 list list option \<times> 'a proc_st_scheme) kres" where
  "fetch_argv 0 a s = Inr (None, s)"
| "fetch_argv (Suc k) a s =
     bindE (fetchint a s) (\<lambda>(r, s). case r of
        None \<Rightarrow> Inr (None, s)
      | Some uarg \<Rightarrow>
          if uarg = 0 then Inr (Some [], s)
          else
            bindE (fetchstr uarg s) (\<lambda>(r, s). case r of
               None \<Rightarrow> Inr (None, s)
             | Some (_, str) \<Rightarrow>
                 bindE (fetch_argv k (a + 4) s) (\<lambda>(r, s). Inr (map_option ((#) str) r, s))))"

definition sys_exec :: "'a fs_st_scheme devsw \<Rightarrow> 'a fs_st_scheme \<Rightarrow> (int \<times> 'a fs_st_scheme) kres" where
  "sys_exec dv s =
     bindE (argstr 0 s) (\<lambda>(r, s). case r of
        None \<Rightarrow> Inr (-1, s)
      | Some (_, path) \<Rightarrow>
          bindE (argint 1 s) (\<lambda>(r, s). case r of
             None \<Rightarrow> Inr (-1, s)
           | Some uargv \<Rightarrow>
               bindE (fetch_argv MAXARG uargv s) (\<lambda>(r, s). case r of
                  None \<Rightarrow> Inr (-1, s)
                | Some argv \<Rightarrow> exec dv path argv s)))"

definition sys_pipe :: "'a file_st_scheme \<Rightarrow> (int \<times> 'a file_st_scheme) kres" where
  "sys_pipe s =
     bindE (argptr 0 8 s) (\<lambda>(r, s). case r of
        None \<Rightarrow> Inr (-1, s)
      | Some p \<Rightarrow>
          bindE (pipealloc s) (\<lambda>(r, s). case r of
             None \<Rightarrow> Inr (-1, s)
           | Some (fr, fw) \<Rightarrow>
               bindE (fdalloc fr s) (\<lambda>(fd0, s).
               bindE (case fd0 of None \<Rightarrow> Inr (None, s) | Some _ \<Rightarrow> fdalloc fw s) (\<lambda>(fd1, s).
               case (fd0, fd1) of
                 (Some a, Some b) \<Rightarrow>
                   bindE (ustores p (word_bytes (of_nat a)) s) (\<lambda>s.
                   bindE (ustores (p + 4) (word_bytes (of_nat b)) s) (\<lambda>s. Inr (0, s)))
               | _ \<Rightarrow>
                   bindE (case fd0 of None \<Rightarrow> Inr s
                          | Some a \<Rightarrow> bindE (thisproc s) (\<lambda>(i, s). Inr (set_fd i a None s))) (\<lambda>s.
                   bindE (fileclose fr s) (\<lambda>s.
                   bindE (fileclose fw s) (\<lambda>s. Inr (-1, s))))))))"

end
