(* ===== verification/Syscall.thy ===== *)
theory Syscall
  imports Console Sysfile
begin

text \<open>
  \<open>sysproc.c\<close>, the dispatcher of \<open>syscall.c\<close>, and \<open>trap.c\<close>: the process calls, the table of system calls, and what a trap or an interrupt
  does. A call that has switched away for good, which is \<open>exit\<close>, has no result. Acknowledging an interrupt has no counterpart. The bytes
  waiting in the serial port and the fault address register are fields of the state.
\<close>

section \<open>State\<close>

record sys_st = inp_st +
  ticks :: u32
  uart_in :: "u8 list"
  cr2 :: "int \<Rightarrow> u32"

section \<open>Process calls (sysproc.c)\<close>

definition sys_fork :: "'a file_st_scheme \<Rightarrow> (int \<times> 'a file_st_scheme) kres" where
  "sys_fork s = fork s"

definition sys_exit :: "'a file_st_scheme \<Rightarrow> ('a file_st_scheme) kres" where
  "sys_exit s = exit s"

definition sys_wait :: "'a proc_st_scheme \<Rightarrow> (int \<times> 'a proc_st_scheme) kres" where
  "sys_wait s = bindE (wait s) (\<lambda>(r, s). case r of Inl pid \<Rightarrow> Inr (pid, s) | Inr (c, _) \<Rightarrow> Inl (Sleep (ChProc c)))"

definition sys_kill :: "'a proc_st_scheme \<Rightarrow> (int \<times> 'a proc_st_scheme) kres" where
  "sys_kill s = bindE (argint 0 s) (\<lambda>(r, s). case r of None \<Rightarrow> Inr (-1, s) | Some pid \<Rightarrow> kill (sint pid) s)"

definition sys_getpid :: "'a proc_st_scheme \<Rightarrow> (int \<times> 'a proc_st_scheme) kres" where
  "sys_getpid s = bindE (thisproc s) (\<lambda>(i, s). Inr (p_pid (ptable s ! i), s))"

definition sys_sbrk :: "'a proc_st_scheme \<Rightarrow> (int \<times> 'a proc_st_scheme) kres" where
  "sys_sbrk s =
     bindE (argint 0 s) (\<lambda>(r, s). case r of
        None \<Rightarrow> Inr (-1, s)
      | Some n \<Rightarrow>
          bindE (thisproc s) (\<lambda>(i, s).
          let addr = p_sz (ptable s ! i) in
          bindE (growproc n s) (\<lambda>(r, s). if r < 0 then Inr (-1, s) else Inr (sint addr, s))))"

text \<open>The loop of \<open>sys_sleep\<close>, cut where it sleeps; the comparison is one of unsigned numbers.\<close>

definition sleep_loop :: "u32 \<Rightarrow> u32 \<Rightarrow> 'a sys_st_scheme \<Rightarrow> ((int + nat \<times> u32) \<times> 'a sys_st_scheme) kres" where
  "sleep_loop ticks0 n s =
     (if ticks s - ticks0 < n then
        bindE (proc_killed s) (\<lambda>(k, s).
          if k then bindE (release TicksLock s) (\<lambda>s. Inr (Inl (-1), s))
          else bindE (sleep_out ChTicks TicksLock s) (\<lambda>(i, e, s). Inr (Inr (i, e), s)))
      else bindE (release TicksLock s) (\<lambda>s. Inr (Inl 0, s)))"

definition sleep_resume :: "u32 \<Rightarrow> u32 \<Rightarrow> nat \<times> u32 \<Rightarrow> 'a sys_st_scheme \<Rightarrow> ((int + nat \<times> u32) \<times> 'a sys_st_scheme) kres" where
  "sleep_resume ticks0 n w s = (case w of (i, e) \<Rightarrow> bindE (sleep_in TicksLock i e s) (sleep_loop ticks0 n))"

definition sys_sleep :: "'a sys_st_scheme \<Rightarrow> (int \<times> 'a sys_st_scheme) kres" where
  "sys_sleep s =
     bindE (argint 0 s) (\<lambda>(r, s). case r of
        None \<Rightarrow> Inr (-1, s)
      | Some n \<Rightarrow>
          bindE (acquire TicksLock s) (\<lambda>s.
          bindE (sleep_loop (ticks s) n s) (\<lambda>(r, s). case r of Inl r \<Rightarrow> Inr (r, s) | Inr _ \<Rightarrow> Inl (Sleep ChTicks))))"

definition sys_uptime :: "'a sys_st_scheme \<Rightarrow> (int \<times> 'a sys_st_scheme) kres" where
  "sys_uptime s =
     bindE (acquire TicksLock s) (\<lambda>s.
     let xticks = ticks s in
     bindE (release TicksLock s) (\<lambda>s. Inr (sint xticks, s)))"

definition sys_cps :: "'a proc_st_scheme \<Rightarrow> (int \<times> 'a proc_st_scheme) kres" where
  "sys_cps s = cps s"

definition sys_shm_alloc :: "'a proc_st_scheme \<Rightarrow> (int \<times> 'a proc_st_scheme) kres" where
  "sys_shm_alloc s =
     bindE (argint 0 s) (\<lambda>(r, s). case r of
        None \<Rightarrow> Inr (-1, s)
      | Some sz \<Rightarrow>
          if sint sz \<le> 0 then Inr (-1, s)
          else
            bindE (kalloc s) (\<lambda>(addr, s).
              if addr = 0 then Inr (-1, s)
              else Inr (sint addr, s\<lparr>mem := memset (mem s) addr 0 sz\<rparr>)))"

text \<open>The text \<open>sys_describe\<close> prints: each call's string, with the number of newlines that end it.\<close>

definition describe_text :: "(string \<times> nat) list" where
  "describe_text =
     [(''System Call Descriptions:'', 2),
      (''1. fork():'', 1),
      (''   Creates a new process by duplicating the calling process.'', 1),
      (''   Returns 0 to the child process and the PID of the child to the parent.'', 2),
      (''2. exec(path, argv):'', 1),
      (''   Replaces the current process with a new process from the program at 'path'.'', 1),
      (''   'argv' is an array of arguments. Returns -1 on failure, does not return on success.'', 2),
      (''3. wait():'', 1),
      (''   Suspends execution until a child process terminates, then returns the child PID.'', 1),
      (''   Returns -1 if there are no children.'', 2),
      (''4. kill(pid):'', 1),
      (''   Sends a signal to terminate the process with the specified PID.'', 1),
      (''   Returns 0 on success, or -1 if the PID is invalid.'', 2),
      (''5. exit(status):'', 1),
      (''   Terminates the calling process with the specified status code.'', 1),
      (''   Does not return.'', 2),
      (''6. getpid():'', 1),
      (''   Returns the process ID (PID) of the calling process.'', 2),
      (''7. sleep(seconds):'', 1),
      (''   Suspends execution of the calling process for a specified time (in seconds).'', 1),
      (''   Returns 0 on success.'', 2),
      (''8. uptime():'', 1),
      (''   Returns the number of timer ticks since the system started.'', 2),
      (''9. sbrk(n):'', 1),
      (''   Increases the process'' @ [CHR 0xE2, CHR 0x80, CHR 0x99] @ ''s data space by 'n' bytes. Returns the start address of the new area.'', 2),
      (''10. open(filename, flags):'', 1),
      (''    Opens the file specified by 'filename' with the given 'flags'.'', 1),
      (''    Returns a file descriptor, or -1 if the file could not be opened.'', 2),
      (''11. read(fd, buffer, nbytes):'', 1),
      (''    Reads 'nbytes' from file descriptor 'fd' into 'buffer'.'', 1),
      (''    Returns the number of bytes read, or -1 on error.'', 2),
      (''12. write(fd, buffer, nbytes):'', 1),
      (''    Writes 'nbytes' from 'buffer' to the file descriptor 'fd'.'', 1),
      (''    Returns the number of bytes written, or -1 on error.'', 2),
      (''13. close(fd):'', 1),
      (''    Closes the file descriptor 'fd'.'', 1),
      (''    Returns 0 on success, or -1 on error.'', 2),
      (''14. fstat(fd, stat):'', 1),
      (''    Retrieves file status information for the file descriptor 'fd' into 'stat'.'', 1),
      (''    Returns 0 on success, or -1 on error.'', 2),
      (''15. link(oldpath, newpath):'', 1),
      (''    Creates a new link (newpath) to an existing file (oldpath).'', 1),
      (''    Returns 0 on success, or -1 on error.'', 2),
      (''16. unlink(path):'', 1),
      (''    Removes the specified file (path) if it has no other links.'', 1),
      (''    Returns 0 on success, or -1 on error.'', 2),
      (''17. mkdir(path):'', 1),
      (''    Creates a new directory at the specified path.'', 1),
      (''    Returns 0 on success, or -1 on error.'', 2),
      (''18. chdir(path):'', 1),
      (''    Changes the current working directory to the specified path.'', 1),
      (''    Returns 0 on success, or -1 on error.'', 2),
      (''19. dup(fd):'', 1),
      (''    Duplicates the file descriptor 'fd'.'', 1),
      (''    Returns a new file descriptor pointing to the same file, or -1 on error.'', 2),
      (''20. pipe(pipefd):'', 1),
      (''    Creates a pipe, a unidirectional data channel, and places the two ends of the pipe'', 1),
      (''    in the array 'pipefd'. Returns 0 on success, or -1 on error.'', 2),
      (''21. mknod(path, major, minor):'', 1),
      (''    Creates a device file with the specified path, major number, and minor number.'', 1),
      (''    Returns 0 on success, or -1 on error.'', 2),
      (''22. sendmsg(pid, message):'', 1),
      (''    Sends a message to the process with the specified PID.'', 1),
      (''    'message' is the content to be sent. Returns 0 on success, or -1 if the PID is invalid.'', 2),
      (''23. recvmsg(buffer, maxlen):'', 1),
      (''    Receives a message sent to the calling process and stores it in 'buffer'.'', 1),
      (''    'maxlen' specifies the maximum number of characters to read.'', 1),
      (''    Returns the number of bytes received, or -1 if no messages are available.'', 2),
      (''End of System Call Descriptions.'', 1)]"

fun print_all :: "(string \<times> nat) list \<Rightarrow> 'a con_st_scheme \<Rightarrow> ('a con_st_scheme) kres" where
  "print_all [] s = Inr s"
| "print_all ((l, n) # ls) s = bindE (cprintf (l @ replicate n (CHR 0x0A)) [] s) (print_all ls)"

definition sys_describe :: "'a con_st_scheme \<Rightarrow> (int \<times> 'a con_st_scheme) kres" where
  "sys_describe s = bindE (print_all describe_text s) (\<lambda>s. Inr (0, s))"

section \<open>The dispatcher (syscall.c)\<close>

text \<open>The table: \<open>None\<close> for a number without a call; the result \<open>None\<close> for the call that does not return.\<close>

definition syscalls :: "int \<Rightarrow> ('a sys_st_scheme \<Rightarrow> (int option \<times> 'a sys_st_scheme) kres) option" where
  "syscalls num =
     (let ret = (\<lambda>f s. bindE (f s) (\<lambda>(r, s). Inr (Some r, s))) in
      if num = 1 then Some (ret sys_fork)
      else if num = 2 then Some (\<lambda>s. bindE (sys_exit s) (\<lambda>s. Inr (None, s)))
      else if num = 3 then Some (ret sys_wait)
      else if num = 4 then Some (ret sys_pipe)
      else if num = 5 then Some (ret (sys_read console_devsw))
      else if num = 6 then Some (ret sys_kill)
      else if num = 7 then Some (ret (sys_exec console_devsw))
      else if num = 8 then Some (ret sys_fstat)
      else if num = 9 then Some (ret (sys_chdir console_devsw))
      else if num = 10 then Some (ret sys_dup)
      else if num = 11 then Some (ret sys_getpid)
      else if num = 12 then Some (ret sys_sbrk)
      else if num = 13 then Some (ret sys_sleep)
      else if num = 14 then Some (ret sys_uptime)
      else if num = 15 then Some (ret (sys_open console_devsw))
      else if num = 16 then Some (ret (sys_write console_devsw))
      else if num = 17 then Some (ret (sys_mknod console_devsw))
      else if num = 18 then Some (ret (sys_unlink console_devsw))
      else if num = 19 then Some (ret (sys_link console_devsw))
      else if num = 20 then Some (ret (sys_mkdir console_devsw))
      else if num = 21 then Some (ret sys_close)
      else if num = 22 then Some (ret sys_cps)
      else if num = 23 then Some (ret sys_shm_alloc)
      else if num = 24 then Some (ret sys_describe)
      else None)"

definition set_eax :: "nat \<Rightarrow> int \<Rightarrow> 'a proc_st_scheme \<Rightarrow> 'a proc_st_scheme" where
  "set_eax i v s = s\<lparr>mem := write32 (mem s) (p_tf (ptable s ! i) + TF_EAX) (of_int v)\<rparr>"

text \<open>\<open>False\<close>: the process has exited.\<close>

definition syscall :: "'a sys_st_scheme \<Rightarrow> (bool \<times> 'a sys_st_scheme) kres" where
  "syscall s =
     bindE (thisproc s) (\<lambda>(i, s).
     let num = read32 (mem s) (p_tf (ptable s ! i) + TF_EAX) in
     case syscalls (sint num) of
       Some f \<Rightarrow> bindE (f s) (\<lambda>(r, s). case r of None \<Rightarrow> Inr (False, s) | Some v \<Rightarrow> Inr (True, set_eax i v s))
     | None \<Rightarrow>
         bindE (cprintf (''%d %s: unknown sys call %d'' @ [CHR 0x0A])
           [CInt (of_int (p_pid (ptable s ! i))), CStr (p_name (ptable s ! i)), CInt num] s) (\<lambda>s.
         Inr (True, set_eax i (-1) s)))"

section \<open>Traps (trap.c)\<close>

abbreviation (input) T_SYSCALL :: u32 where "T_SYSCALL \<equiv> 64"
abbreviation (input) T_IRQ0 :: u32 where "T_IRQ0 \<equiv> 32"
abbreviation (input) IRQ_TIMER :: u32 where "IRQ_TIMER \<equiv> 0"
abbreviation (input) IRQ_KBD :: u32 where "IRQ_KBD \<equiv> 1"
abbreviation (input) IRQ_COM1 :: u32 where "IRQ_COM1 \<equiv> 4"
abbreviation (input) IRQ_IDE :: u32 where "IRQ_IDE \<equiv> 14"
abbreviation (input) IRQ_SPURIOUS :: u32 where "IRQ_SPURIOUS \<equiv> 31"

datatype trapres = Returned | Exited | Yielded u32

definition uartintr :: "'a sys_st_scheme \<Rightarrow> ('a sys_st_scheme) kres" where
  "uartintr s = consoleintr (map uint (uart_in s)) (s\<lparr>uart_in := []\<rparr>)"

definition tick :: "'a sys_st_scheme \<Rightarrow> ('a sys_st_scheme) kres" where
  "tick s =
     bindE (cpuid s) (\<lambda>c.
       if c = 0 then
         bindE (acquire TicksLock s) (\<lambda>s.
         bindE (wakeup ChTicks (s\<lparr>ticks := ticks s + 1\<rparr>)) (release TicksLock))
       else Inr s)"

text \<open>The default case of the switch.\<close>

definition trap_other :: "u32 \<Rightarrow> 'a sys_st_scheme \<Rightarrow> ('a sys_st_scheme) kres" where
  "trap_other tf s =
     (let no = read32 (mem s) (tf + TF_TRAPNO); cs = read16 (mem s) (tf + TF_CS); eip = read32 (mem s) (tf + TF_EIP) in
      bindE (myproc s) (\<lambda>(p, s). case p of
         None \<Rightarrow>
           bindE (cpuid s) (\<lambda>c.
           bindE (cprintf (''unexpected trap %d from cpu %d eip %x (cr2=0x%x)'' @ [CHR 0x0A])
             [CInt no, CInt (of_nat c), CInt eip, CInt (cr2 s (lapic s))] s) (\<lambda>s. Inl (Panic ''trap'')))
       | Some i \<Rightarrow>
           bindE (cpuid s) (\<lambda>c.
           if cs AND 3 = 0 then
             bindE (cprintf (''unexpected trap %d from cpu %d eip %x (cr2=0x%x)'' @ [CHR 0x0A])
               [CInt no, CInt (of_nat c), CInt eip, CInt (cr2 s (lapic s))] s) (\<lambda>s. Inl (Panic ''trap''))
           else
             bindE (cprintf (''pid %d %s: trap %d err %d on cpu %d eip 0x%x addr 0x%x--kill proc'' @ [CHR 0x0A])
               [CInt (of_int (p_pid (ptable s ! i))), CStr (p_name (ptable s ! i)), CInt no,
                CInt (read32 (mem s) (tf + TF_ERR)), CInt (of_nat c), CInt eip, CInt (cr2 s (lapic s))] s) (\<lambda>s.
             Inr (proc_upd i (\<lambda>x. x\<lparr>p_killed := 1\<rparr>) s)))))"

definition trap_switch :: "u32 \<Rightarrow> 'a sys_st_scheme \<Rightarrow> ('a sys_st_scheme) kres" where
  "trap_switch tf s =
     (let no = read32 (mem s) (tf + TF_TRAPNO) in
      if no = T_IRQ0 + IRQ_TIMER then tick s
      else if no = T_IRQ0 + IRQ_IDE \<or> no = T_IRQ0 + IRQ_IDE + 1 then Inr s
      else if no = T_IRQ0 + IRQ_KBD then kbdintr s
      else if no = T_IRQ0 + IRQ_COM1 then uartintr s
      else if no = T_IRQ0 + 7 \<or> no = T_IRQ0 + IRQ_SPURIOUS then
        bindE (cpuid s) (\<lambda>c.
        cprintf (''cpu%d: spurious interrupt at %x:%x'' @ [CHR 0x0A])
          [CInt (of_nat c), CInt (ucast (read16 (mem s) (tf + TF_CS))), CInt (read32 (mem s) (tf + TF_EIP))] s)
      else trap_other tf s)"

text \<open>A killed process that comes from user space exits.\<close>

definition exit_if_killed :: "u32 \<Rightarrow> 'a sys_st_scheme \<Rightarrow> (bool \<times> 'a sys_st_scheme) kres" where
  "exit_if_killed tf s =
     bindE (myproc s) (\<lambda>(p, s). case p of
        None \<Rightarrow> Inr (False, s)
      | Some i \<Rightarrow>
          if p_killed (ptable s ! i) \<noteq> 0 \<and> read16 (mem s) (tf + TF_CS) AND 3 = 3
          then bindE (exit s) (\<lambda>s. Inr (True, s)) else Inr (False, s))"

definition trap_tail :: "u32 \<Rightarrow> 'a sys_st_scheme \<Rightarrow> (trapres \<times> 'a sys_st_scheme) kres" where
  "trap_tail tf s = bindE (exit_if_killed tf s) (\<lambda>(x, s). Inr (if x then Exited else Returned, s))"

text \<open>A clock interrupt takes the processor from a running process; \<open>trap_resume\<close> is the rest after it runs again.\<close>

definition trap_back :: "u32 \<Rightarrow> 'a sys_st_scheme \<Rightarrow> (trapres \<times> 'a sys_st_scheme) kres" where
  "trap_back tf s =
     bindE (exit_if_killed tf s) (\<lambda>(x, s).
       if x then Inr (Exited, s)
       else
         bindE (myproc s) (\<lambda>(p, s). case p of
            None \<Rightarrow> trap_tail tf s
          | Some i \<Rightarrow>
              if p_state (ptable s ! i) = RUNNING \<and> read32 (mem s) (tf + TF_TRAPNO) = T_IRQ0 + IRQ_TIMER
              then bindE (yield_out s) (\<lambda>(e, s). Inr (Yielded e, s))
              else trap_tail tf s))"

definition trap_resume :: "u32 \<Rightarrow> u32 \<Rightarrow> 'a sys_st_scheme \<Rightarrow> (trapres \<times> 'a sys_st_scheme) kres" where
  "trap_resume e tf s = bindE (yield_in e s) (trap_tail tf)"

definition trap_syscall :: "u32 \<Rightarrow> 'a sys_st_scheme \<Rightarrow> (trapres \<times> 'a sys_st_scheme) kres" where
  "trap_syscall tf s =
     bindE (proc_killed s) (\<lambda>(k, s).
       if k then bindE (exit s) (\<lambda>s. Inr (Exited, s))
       else
         bindE (thisproc s) (\<lambda>(i, s).
         bindE (syscall (proc_upd i (\<lambda>x. x\<lparr>p_tf := tf\<rparr>) s)) (\<lambda>(there, s).
           if \<not> there then Inr (Exited, s)
           else
             bindE (proc_killed s) (\<lambda>(k, s).
               if k then bindE (exit s) (\<lambda>s. Inr (Exited, s)) else Inr (Returned, s)))))"

definition trap :: "u32 \<Rightarrow> 'a sys_st_scheme \<Rightarrow> (trapres \<times> 'a sys_st_scheme) kres" where
  "trap tf s =
     (if read32 (mem s) (tf + TF_TRAPNO) = T_SYSCALL then trap_syscall tf s
      else bindE (trap_switch tf s) (trap_back tf))"

end
