(* ===== verification/Spec2Isabelle.thy ===== *)
theory Spec2Isabelle
  imports Xv6_Prelude CString Spinlock Kalloc Conout Vm Proc Sleeplock Bytes Bio Log Log_Crash Userlib Grep Sh Sh_Parse
    Userprogs Custom_Shell Fs Pipe Fs_Tx Fs_Alloc Fs_Data Fs_File File Console Syscall_Args Process Exec
    Sysfile Syscall
begin

text \<open>
  A verification of the kernel and programs of the repository.
\<close>

end
